(* ===== verification/Prelude.thy ===== *)
theory Prelude
  imports Main "HOL-Library.Word"
begin

unbundle bit_operations_syntax

text \<open>
  The prelude of the GoodbyeDPI development: the machine types of the C sources
  (x86-64 Linux, little endian), the outcome type in which undefined behaviour is a
  value, checked accesses to byte buffers, and the generic lemmas the components share.

  A C object that the sources reach through a pointer and a length (a packet, a payload,
  a header block, a text buffer) is the list of its bytes.  Every read and write of the
  model goes through \<open>rd\<close>, \<open>wr\<close>, \<open>slice\<close> or \<open>blit\<close>, which yield \<open>Inl OutOfBounds\<close> where the C
  access would leave the object; a component is memory safe on an input when its result
  is \<open>Inr\<close>.
\<close>

named_theorems cmem \<open>evaluation rules of the checked memory accesses\<close>

section \<open>Machine types\<close>

type_synonym u8 = "8 word"
type_synonym u16 = "16 word"
type_synonym u32 = "32 word"
type_synonym u64 = "64 word"
type_synonym size_t = "64 word"
type_synonym bytes = "u8 list"

section \<open>Outcomes: undefined behaviour as a value\<close>

datatype c_fault = NullDeref | OutOfBounds | UninitRead | DeadBlock

type_synonym 'a cres = "c_fault + 'a"

definition bindC :: "'a cres \<Rightarrow> ('a \<Rightarrow> 'b cres) \<Rightarrow> 'b cres" where
  "bindC m f = (case m of Inl e \<Rightarrow> Inl e | Inr x \<Rightarrow> f x)"

lemma bindC_simps [simp, cmem]:
  "bindC (Inl e) f = Inl e"
  "bindC (Inr x) f = f x"
  by (simp_all add: bindC_def)

lemma bindC_eq_Inr: "bindC m f = Inr y \<longleftrightarrow> (\<exists>x. m = Inr x \<and> f x = Inr y)"
  by (cases m) auto

lemma bindC_eq_Inl: "bindC m f = Inl e \<longleftrightarrow> m = Inl e \<or> (\<exists>x. m = Inr x \<and> f x = Inl e)"
  by (cases m) auto

lemma bindC_split:
  "P (bindC m f) \<longleftrightarrow> (\<forall>e. m = Inl e \<longrightarrow> P (Inl e)) \<and> (\<forall>x. m = Inr x \<longrightarrow> P (f x))"
  by (cases m) auto

lemma bindC_cong [fundef_cong]:
  "m = m' \<Longrightarrow> (\<And>x. m' = Inr x \<Longrightarrow> f x = g x) \<Longrightarrow> bindC m f = bindC m' g"
  by (cases m') auto

text \<open>
  Two weakest preconditions.  \<open>okC m P\<close>: the computation is free of undefined behaviour and its
  value satisfies \<open>P\<close>.  \<open>retC m P\<close>: if it returns a value, the value satisfies \<open>P\<close>.
\<close>

named_theorems wp \<open>weakest preconditions of the checked operations\<close>

definition okC :: "'a cres \<Rightarrow> ('a \<Rightarrow> bool) \<Rightarrow> bool" where
  "okC m P \<longleftrightarrow> (case m of Inl e \<Rightarrow> False | Inr x \<Rightarrow> P x)"

definition retC :: "'a cres \<Rightarrow> ('a \<Rightarrow> bool) \<Rightarrow> bool" where
  "retC m P \<longleftrightarrow> (case m of Inl e \<Rightarrow> True | Inr x \<Rightarrow> P x)"

lemma okC_simps [simp, wp]: "okC (Inl e) P \<longleftrightarrow> False" "okC (Inr x) P \<longleftrightarrow> P x"
  by (simp_all add: okC_def)

lemma retC_simps [simp, wp]: "retC (Inl e) P \<longleftrightarrow> True" "retC (Inr x) P \<longleftrightarrow> P x"
  by (simp_all add: retC_def)

lemma okC_bind [wp]: "okC (bindC m f) P \<longleftrightarrow> okC m (\<lambda>x. okC (f x) P)"
  by (cases m) auto

lemma retC_bind [wp]: "retC (bindC m f) P \<longleftrightarrow> retC m (\<lambda>x. retC (f x) P)"
  by (cases m) auto

lemma okC_if [wp]: "okC (if b then m else n) P \<longleftrightarrow> (b \<longrightarrow> okC m P) \<and> (\<not> b \<longrightarrow> okC n P)"
  by simp

lemma retC_if [wp]: "retC (if b then m else n) P \<longleftrightarrow> (b \<longrightarrow> retC m P) \<and> (\<not> b \<longrightarrow> retC n P)"
  by simp

lemma okC_mono: "okC m P \<Longrightarrow> (\<And>x. P x \<Longrightarrow> Q x) \<Longrightarrow> okC m Q"
  by (cases m) auto

lemma retC_mono: "retC m P \<Longrightarrow> (\<And>x. P x \<Longrightarrow> Q x) \<Longrightarrow> retC m Q"
  by (cases m) auto

lemma okC_iff: "okC m P \<longleftrightarrow> (\<exists>x. m = Inr x \<and> P x)"
  by (cases m) auto

lemma retC_iff: "retC m P \<longleftrightarrow> (\<forall>x. m = Inr x \<longrightarrow> P x)"
  by (cases m) auto

text \<open>The C pointer test: a null pointer is \<open>None\<close>, its use a fault.\<close>

definition deref :: "'a option \<Rightarrow> 'a cres" where
  "deref p = (case p of None \<Rightarrow> Inl NullDeref | Some x \<Rightarrow> Inr x)"

lemma deref_simps [simp, cmem]: "deref None = Inl NullDeref" "deref (Some x) = Inr x"
  by (simp_all add: deref_def)

section \<open>Checked accesses to a buffer\<close>

definition rd :: "'a list \<Rightarrow> nat \<Rightarrow> 'a cres" where
  "rd b i = (if i < length b then Inr (b ! i) else Inl OutOfBounds)"

definition wr :: "'a list \<Rightarrow> nat \<Rightarrow> 'a \<Rightarrow> 'a list cres" where
  "wr b i x = (if i < length b then Inr (b[i := x]) else Inl OutOfBounds)"

text \<open>\<open>slice b off n\<close> is the source operand of a \<open>memcpy\<close> of \<open>n\<close> bytes from \<open>b + off\<close>.\<close>

definition slice :: "'a list \<Rightarrow> nat \<Rightarrow> nat \<Rightarrow> 'a list cres" where
  "slice b off n = (if off + n \<le> length b then Inr (take n (drop off b)) else Inl OutOfBounds)"

text \<open>\<open>blit b off xs\<close> is the destination of a \<open>memcpy\<close> or \<open>memmove\<close> of \<open>xs\<close> to \<open>b + off\<close>.\<close>

definition blit :: "'a list \<Rightarrow> nat \<Rightarrow> 'a list \<Rightarrow> 'a list cres" where
  "blit b off xs =
     (if off + length xs \<le> length b then Inr (take off b @ xs @ drop (off + length xs) b)
      else Inl OutOfBounds)"

lemma rd_Inr [cmem]: "i < length b \<Longrightarrow> rd b i = Inr (b ! i)"
  by (simp add: rd_def)

lemma rd_oob [cmem]: "length b \<le> i \<Longrightarrow> rd b i = Inl OutOfBounds"
  by (simp add: rd_def)

lemma rd_eq_Inr: "rd b i = Inr x \<longleftrightarrow> i < length b \<and> x = b ! i"
  by (auto simp: rd_def)

lemma wr_Inr [cmem]: "i < length b \<Longrightarrow> wr b i x = Inr (b[i := x])"
  by (simp add: wr_def)

lemma wr_oob [cmem]: "length b \<le> i \<Longrightarrow> wr b i x = Inl OutOfBounds"
  by (simp add: wr_def)

lemma wr_eq_Inr: "wr b i x = Inr b' \<longleftrightarrow> i < length b \<and> b' = b[i := x]"
  by (auto simp: wr_def)

lemma okC_rd [wp]: "okC (rd b i) P \<longleftrightarrow> i < length b \<and> P (b ! i)"
  by (simp add: rd_def)

lemma retC_rd [wp]: "retC (rd b i) P \<longleftrightarrow> (i < length b \<longrightarrow> P (b ! i))"
  by (simp add: rd_def)

lemma okC_wr [wp]: "okC (wr b i x) P \<longleftrightarrow> i < length b \<and> P (b[i := x])"
  by (simp add: wr_def)

lemma retC_wr [wp]: "retC (wr b i x) P \<longleftrightarrow> (i < length b \<longrightarrow> P (b[i := x]))"
  by (simp add: wr_def)

lemma okC_slice [wp]: "okC (slice b off n) P \<longleftrightarrow> off + n \<le> length b \<and> P (take n (drop off b))"
  by (simp add: slice_def)

lemma retC_slice [wp]: "retC (slice b off n) P \<longleftrightarrow> (off + n \<le> length b \<longrightarrow> P (take n (drop off b)))"
  by (simp add: slice_def)

lemma slice_Inr [cmem]: "off + n \<le> length b \<Longrightarrow> slice b off n = Inr (take n (drop off b))"
  by (simp add: slice_def)

lemma slice_oob [cmem]: "length b < off + n \<Longrightarrow> slice b off n = Inl OutOfBounds"
  by (simp add: slice_def)

lemma slice_eq_Inr: "slice b off n = Inr xs \<longleftrightarrow> off + n \<le> length b \<and> xs = take n (drop off b)"
  by (auto simp: slice_def)

lemma slice_length: "slice b off n = Inr xs \<Longrightarrow> length xs = n"
  by (auto simp: slice_eq_Inr)

lemma blit_eq_Inr:
  "blit b off xs = Inr b' \<longleftrightarrow>
     off + length xs \<le> length b \<and> b' = take off b @ xs @ drop (off + length xs) b"
  by (auto simp: blit_def)

lemma blit_length: "blit b off xs = Inr b' \<Longrightarrow> length b' = length b"
  by (auto simp: blit_eq_Inr)

lemma okC_blit [wp]:
  "okC (blit b off xs) P \<longleftrightarrow> off + length xs \<le> length b \<and> P (take off b @ xs @ drop (off + length xs) b)"
  by (simp add: blit_def)

section \<open>Multi-byte fields\<close>

definition be16 :: "u8 \<Rightarrow> u8 \<Rightarrow> u16" where
  "be16 hi lo = (push_bit 8 (ucast hi) OR ucast lo)"

definition be32 :: "u8 \<Rightarrow> u8 \<Rightarrow> u8 \<Rightarrow> u8 \<Rightarrow> u32" where
  "be32 a b c d = push_bit 24 (ucast a) OR push_bit 16 (ucast b) OR push_bit 8 (ucast c) OR ucast d"

text \<open>A 16 or 32 bit load on the little endian host.\<close>

definition le16 :: "u8 \<Rightarrow> u8 \<Rightarrow> u16" where
  "le16 b0 b1 = be16 b1 b0"

definition le32 :: "u8 \<Rightarrow> u8 \<Rightarrow> u8 \<Rightarrow> u8 \<Rightarrow> u32" where
  "le32 b0 b1 b2 b3 = be32 b3 b2 b1 b0"

definition rd16be :: "bytes \<Rightarrow> nat \<Rightarrow> u16 cres" where
  "rd16be b i = bindC (rd b i) (\<lambda>h. bindC (rd b (i + 1)) (\<lambda>l. Inr (be16 h l)))"

definition rd16le :: "bytes \<Rightarrow> nat \<Rightarrow> u16 cres" where
  "rd16le b i = bindC (rd b i) (\<lambda>l. bindC (rd b (i + 1)) (\<lambda>h. Inr (le16 l h)))"

definition rd32le :: "bytes \<Rightarrow> nat \<Rightarrow> u32 cres" where
  "rd32le b i =
     bindC (rd b i) (\<lambda>b0. bindC (rd b (i + 1)) (\<lambda>b1.
     bindC (rd b (i + 2)) (\<lambda>b2. bindC (rd b (i + 3)) (\<lambda>b3. Inr (le32 b0 b1 b2 b3)))))"

lemma rd16be_Inr [cmem]: "i + 1 < length b \<Longrightarrow> rd16be b i = Inr (be16 (b ! i) (b ! (i + 1)))"
  by (simp add: rd16be_def rd_def)

lemma rd16be_oob [cmem]: "length b \<le> i + 1 \<Longrightarrow> rd16be b i = Inl OutOfBounds"
  by (simp add: rd16be_def rd_def)

lemma rd16le_Inr [cmem]: "i + 1 < length b \<Longrightarrow> rd16le b i = Inr (le16 (b ! i) (b ! (i + 1)))"
  by (simp add: rd16le_def rd_def)

lemma rd32le_Inr [cmem]:
  "i + 3 < length b \<Longrightarrow> rd32le b i = Inr (le32 (b ! i) (b ! (i + 1)) (b ! (i + 2)) (b ! (i + 3)))"
  by (simp add: rd32le_def rd_def)

lemma okC_rd16be [wp]: "okC (rd16be b i) P \<longleftrightarrow> i + 1 < length b \<and> P (be16 (b ! i) (b ! (i + 1)))"
  by (auto simp: rd16be_def wp)

lemma retC_rd16be [wp]: "retC (rd16be b i) P \<longleftrightarrow> (i + 1 < length b \<longrightarrow> P (be16 (b ! i) (b ! (i + 1))))"
  by (auto simp: rd16be_def wp)

lemma okC_rd32le [wp]:
  "okC (rd32le b i) P \<longleftrightarrow> i + 3 < length b \<and> P (le32 (b ! i) (b ! (i + 1)) (b ! (i + 2)) (b ! (i + 3)))"
  by (auto simp: rd32le_def wp)

text \<open>\<open>ntohs\<close>/\<open>htons\<close> and \<open>ntohl\<close>/\<open>htonl\<close> on the little endian host swap the bytes.\<close>

definition byte_of :: "nat \<Rightarrow> 'a::len word \<Rightarrow> u8" where
  "byte_of k w = ucast (drop_bit (8 * k) w)"

definition ntohs :: "u16 \<Rightarrow> u16" where
  "ntohs w = be16 (byte_of 0 w) (byte_of 1 w)"

definition ntohl :: "u32 \<Rightarrow> u32" where
  "ntohl w = be32 (byte_of 0 w) (byte_of 1 w) (byte_of 2 w) (byte_of 3 w)"

lemma byte_of_le16: "byte_of 0 (le16 a b) = a" "byte_of (Suc 0) (le16 a b) = b"
  by (rule bit_word_eqI; auto simp: byte_of_def le16_def be16_def bit_simps dest: bit_imp_le_length)+

lemma byte_of_le32:
  "byte_of 0 (le32 a b c d) = a" "byte_of (Suc 0) (le32 a b c d) = b"
  "byte_of 2 (le32 a b c d) = c" "byte_of 3 (le32 a b c d) = d"
  by (rule bit_word_eqI; auto simp: byte_of_def le32_def be32_def bit_simps dest: bit_imp_le_length)+

lemma ntohs_le16: "ntohs (le16 a b) = be16 a b"
  by (simp add: ntohs_def byte_of_le16)

lemma ntohl_le32: "ntohl (le32 a b c d) = be32 a b c d"
  by (simp add: ntohl_def byte_of_le32)

lemma le16_bytes: "le16 (byte_of 0 w) (byte_of (Suc 0) w) = w"
  by (rule bit_word_eqI) (auto simp: byte_of_def le16_def be16_def bit_simps)

lemma le32_bytes:
  "le32 (byte_of 0 w) (byte_of (Suc 0) w) (byte_of 2 w) (byte_of 3 w) = w" (is "?l = w")
proof (rule bit_word_eqI)
  fix n :: nat
  assume "n < LENGTH(32)"
  then show "bit ?l n = bit w n"
    by (cases "n < 8"; cases "n < 16"; cases "n < 24")
      (auto simp: byte_of_def le32_def be32_def bit_simps)
qed

lemma ntohs_ntohs: "ntohs (ntohs w) = w"
proof -
  have "ntohs (le16 (byte_of 1 w) (byte_of 0 w)) = w"
    by (simp add: ntohs_le16 flip: le16_def) (simp add: le16_bytes)
  then show ?thesis by (simp add: ntohs_def le16_def)
qed

lemma ntohl_ntohl: "ntohl (ntohl w) = w"
proof -
  have "ntohl (le32 (byte_of 3 w) (byte_of 2 w) (byte_of 1 w) (byte_of 0 w)) = w"
    by (simp add: ntohl_le32 flip: le32_def) (simp add: le32_bytes)
  then show ?thesis by (simp add: ntohl_def le32_def)
qed

section \<open>Invariants of step relations\<close>

text \<open>What every component that runs as a sequence of steps shares: a predicate that holds initially and
  is kept by every step holds in every reachable state.\<close>

locale invariant_system =
  fixes init :: "'s \<Rightarrow> bool" and step :: "'s \<Rightarrow> 's \<Rightarrow> bool" and inv :: "'s \<Rightarrow> bool"
  assumes init_inv: "init s \<Longrightarrow> inv s"
    and step_inv: "inv s \<Longrightarrow> step s t \<Longrightarrow> inv t"
begin

lemma steps_inv: "step\<^sup>*\<^sup>* s t \<Longrightarrow> inv s \<Longrightarrow> inv t"
  by (induction rule: rtranclp_induct) (auto intro: step_inv)

lemma reachable_inv: "init s \<Longrightarrow> step\<^sup>*\<^sup>* s t \<Longrightarrow> inv t"
  using steps_inv init_inv by blast

end

section \<open>Text literals and characters\<close>

text \<open>A C string literal as bytes, without its terminating NUL.\<close>

definition lit :: "string \<Rightarrow> bytes" where
  "lit s = map of_char s"

lemma length_lit [simp]: "length (lit s) = length s"
  by (simp add: lit_def)

text \<open>\<open>tolower\<close> and \<open>toupper\<close> of the C locale on the value of an unsigned char.\<close>

definition tolower :: "u8 \<Rightarrow> u8" where
  "tolower c = (if 65 \<le> c \<and> c \<le> 90 then c + 32 else c)"

definition toupper :: "u8 \<Rightarrow> u8" where
  "toupper c = (if 97 \<le> c \<and> c \<le> 122 then c - 32 else c)"

definition isspace :: "u8 \<Rightarrow> bool" where
  "isspace c \<longleftrightarrow> c = 32 \<or> (9 \<le> c \<and> c \<le> 13)"

lemmas char_arith = word_le_nat_alt unat_word_ariths unat_sub_if' word_unat_eq_iff

lemma tolower_tolower [simp]: "tolower (tolower c) = tolower c"
  by (auto simp: tolower_def char_arith)

lemma tolower_toupper [simp]: "tolower (toupper c) = tolower c"
  by (auto simp: tolower_def toupper_def char_arith)

lemma tolower_eq_0 [simp]: "tolower c = 0 \<longleftrightarrow> c = 0"
  by (auto simp: tolower_def char_arith)

lemma toupper_eq_0 [simp]: "toupper c = 0 \<longleftrightarrow> c = 0"
  by (auto simp: toupper_def char_arith)

lemma zero_eq_tolower [simp]: "0 = tolower c \<longleftrightarrow> c = 0" "tolower 0 = 0" "toupper 0 = 0"
  by (auto simp: tolower_def toupper_def char_arith)

lemma toupper_toupper [simp]: "toupper (toupper c) = toupper c"
  by (auto simp: toupper_def char_arith)

section \<open>Sizes\<close>

lemma unat_size: "n < 2 ^ 64 \<Longrightarrow> unat (of_nat n :: size_t) = n"
  by (simp add: unat_of_nat)

lemma size_less: "n < 2 ^ 64 \<Longrightarrow> (of_nat n :: size_t) < w \<longleftrightarrow> n < unat w"
  by (simp add: word_less_nat_alt unat_of_nat)

lemma size_pos: "n < 2 ^ 64 \<Longrightarrow> (0 :: size_t) < of_nat n \<longleftrightarrow> 0 < n"
  by (simp add: word_less_nat_alt unat_of_nat)

lemma size_diff2:
  "a + b \<le> n \<Longrightarrow> (of_nat n :: size_t) - of_nat a - of_nat b = of_nat (n - a - b)"
  by simp

text \<open>A subtraction that goes below zero wraps to a value no object can have.\<close>

lemma size_diff2_wrap:
  assumes "n < a + b" and "a + b < 2 ^ 32"
  shows "2 ^ 63 < unat ((of_nat n :: size_t) - of_nat a - of_nat b)"
proof -
  have "(of_nat n :: size_t) - of_nat a - of_nat b = of_nat n - of_nat (a + b)" by simp
  also have "unat \<dots> = n + 2 ^ 64 - (a + b)"
    using assms by (simp add: unat_sub_if' unat_of_nat del: of_nat_add)
  finally show ?thesis using assms by simp
qed

lemma unat_nibble_hi: "unat (drop_bit 4 (b :: u8)) \<le> 15"
proof -
  have "unat b < 256" using unsigned_less [of b] by simp
  then show ?thesis by (simp add: drop_bit_eq_div unat_div)
qed

lemma unat_nibble_lo: "unat (b AND 15 :: u8) \<le> 15"
  using word_and_le1 [of b 15] by (simp add: word_le_nat_alt)

lemma unat_u8_le: "unat (w :: u8) \<le> 255"
  using unsigned_less [of w, where ?'a = nat] by simp

lemma unat_u16_le: "unat (w :: u16) \<le> 65535"
  using unsigned_less [of w, where ?'a = nat] by simp

lemma unat_ucast8: "unat (ucast (a :: u8) :: u16) = unat a" "unat (ucast a :: u32) = unat a"
  by (simp_all add: unsigned_ucast_eq take_bit_nat_eq_self order.strict_trans1 [OF unat_u8_le])

lemma unat_be16: "unat (be16 a b) = unat a * 256 + unat b"
proof -
  have "be16 a b = push_bit 8 (ucast a) + ucast b"
    unfolding be16_def by (rule disjunctive_add [symmetric]) (auto simp: bit_simps dest: bit_imp_le_length)
  then show ?thesis
    using unat_u8_le [of a] unat_u8_le [of b]
    by (simp add: push_bit_eq_mult unat_word_ariths unat_ucast8)
qed

lemma unat_be32:
  "unat (be32 a b c d) = unat a * 16777216 + unat b * 65536 + unat c * 256 + unat d"
proof -
  have "be32 a b c d = push_bit 24 (ucast a) + (push_bit 16 (ucast b) + (push_bit 8 (ucast c) + ucast d))"
    unfolding be32_def
    by (subst (1 2 3) disjunctive_add) (auto simp: bit_simps or.assoc dest: bit_imp_le_length)
  then show ?thesis
    using unat_u8_le [of a] unat_u8_le [of b] unat_u8_le [of c] unat_u8_le [of d]
    by (simp add: push_bit_eq_mult unat_word_ariths unat_ucast8)
qed

section \<open>Decimal text\<close>

text \<open>The conversions \<open>%u\<close> and \<open>%lu\<close> of \<open>printf\<close>.\<close>

definition dec_digit :: "nat \<Rightarrow> char" where
  "dec_digit d = char_of (48 + d)"

fun dec_nat :: "nat \<Rightarrow> string" where
  "dec_nat n = (if n < 10 then [dec_digit n] else dec_nat (n div 10) @ [dec_digit (n mod 10)])"

declare dec_nat.simps [simp del]

abbreviation dec_word :: "'w::len word \<Rightarrow> string" where
  "dec_word w \<equiv> dec_nat (unat w)"

definition dec_char :: "char \<Rightarrow> bool" where
  "dec_char c \<longleftrightarrow> 48 \<le> (of_char c :: nat) \<and> (of_char c :: nat) < 58"

lemma dec_char_digit: "d < 10 \<Longrightarrow> dec_char (dec_digit d)" "d < 10 \<Longrightarrow> of_char (dec_digit d) = 48 + d"
  by (simp_all add: dec_char_def dec_digit_def)

lemma dec_nat_chars: "c \<in> set (dec_nat n) \<Longrightarrow> dec_char c"
proof (induction n rule: dec_nat.induct)
  case (1 n)
  then show ?case using dec_char_digit(1) by (subst (asm) dec_nat.simps) (auto split: if_splits)
qed

lemma dec_nat_value: "foldl (\<lambda>v c. 10 * v + (of_char c - 48)) 0 (dec_nat n) = n"
proof (induction n rule: dec_nat.induct)
  case (1 n)
  then show ?case by (subst dec_nat.simps) (simp add: dec_char_digit(2))
qed

lemma dec_nat_inj [simp]: "dec_nat m = dec_nat n \<longleftrightarrow> m = n"
  by (metis dec_nat_value)

lemma dec_word_inj: "dec_word v = dec_word w \<longleftrightarrow> v = w"
  by (simp add: word_unat_eq_iff)

text \<open>A number ends where a character begins that is no digit, read from the left and from the right.\<close>

lemma sep_prefix:
  "\<forall>x \<in> set xs. P x \<Longrightarrow> \<forall>y \<in> set ys. P y \<Longrightarrow> \<not> P c \<Longrightarrow> xs @ c # s = ys @ c # t \<longleftrightarrow> xs = ys \<and> s = t"
proof (induction xs arbitrary: ys)
  case Nil
  then show ?case by (cases ys) auto
next
  case (Cons x xs)
  then show ?case by (cases ys) auto
qed

lemma dec_nat_prefix: "\<not> dec_char c \<Longrightarrow> dec_nat m @ c # s = dec_nat n @ c # t \<longleftrightarrow> m = n \<and> s = t"
  using sep_prefix [of "dec_nat m" dec_char "dec_nat n" c] dec_nat_chars by auto

lemma dec_nat_suffix: "\<not> dec_char c \<Longrightarrow> s @ c # dec_nat m = t @ c # dec_nat n \<longleftrightarrow> s = t \<and> m = n"
  using sep_prefix [of "rev (dec_nat m)" dec_char "rev (dec_nat n)" c "rev s" "rev t"] dec_nat_chars
  by (metis dec_nat_inj rev_append rev_is_rev_conv rev.simps(2) append_Cons append_Nil append_assoc set_rev)

lemma unat_ucast16: "unat (ucast (a :: u16) :: u32) = unat a"
  by (simp add: unsigned_ucast_eq take_bit_nat_eq_self order.strict_trans1 [OF unat_u16_le])

lemma unat_ucast_size: "unat (ucast (a :: u16) :: size_t) = unat a" "unat (ucast (b :: u8) :: size_t) = unat b"
  by (simp_all add: unsigned_ucast_eq take_bit_nat_eq_self order.strict_trans1 [OF unat_u16_le]
      order.strict_trans1 [OF unat_u8_le])

end
