(* ===== verification/CStrings.thy ===== *)
theory CStrings
  imports Prelude
begin

text \<open>
  The C string functions the sources call (\<open>strlen\<close>, \<open>strncmp\<close> against a literal, \<open>strstr\<close>,
  \<open>strncpy\<close>) on pointers into byte buffers.  A \<open>char *\<close> that is only read is the list of bytes
  from the pointer to the end of its object; running off that list is \<open>Inl OutOfBounds\<close>.
  A string literal is given by its contents without the NUL.
\<close>

section \<open>Definitions\<close>

fun strlen :: "bytes \<Rightarrow> nat cres" where
  "strlen [] = Inl OutOfBounds"
| "strlen (c # cs) = (if c = 0 then Inr 0 else bindC (strlen cs) (\<lambda>n. Inr (Suc n)))"

text \<open>\<open>prefix_at p s\<close> is \<open>strncmp (p, s, strlen (s)) == 0\<close> for a literal \<open>s\<close>.\<close>

fun prefix_at :: "bytes \<Rightarrow> bytes \<Rightarrow> bool cres" where
  "prefix_at p [] = Inr True"
| "prefix_at [] (n # ns) = Inl OutOfBounds"
| "prefix_at (c # cs) (n # ns) = (if c = n then prefix_at cs ns else Inr False)"

text \<open>\<open>strstr\<close>: the offset of the first occurrence of the literal, or \<open>None\<close>.\<close>

fun strstr :: "bytes \<Rightarrow> bytes \<Rightarrow> nat option cres" where
  "strstr [] s = (if s = [] then Inr (Some 0) else Inl OutOfBounds)"
| "strstr (c # cs) s =
     bindC (prefix_at (c # cs) s) (\<lambda>m.
       if m then Inr (Some 0)
       else if c = 0 then Inr None
       else bindC (strstr cs s) (\<lambda>r. Inr (map_option Suc r)))"

text \<open>The contents of the C string at a pointer, when it is terminated.\<close>

definition cstring :: "bytes \<Rightarrow> bytes" where
  "cstring p = takeWhile (\<lambda>c. c \<noteq> 0) p"

text \<open>\<open>strncpy (dest, src, n)\<close> into a buffer of which only the first \<open>n\<close> bytes are written:
  at most \<open>n\<close> characters, zero padded.\<close>

definition strncpy :: "bytes \<Rightarrow> bytes \<Rightarrow> nat \<Rightarrow> bytes cres" where
  "strncpy dest src n =
     (let s = takeWhile (\<lambda>c. c \<noteq> 0) src in
      if length src = length s \<and> length s < n then Inl OutOfBounds
      else blit dest 0 (take n s @ replicate (n - length s) 0))"

section \<open>Terminated strings are read safely\<close>

definition terminated :: "bytes \<Rightarrow> bool" where
  "terminated p \<longleftrightarrow> 0 \<in> set p"

lemma terminated_simps [simp]:
  "\<not> terminated []" "terminated (c # cs) \<longleftrightarrow> c = 0 \<or> terminated cs"
  by (auto simp: terminated_def)

lemma cstring_append: "0 \<notin> set a \<Longrightarrow> cstring (a @ b) = a @ cstring b"
  by (induction a) (auto simp: cstring_def)

lemma cstring_take: "cstring (take n p) = take n (cstring p)"
  by (induction p arbitrary: n) (auto simp: cstring_def take_Cons split: nat.split)

lemma cstring_length: "length (cstring p) \<le> length p"
  by (simp add: cstring_def length_takeWhile_le)

text \<open>\<open>strncpy\<close> of at most as many bytes as the source object has is safe.\<close>

lemma strncpy_within:
  assumes "n \<le> length src" and "n \<le> length dest"
  shows "strncpy dest src n =
    Inr (take n (cstring src) @ replicate (n - length (cstring src)) 0 @ drop n dest)"
proof -
  have "min (length (cstring src)) n + (n - length (cstring src)) = n" by simp
  then show ?thesis using assms
    by (auto simp: strncpy_def blit_def Let_def simp flip: cstring_def)
qed

lemma cstring_split: obtains q where "p = cstring p @ q"
  using takeWhile_dropWhile_id [of "\<lambda>c. c \<noteq> 0" p] by (metis cstring_def)

lemma strlen_terminated: "terminated p \<Longrightarrow> strlen p = Inr (length (cstring p))"
  by (induction p) (auto simp: cstring_def)

lemma strlen_unterminated: "\<not> terminated p \<Longrightarrow> strlen p = Inl OutOfBounds"
  by (induction p) auto

lemma strlen_iff: "strlen p = (if terminated p then Inr (length (cstring p)) else Inl OutOfBounds)"
  by (simp add: strlen_terminated strlen_unterminated)

lemma strlen_eq_Inr: "strlen p = Inr n \<longleftrightarrow> n < length p \<and> p ! n = 0 \<and> (\<forall>i<n. p ! i \<noteq> 0)"
proof (induction p arbitrary: n)
  case (Cons c cs)
  show ?case
    by (cases n) (auto simp: bindC_eq_Inr Cons.IH All_less_Suc2 split: if_splits)
qed simp

lemma prefix_at_long: "length s \<le> length p \<Longrightarrow> prefix_at p s = Inr (take (length s) p = s)"
  by (induction p s rule: prefix_at.induct) auto

lemma prefix_at_True: "prefix_at p s = Inr True \<longleftrightarrow> take (length s) p = s \<and> length s \<le> length p"
  by (induction p s rule: prefix_at.induct) auto

lemma prefix_at_cases: "prefix_at p s = Inl e \<Longrightarrow> length p < length s \<and> take (length p) s = p"
  by (induction p s rule: prefix_at.induct) (auto split: if_splits)

lemma prefix_at_append: "prefix_at (s @ q) s = Inr True"
  by (simp add: prefix_at_True)

lemma prefix_at_terminated:
  "terminated p \<Longrightarrow> 0 \<notin> set s \<Longrightarrow> prefix_at p s = Inr (take (length s) p = s)"
  by (induction p s rule: prefix_at.induct) auto

text \<open>\<open>strstr\<close> agrees with its specification: the least offset at which the literal occurs,
  provided no NUL precedes it.\<close>

lemma strstr_Some:
  "strstr p s = Inr (Some k) \<Longrightarrow>
     k \<le> length p \<and> take (length s) (drop k p) = s \<and> k + length s \<le> length p \<and>
     (\<forall>i<k. p ! i \<noteq> 0 \<and> prefix_at (drop i p) s = Inr False)"
proof (induction p s arbitrary: k rule: strstr.induct)
  case (2 c cs s)
  show ?case
  proof (cases "prefix_at (c # cs) s = Inr True")
    case True
    with "2.prems" show ?thesis by (auto simp: prefix_at_True)
  next
    case False
    with "2.prems" obtain k' where F: "prefix_at (c # cs) s = Inr False"
      and c: "c \<noteq> 0" and k': "strstr cs s = Inr (Some k')" and k: "k = Suc k'"
      by (auto simp: bindC_eq_Inr split: if_splits)
    from "2.IH" [OF F _ c k'] F c k show ?thesis
      by (auto simp: nth_Cons split: nat.splits)
  qed
qed (auto split: if_splits)

lemma strstr_found:
  assumes "\<forall>i<length pre. pre ! i \<noteq> 0 \<and> prefix_at (drop i (pre @ s @ q)) s = Inr False"
  shows "strstr (pre @ s @ q) s = Inr (Some (length pre))"
  using assms
proof (induction pre)
  case Nil
  show ?case using prefix_at_append [of s q] by (cases "s @ q") auto
next
  case (Cons c pre)
  have "c \<noteq> 0" and F: "prefix_at ((c # pre) @ s @ q) s = Inr False"
    using Cons.prems by auto
  have "\<forall>i<length pre. pre ! i \<noteq> 0 \<and> prefix_at (drop i (pre @ s @ q)) s = Inr False"
    using Cons.prems by auto
  then have "strstr (pre @ s @ q) s = Inr (Some (length pre))" by (rule Cons.IH)
  with F \<open>c \<noteq> 0\<close> show ?case by simp
qed

lemma strstr_terminated: "terminated p \<Longrightarrow> 0 \<notin> set s \<Longrightarrow> \<exists>r. strstr p s = Inr r"
  by (induction p s rule: strstr.induct) (force simp: prefix_at_terminated)+

lemma strstr_None:
  "strstr p s = Inr None \<Longrightarrow> i < length (cstring p) \<Longrightarrow> prefix_at (drop i p) s = Inr False"
proof (induction p s arbitrary: i rule: strstr.induct)
  case (2 c cs s)
  show ?case
    using "2.prems" "2.IH" by (cases i) (auto simp: cstring_def bindC_eq_Inr split: if_splits)
qed (simp add: cstring_def)

end
