(* ===== verification/Packet.thy ===== *)
theory Packet
  imports CStrings
begin

text \<open>
  \<open>src/include/goodbyedpi.h\<close> (\<open>packet_t\<close>) and \<open>src/capture/packet_utils.c\<close>: the parsed packet,
  the IPv4/IPv6 parser and the packet predicates.  The three heap blocks of a packet
  (\<open>payload\<close>, \<open>headers\<close>, \<open>raw_packet\<close>) are \<open>bytes option\<close>, \<open>None\<close> for a null pointer; lengths are
  \<open>size_t\<close> words, so the parser's subtractions wrap as they do in C.
\<close>

section \<open>Data\<close>

datatype packet_type_t =
    PACKET_UNKNOWN | PACKET_IPV4_TCP | PACKET_IPV4_TCP_DATA | PACKET_IPV4_UDP_DATA
  | PACKET_IPV6_TCP | PACKET_IPV6_TCP_DATA | PACKET_IPV6_UDP_DATA

datatype packet_direction_t = DIRECTION_UNKNOWN | DIRECTION_OUTBOUND | DIRECTION_INBOUND

text \<open>\<open>uint32_t ip[4]\<close>; IPv4 uses the first word only.\<close>

type_synonym ip_words = "u32 \<times> u32 \<times> u32 \<times> u32"

abbreviation ip0 :: "ip_words \<Rightarrow> u32" where
  "ip0 \<equiv> fst"

record packet_t =
  p_is_ipv6 :: bool
  p_is_outbound :: bool
  p_direction :: packet_direction_t
  p_type :: packet_type_t
  p_ttl :: u8
  p_src_ip :: ip_words
  p_dst_ip :: ip_words
  p_src_port :: u16
  p_dst_port :: u16
  p_payload :: "bytes option"
  p_payload_len :: size_t
  p_headers :: "bytes option"
  p_headers_len :: size_t
  p_nfqueue_id :: u32
  p_raw_packet :: "bytes option"
  p_raw_packet_len :: size_t

text \<open>\<open>malloc k n\<close>: whether the \<open>k\<close>-th call of \<open>malloc\<close> in the running function, for \<open>n\<close> bytes,
  returns a block (rather than a null pointer).\<close>

type_synonym malloc_env = "nat \<Rightarrow> size_t \<Rightarrow> bool"

text \<open>\<open>p = malloc (n); if (p) memcpy (p, d + off, n)\<close>.\<close>

definition malloc_copy :: "malloc_env \<Rightarrow> nat \<Rightarrow> bytes \<Rightarrow> nat \<Rightarrow> size_t \<Rightarrow> bytes option cres" where
  "malloc_copy malloc k d off n =
     (if malloc k n then bindC (slice d off (unat n)) (\<lambda>x. Inr (Some x)) else Inr None)"

section \<open>Initialisation and release\<close>

definition packet_zero :: packet_t where
  "packet_zero =
     \<lparr>p_is_ipv6 = False, p_is_outbound = False, p_direction = DIRECTION_UNKNOWN,
      p_type = PACKET_UNKNOWN, p_ttl = 0, p_src_ip = (0, 0, 0, 0), p_dst_ip = (0, 0, 0, 0),
      p_src_port = 0, p_dst_port = 0, p_payload = None, p_payload_len = 0,
      p_headers = None, p_headers_len = 0, p_nfqueue_id = 0,
      p_raw_packet = None, p_raw_packet_len = 0\<rparr>"

definition packet_init :: "packet_t option \<Rightarrow> int \<times> packet_t option" where
  "packet_init packet = (case packet of None \<Rightarrow> (-1, None) | Some p \<Rightarrow> (0, Some packet_zero))"

definition packet_free :: "packet_t option \<Rightarrow> packet_t option" where
  "packet_free packet =
     (case packet of None \<Rightarrow> None
      | Some p \<Rightarrow>
          (let p1 = (if p_payload p = None then p else p\<lparr>p_payload := None\<rparr>);
               p2 = (if p_headers p1 = None then p1 else p1\<lparr>p_headers := None\<rparr>);
               p3 = (if p_raw_packet p2 = None then p2 else p2\<lparr>p_raw_packet := None\<rparr>)
           in snd (packet_init (Some p3))))"

section \<open>The IPv4 parser\<close>

text \<open>The transport part of \<open>packet_parse_ipv4\<close> (the \<open>if\<close>/\<open>else if\<close> on the protocol); \<open>False\<close> is
  its early \<open>return -1\<close>.  \<open>ihl\<close> is the IP header length in bytes.\<close>

definition parse_ipv4_tcp :: "malloc_env \<Rightarrow> bytes \<Rightarrow> size_t \<Rightarrow> nat \<Rightarrow> packet_t \<Rightarrow> (bool \<times> packet_t) cres" where
  "parse_ipv4_tcp malloc d len ihl p =
     (if len < 20 + 20 then Inr (False, p)
      else bindC (rd16be d ihl) (\<lambda>sport. bindC (rd16be d (ihl + 2)) (\<lambda>dport.
           bindC (rd d (ihl + 12)) (\<lambda>o12.
             let doff = unat (drop_bit 4 o12) * 4;
                 payload_len = len - of_nat ihl - of_nat doff;
                 p1 = p\<lparr>p_src_port := sport, p_dst_port := dport\<rparr>
             in if 0 < payload_len
                then bindC (malloc_copy malloc 0 d (ihl + doff) payload_len) (\<lambda>pl.
                       Inr (True, p1\<lparr>p_type := PACKET_IPV4_TCP_DATA, p_payload := pl,
                                     p_payload_len := (if pl = None then 0 else payload_len)\<rparr>))
                else Inr (True, p1\<lparr>p_type := PACKET_IPV4_TCP\<rparr>)))))"

definition parse_ipv4_udp :: "malloc_env \<Rightarrow> bytes \<Rightarrow> size_t \<Rightarrow> nat \<Rightarrow> packet_t \<Rightarrow> (bool \<times> packet_t) cres" where
  "parse_ipv4_udp malloc d len ihl p =
     (if len < 20 + 8 then Inr (False, p)
      else bindC (rd16be d ihl) (\<lambda>sport. bindC (rd16be d (ihl + 2)) (\<lambda>dport.
             let payload_len = len - of_nat ihl - 8;
                 p1 = p\<lparr>p_src_port := sport, p_dst_port := dport\<rparr>
             in if 0 < payload_len
                then bindC (malloc_copy malloc 0 d (ihl + 8) payload_len) (\<lambda>pl.
                       Inr (True, p1\<lparr>p_type := PACKET_IPV4_UDP_DATA, p_payload := pl,
                                     p_payload_len := (if pl = None then 0 else payload_len)\<rparr>))
                else Inr (True, p1))))"

definition IPPROTO_TCP :: u8 where "IPPROTO_TCP = 6"
definition IPPROTO_UDP :: u8 where "IPPROTO_UDP = 17"

text \<open>The length of the headers that are stored (the data offset is read a second time).\<close>

definition ipv4_headers_len :: "bytes \<Rightarrow> nat \<Rightarrow> u8 \<Rightarrow> nat cres" where
  "ipv4_headers_len d ihl proto =
     (if proto = IPPROTO_TCP
      then bindC (rd d (ihl + 12)) (\<lambda>o12. Inr (ihl + unat (drop_bit 4 o12) * 4))
      else if proto = IPPROTO_UDP then Inr (ihl + 8)
      else Inr ihl)"

text \<open>The last part of \<open>packet_parse_ipv4\<close>: the raw packet and the headers are stored.\<close>

definition ipv4_store :: "malloc_env \<Rightarrow> bytes \<Rightarrow> size_t \<Rightarrow> nat \<Rightarrow> u8 \<Rightarrow> packet_t \<Rightarrow> (int \<times> packet_t) cres" where
  "ipv4_store malloc d len ihl proto p =
     bindC (malloc_copy malloc 1 d 0 len) (\<lambda>raw.
     bindC (ipv4_headers_len d ihl proto) (\<lambda>hl.
     bindC (malloc_copy malloc 2 d 0 (of_nat hl)) (\<lambda>hdrs.
       Inr (0, p\<lparr>p_raw_packet_len := len, p_raw_packet := raw,
                 p_headers_len := of_nat hl, p_headers := hdrs\<rparr>))))"

definition packet_parse_ipv4 :: "malloc_env \<Rightarrow> bytes option \<Rightarrow> size_t \<Rightarrow> packet_t \<Rightarrow> (int \<times> packet_t) cres" where
  "packet_parse_ipv4 malloc data len packet =
     (case data of None \<Rightarrow> Inr (-1, packet)
      | Some d \<Rightarrow>
        if len < 20 then Inr (-1, packet)
        else bindC (rd d 0) (\<lambda>b0.
          if drop_bit 4 b0 \<noteq> 4 then Inr (-1, packet)
          else bindC (rd d 8) (\<lambda>ttl. bindC (rd d 9) (\<lambda>proto.
               bindC (rd32le d 12) (\<lambda>saddr. bindC (rd32le d 16) (\<lambda>daddr.
                 let ihl = unat (b0 AND 15) * 4;
                     p0 = packet_zero\<lparr>p_is_ipv6 := False, p_direction := DIRECTION_UNKNOWN,
                            p_ttl := ttl, p_src_ip := (saddr, 0, 0, 0), p_dst_ip := (daddr, 0, 0, 0),
                            p_is_outbound := ntohl saddr < ntohl daddr\<rparr>
                 in bindC (if proto = IPPROTO_TCP then parse_ipv4_tcp malloc d len ihl p0
                           else if proto = IPPROTO_UDP then parse_ipv4_udp malloc d len ihl p0
                           else Inr (True, p0)) (\<lambda>(ok, p1).
                    if \<not> ok then Inr (-1, p1) else ipv4_store malloc d len ihl proto p1)))))))"

section \<open>IPv6 and dispatch\<close>

definition packet_parse_ipv6 :: "malloc_env \<Rightarrow> bytes \<Rightarrow> size_t \<Rightarrow> packet_t \<Rightarrow> (int \<times> packet_t) cres" where
  "packet_parse_ipv6 malloc d len packet =
     bindC (malloc_copy malloc 0 d 0 len) (\<lambda>raw.
       Inr (0, packet_zero\<lparr>p_is_ipv6 := True, p_direction := DIRECTION_UNKNOWN,
                           p_type := PACKET_IPV6_TCP, p_raw_packet_len := len,
                           p_raw_packet := raw\<rparr>))"

definition packet_parse :: "malloc_env \<Rightarrow> bytes option \<Rightarrow> size_t \<Rightarrow> packet_t option \<Rightarrow> (int \<times> packet_t option) cres" where
  "packet_parse malloc data len packet =
     (case (data, packet) of
        (Some d, Some p) \<Rightarrow>
          if len < 20 then Inr (-1, packet)
          else bindC (rd d 0) (\<lambda>b0.
            let version = drop_bit 4 b0 AND 0x0F in
            if version = 4
            then bindC (packet_parse_ipv4 malloc data len p) (\<lambda>(rc, q). Inr (rc, Some q))
            else if version = 6
            then bindC (packet_parse_ipv6 malloc d len p) (\<lambda>(rc, q). Inr (rc, Some q))
            else Inr (-1, packet))
      | _ \<Rightarrow> Inr (-1, packet))"

section \<open>Packet predicates\<close>

definition packet_is_tcp :: "packet_t option \<Rightarrow> bool" where
  "packet_is_tcp packet =
     (case packet of None \<Rightarrow> False
      | Some p \<Rightarrow> p_type p = PACKET_IPV4_TCP \<or> p_type p = PACKET_IPV4_TCP_DATA \<or>
                 p_type p = PACKET_IPV6_TCP \<or> p_type p = PACKET_IPV6_TCP_DATA)"

definition packet_is_udp :: "packet_t option \<Rightarrow> bool" where
  "packet_is_udp packet =
     (case packet of None \<Rightarrow> False
      | Some p \<Rightarrow> p_type p = PACKET_IPV4_UDP_DATA \<or> p_type p = PACKET_IPV6_UDP_DATA)"

text \<open>\<open>s1 == 0 || s2 == 0 || \<dots>\<close>: the comparisons run in order and stop at the first match.\<close>

fun any_prefix :: "bytes \<Rightarrow> bytes list \<Rightarrow> bool cres" where
  "any_prefix p [] = Inr False"
| "any_prefix p (s # ss) = bindC (prefix_at p s) (\<lambda>m. if m then Inr True else any_prefix p ss)"

definition http_methods :: "bytes list" where
  "http_methods = [lit ''GET'', lit ''POST'', lit ''HEAD'', lit ''PUT'', lit ''DELETE'']"

definition packet_is_http :: "packet_t option \<Rightarrow> bool cres" where
  "packet_is_http packet =
     (case packet of None \<Rightarrow> Inr False
      | Some p \<Rightarrow>
          if \<not> packet_is_tcp packet then Inr False
          else case p_payload p of None \<Rightarrow> Inr False
             | Some pl \<Rightarrow>
                 if p_dst_port p = 80 \<and> 3 \<le> p_payload_len p then any_prefix pl http_methods
                 else Inr False)"

definition packet_is_https :: "packet_t option \<Rightarrow> bool" where
  "packet_is_https packet =
     (case packet of None \<Rightarrow> False
      | Some p \<Rightarrow> packet_is_tcp packet \<and> p_dst_port p = 443)"

section \<open>Copy and TTL\<close>

text \<open>One block of \<open>packet_copy\<close>: the destination keeps the zero of \<open>packet_init\<close> when the
  source has no block or the allocation fails.\<close>

definition copy_block :: "malloc_env \<Rightarrow> nat \<Rightarrow> bytes option \<Rightarrow> size_t \<Rightarrow> (bytes option \<times> size_t) cres" where
  "copy_block malloc k blk n =
     (case blk of None \<Rightarrow> Inr (None, 0)
      | Some b \<Rightarrow> if 0 < n
                 then bindC (malloc_copy malloc k b 0 n) (\<lambda>r. Inr (r, if r = None then 0 else n))
                 else Inr (None, 0))"

definition packet_copy :: "malloc_env \<Rightarrow> packet_t option \<Rightarrow> packet_t option \<Rightarrow> (int \<times> packet_t option) cres" where
  "packet_copy malloc src dst =
     (case (src, dst) of
        (Some s, Some d) \<Rightarrow>
          bindC (copy_block malloc 0 (p_payload s) (p_payload_len s)) (\<lambda>(pl, pln).
          bindC (copy_block malloc 1 (p_headers s) (p_headers_len s)) (\<lambda>(hd, hdn).
          bindC (copy_block malloc 2 (p_raw_packet s) (p_raw_packet_len s)) (\<lambda>(rw, rwn).
            Inr (0, Some (packet_zero\<lparr>
              p_is_ipv6 := p_is_ipv6 s, p_is_outbound := p_is_outbound s, p_type := p_type s,
              p_direction := p_direction s, p_ttl := p_ttl s, p_src_port := p_src_port s,
              p_dst_port := p_dst_port s, p_nfqueue_id := p_nfqueue_id s,
              p_src_ip := p_src_ip s, p_dst_ip := p_dst_ip s,
              p_payload := pl, p_payload_len := pln, p_headers := hd, p_headers_len := hdn,
              p_raw_packet := rw, p_raw_packet_len := rwn\<rparr>)))))
      | _ \<Rightarrow> Inr (-1, dst))"

definition packet_set_ttl :: "packet_t option \<Rightarrow> u8 \<Rightarrow> (int \<times> packet_t option) cres" where
  "packet_set_ttl packet ttl =
     (case packet of None \<Rightarrow> Inr (-1, None)
      | Some p \<Rightarrow>
        (case p_raw_packet p of None \<Rightarrow> Inr (-1, packet)
         | Some raw \<Rightarrow>
             let p1 = p\<lparr>p_ttl := ttl\<rparr> in
             if p_type p1 = PACKET_IPV4_TCP
             then bindC (wr raw 8 ttl) (\<lambda>r. Inr (0, Some (p1\<lparr>p_raw_packet := Some r\<rparr>)))
             else if p_type p1 = PACKET_IPV6_TCP
             then bindC (wr raw 7 ttl) (\<lambda>r. Inr (0, Some (p1\<lparr>p_raw_packet := Some r\<rparr>)))
             else Inr (-1, Some p1)))"

section \<open>Lemmas: allocation and well-formed packets\<close>

lemma malloc_copy_Inr:
  "malloc_copy malloc k d off n = Inr r \<longleftrightarrow>
     (if malloc k n then off + unat n \<le> length d \<and> r = Some (take (unat n) (drop off d)) else r = None)"
  by (auto simp: malloc_copy_def bindC_eq_Inr slice_eq_Inr)

lemma malloc_copy_fits [cmem]:
  "off + unat n \<le> length d \<Longrightarrow>
   malloc_copy malloc k d off n = Inr (if malloc k n then Some (take (unat n) (drop off d)) else None)"
  by (simp add: malloc_copy_def slice_Inr)

lemma malloc_copy_oob [cmem]:
  "malloc k n \<Longrightarrow> length d < off + unat n \<Longrightarrow> malloc_copy malloc k d off n = Inl OutOfBounds"
  by (simp add: malloc_copy_def slice_oob)

text \<open>An allocator that serves every request below \<open>PTRDIFF_MAX\<close> and refuses the others, as
  glibc does while memory lasts.\<close>

definition malloc_ample :: "malloc_env \<Rightarrow> bool" where
  "malloc_ample malloc \<longleftrightarrow> malloc = (\<lambda>k n. unat n < 2 ^ 63)"

text \<open>The lengths stored in a packet are the lengths of its blocks.\<close>

definition block_wf :: "bytes option \<Rightarrow> size_t \<Rightarrow> bool" where
  "block_wf blk n \<longleftrightarrow> (case blk of None \<Rightarrow> True | Some b \<Rightarrow> length b = unat n)"

lemma block_wf_simps [simp]: "block_wf None n" "block_wf (Some b) n \<longleftrightarrow> length b = unat n"
  by (simp_all add: block_wf_def)

definition packet_wf :: "packet_t \<Rightarrow> bool" where
  "packet_wf p \<longleftrightarrow>
     block_wf (p_payload p) (p_payload_len p) \<and> (p_payload p = None \<longrightarrow> p_payload_len p = 0) \<and>
     block_wf (p_headers p) (p_headers_len p) \<and> block_wf (p_raw_packet p) (p_raw_packet_len p)"

lemma packet_wf_zero [simp]: "packet_wf packet_zero"
  by (simp add: packet_wf_def packet_zero_def)

lemma retC_malloc_copy: "(\<And>r. block_wf r n \<Longrightarrow> P r) \<Longrightarrow> retC (malloc_copy malloc k d off n) P"
  by (auto simp: malloc_copy_def wp)

lemma parse_ipv4_tcp_wf:
  "packet_wf p \<Longrightarrow> p_payload p = None \<Longrightarrow>
   retC (parse_ipv4_tcp malloc d len ihl p) (\<lambda>(ok, q). packet_wf q)"
  unfolding parse_ipv4_tcp_def Let_def
  by (auto simp: wp packet_wf_def intro!: retC_malloc_copy)

lemma parse_ipv4_udp_wf:
  "packet_wf p \<Longrightarrow> p_payload p = None \<Longrightarrow>
   retC (parse_ipv4_udp malloc d len ihl p) (\<lambda>(ok, q). packet_wf q)"
  unfolding parse_ipv4_udp_def Let_def
  by (auto simp: wp packet_wf_def intro!: retC_malloc_copy)

lemma ipv4_store_wf:
  "packet_wf q \<Longrightarrow> retC (ipv4_store malloc d len ihl proto q) (\<lambda>(rc, q). packet_wf q)"
  unfolding ipv4_store_def ipv4_headers_len_def
  by (auto simp: wp packet_wf_def intro!: retC_malloc_copy)

lemma retC_rd32le [wp]: "(\<And>w. P w) \<Longrightarrow> retC (rd32le b i) P"
  by (simp add: retC_iff)

lemma packet_parse_ipv4_wf:
  assumes "packet_wf p"
  shows "retC (packet_parse_ipv4 malloc data len p) (\<lambda>(rc, q). packet_wf q)"
proof -
  let ?Z = "\<lambda>a b c e f g. packet_zero\<lparr>p_is_ipv6 := a, p_direction := b, p_ttl := c, p_src_ip := e,
      p_dst_ip := f, p_is_outbound := g\<rparr>"
  have Z: "packet_wf (?Z a b c e f g)" "p_payload (?Z a b c e f g) = None" for a b c e f g
    by (simp_all add: packet_wf_def packet_zero_def)
  have K: "retC m (\<lambda>(ok, q). packet_wf q) \<Longrightarrow>
      retC m (\<lambda>x. retC (case x of (ok, p1) \<Rightarrow>
        if \<not> ok then Inr (- 1, p1) else ipv4_store malloc d len ihl proto p1) (\<lambda>(rc, q). packet_wf q))"
    for m d ihl proto
    by (erule retC_mono) (auto intro: ipv4_store_wf)
  show ?thesis
    unfolding packet_parse_ipv4_def Let_def retC_bind
    using assms
    by (auto split: option.split simp: retC_rd retC_bind
      intro!: retC_rd32le K parse_ipv4_tcp_wf parse_ipv4_udp_wf ipv4_store_wf Z)
qed

lemma packet_parse_ipv6_wf: "retC (packet_parse_ipv6 malloc d len p) (\<lambda>(rc, q). packet_wf q)"
  unfolding packet_parse_ipv6_def
  by (auto simp: wp packet_wf_def packet_zero_def intro!: retC_malloc_copy)

lemma packet_parse_wf:
  assumes "packet_wf p"
  shows "retC (packet_parse malloc data len (Some p)) (\<lambda>(rc, q). \<exists>r. q = Some r \<and> packet_wf r)"
proof -
  have K: "retC m (\<lambda>(rc, q). packet_wf q) \<Longrightarrow>
      retC m (\<lambda>x. retC (case x of (rc, q) \<Rightarrow> Inr (rc, Some q)) (\<lambda>(rc, q). \<exists>r. q = Some r \<and> packet_wf r))"
    for m :: "(int \<times> packet_t) cres"
    by (erule retC_mono) auto
  show ?thesis
    unfolding packet_parse_def Let_def
    using assms by (auto split: option.split simp: retC_rd retC_bind
      intro!: K packet_parse_ipv4_wf packet_parse_ipv6_wf)
qed

section \<open>Lemmas: the parser on IPv4 packets\<close>

text \<open>Header fields of a datagram, as byte offsets.\<close>

definition ipv4_ihl :: "bytes \<Rightarrow> nat" where
  "ipv4_ihl d = unat (d ! 0 AND 15) * 4"

definition tcp_doff :: "bytes \<Rightarrow> nat" where
  "tcp_doff d = unat (drop_bit 4 (d ! (ipv4_ihl d + 12))) * 4"

lemma ipv4_ihl_le: "ipv4_ihl d \<le> 60"
  using unat_nibble_lo [of "d ! 0"] by (simp add: ipv4_ihl_def)

lemma tcp_doff_le: "tcp_doff d \<le> 60"
  using unat_nibble_hi [of "d ! (ipv4_ihl d + 12)"] by (simp add: tcp_doff_def)

text \<open>A datagram of the given protocol as the queue delivers it: version 4, at least the fixed
  header, at most 64 KiB.\<close>

definition is_ipv4 :: "bytes \<Rightarrow> u8 \<Rightarrow> bool" where
  "is_ipv4 d proto \<longleftrightarrow>
     20 \<le> length d \<and> length d < 65536 \<and> drop_bit 4 (d ! 0) = 4 \<and> d ! 9 = proto"

text \<open>What the parser fills in before it looks at the transport header.\<close>

definition ipv4_base :: "bytes \<Rightarrow> packet_t" where
  "ipv4_base d =
     (let s = le32 (d ! 12) (d ! 13) (d ! 14) (d ! 15); t = le32 (d ! 16) (d ! 17) (d ! 18) (d ! 19)
      in packet_zero\<lparr>p_is_ipv6 := False, p_direction := DIRECTION_UNKNOWN,
                     p_ttl := d ! 8, p_src_ip := (s, 0, 0, 0), p_dst_ip := (t, 0, 0, 0),
                     p_is_outbound := ntohl s < ntohl t\<rparr>)"

lemma version_nibble: "drop_bit 4 (b :: u8) AND 0x0F = drop_bit 4 b"
proof -
  have "take_bit 4 (drop_bit 4 b) = drop_bit 4 b"
    by (rule bit_word_eqI) (auto simp: bit_simps dest: bit_imp_le_length)
  then show ?thesis by (simp add: take_bit_eq_mask mask_eq_exp_minus_1)
qed

lemma packet_parse_ipv4_eq:
  assumes "is_ipv4 d proto"
  shows "packet_parse malloc (Some d) (of_nat (length d)) (Some p) =
    bindC (if proto = IPPROTO_TCP then parse_ipv4_tcp malloc d (of_nat (length d)) (ipv4_ihl d) (ipv4_base d)
           else if proto = IPPROTO_UDP then parse_ipv4_udp malloc d (of_nat (length d)) (ipv4_ihl d) (ipv4_base d)
           else Inr (True, ipv4_base d))
      (\<lambda>(ok, p1). bindC (if \<not> ok then Inr (-1, p1) else ipv4_store malloc d (of_nat (length d)) (ipv4_ihl d) proto p1)
        (\<lambda>(rc, q). Inr (rc, Some q)))"
proof -
  have l: "20 \<le> length d" "length d < 2 ^ 64" "\<not> (of_nat (length d) :: size_t) < 20"
    using assms by (auto simp: is_ipv4_def size_less)
  have a: "bindC (bindC m f) g = bindC m (\<lambda>x. bindC (f x) g)" for m :: "'x cres" and f :: "'x \<Rightarrow> 'y cres" and g :: "'y \<Rightarrow> 'z cres"
    by (cases m) auto
  have r: "rd d 0 = Inr (d ! 0)" "rd d 8 = Inr (d ! 8)" "rd d 9 = Inr (d ! 9)"
    "rd32le d 12 = Inr (le32 (d ! 12) (d ! 13) (d ! 14) (d ! 15))"
    "rd32le d 16 = Inr (le32 (d ! 16) (d ! 17) (d ! 18) (d ! 19))"
    using l(1) by (auto simp: rd_def rd32le_Inr)
  show ?thesis
    using assms l r
    by (simp add: packet_parse_def packet_parse_ipv4_def is_ipv4_def version_nibble
        ipv4_base_def ipv4_ihl_def Let_def a split_def cong: if_cong)
qed

text \<open>A TCP segment whose headers lie inside the datagram.\<close>

definition tcp_fits :: "bytes \<Rightarrow> bool" where
  "tcp_fits d \<longleftrightarrow> 40 \<le> length d \<and> ipv4_ihl d + 13 \<le> length d \<and> ipv4_ihl d + tcp_doff d \<le> length d"

definition tcp_payload :: "malloc_env \<Rightarrow> bytes \<Rightarrow> bytes option" where
  "tcp_payload malloc d =
     (let off = ipv4_ihl d + tcp_doff d; n = length d - off
      in if 0 < n \<and> malloc 0 (of_nat n) then Some (drop off d) else None)"

lemma parse_ipv4_tcp_fits:
  assumes "tcp_fits d" and "length d < 65536"
  shows "parse_ipv4_tcp malloc d (of_nat (length d)) (ipv4_ihl d) p =
    Inr (True, p\<lparr>p_src_port := be16 (d ! ipv4_ihl d) (d ! (ipv4_ihl d + 1)),
                 p_dst_port := be16 (d ! (ipv4_ihl d + 2)) (d ! (ipv4_ihl d + 3)),
                 p_type := (if ipv4_ihl d + tcp_doff d < length d then PACKET_IPV4_TCP_DATA else PACKET_IPV4_TCP),
                 p_payload := (if ipv4_ihl d + tcp_doff d < length d then tcp_payload malloc d else p_payload p),
                 p_payload_len := (if ipv4_ihl d + tcp_doff d < length d
                    then (if tcp_payload malloc d = None then 0
                          else of_nat (length d - (ipv4_ihl d + tcp_doff d))) else p_payload_len p)\<rparr>)"
proof -
  let ?n = "length d - ipv4_ihl d - tcp_doff d"
  have o: "unat (drop_bit 4 (d ! (ipv4_ihl d + 12))) * 4 = tcp_doff d"
    by (simp add: tcp_doff_def)
  have l: "\<not> (of_nat (length d) :: size_t) < 20 + 20"
    using assms by (simp add: size_less tcp_fits_def)
  have m: "(of_nat (length d) :: size_t) - of_nat (ipv4_ihl d) - of_nat (tcp_doff d) = of_nat ?n"
    by (rule size_diff2) (use assms(1) in \<open>simp add: tcp_fits_def\<close>)
  have u: "unat (of_nat ?n :: size_t) = ?n" by (rule unat_size) (use assms(2) in simp)
  have z: "(0 < (of_nat ?n :: size_t)) = (ipv4_ihl d + tcp_doff d < length d)"
    by (subst size_pos) (use assms(2) in auto)
  have c: "malloc_copy malloc 0 d (ipv4_ihl d + tcp_doff d) (of_nat ?n) =
      Inr (if malloc 0 (of_nat ?n) then Some (drop (ipv4_ihl d + tcp_doff d) d) else None)"
    by (subst malloc_copy_fits) (use assms(1) u in \<open>auto simp: tcp_fits_def\<close>)
  have s: "ipv4_ihl d + 12 < length d" using assms(1) by (auto simp: tcp_fits_def)
  then have r: "rd16be d (ipv4_ihl d) = Inr (be16 (d ! ipv4_ihl d) (d ! (ipv4_ihl d + 1)))"
    "rd16be d (ipv4_ihl d + 2) = Inr (be16 (d ! (ipv4_ihl d + 2)) (d ! (ipv4_ihl d + 3)))"
    "rd d (ipv4_ihl d + 12) = Inr (d ! (ipv4_ihl d + 12))"
    by (auto simp: rd16be_Inr rd_Inr numeral_3_eq_3)
  show ?thesis
    unfolding parse_ipv4_tcp_def Let_def r bindC_simps o m z c
    using l by (auto simp: tcp_payload_def Let_def diff_diff_left)
qed

lemma ipv4_headers_len_tcp:
  "ipv4_ihl d + 13 \<le> length d \<Longrightarrow>
   ipv4_headers_len d (ipv4_ihl d) IPPROTO_TCP = Inr (ipv4_ihl d + tcp_doff d)"
  by (simp add: ipv4_headers_len_def rd_Inr tcp_doff_def)

lemma ipv4_store_fits:
  assumes "ipv4_headers_len d ihl proto = Inr hl" and "hl \<le> length d" and "length d < 65536"
  shows "ipv4_store malloc d (of_nat (length d)) ihl proto p =
    Inr (0, p\<lparr>p_raw_packet_len := of_nat (length d),
              p_raw_packet := (if malloc 1 (of_nat (length d)) then Some d else None),
              p_headers_len := of_nat hl,
              p_headers := (if malloc 2 (of_nat hl) then Some (take hl d) else None)\<rparr>)"
proof -
  have u: "unat (of_nat (length d) :: size_t) = length d" "unat (of_nat hl :: size_t) = hl"
    using assms(2,3) by (auto simp: unat_size)
  have "malloc_copy malloc 1 d 0 (of_nat (length d)) =
      Inr (if malloc 1 (of_nat (length d)) then Some d else None)"
    by (subst malloc_copy_fits) (simp_all add: u)
  moreover have "malloc_copy malloc 2 d 0 (of_nat hl) =
      Inr (if malloc 2 (of_nat hl) then Some (take hl d) else None)"
    by (subst malloc_copy_fits) (use assms(2) in \<open>simp_all add: u\<close>)
  ultimately show ?thesis unfolding ipv4_store_def assms(1) by simp
qed

lemma parse_ipv4_udp_fits:
  assumes "28 \<le> length d" and "ipv4_ihl d + 8 \<le> length d" and "length d < 65536"
  shows "\<exists>q. parse_ipv4_udp malloc d (of_nat (length d)) (ipv4_ihl d) p = Inr (True, q)"
proof -
  let ?n = "length d - ipv4_ihl d - 8"
  have l: "\<not> (of_nat (length d) :: size_t) < 20 + 8" using assms by (simp add: size_less)
  have m: "(of_nat (length d) :: size_t) - of_nat (ipv4_ihl d) - 8 = of_nat ?n"
    using size_diff2 [of "ipv4_ihl d" 8 "length d"] assms(2) by simp
  have u: "unat (of_nat ?n :: size_t) = ?n" by (rule unat_size) (use assms(3) in simp)
  have c: "malloc_copy malloc 0 d (ipv4_ihl d + 8) (of_nat ?n) =
      Inr (if malloc 0 (of_nat ?n) then Some (drop (ipv4_ihl d + 8) d) else None)"
    by (subst malloc_copy_fits) (use assms(2) u in auto)
  have r: "rd16be d (ipv4_ihl d) = Inr (be16 (d ! ipv4_ihl d) (d ! (ipv4_ihl d + 1)))"
    "rd16be d (ipv4_ihl d + 2) = Inr (be16 (d ! (ipv4_ihl d + 2)) (d ! (ipv4_ihl d + 2 + 1)))"
    using assms(2) by (auto simp: rd16be_Inr)
  show ?thesis
    unfolding parse_ipv4_udp_def Let_def r bindC_simps m c using l by auto
qed

section \<open>Lemmas: where the parser leaves the datagram\<close>

lemma rd_cases: "rd b i = Inl OutOfBounds \<or> (\<exists>x. rd b i = Inr x)"
  by (simp add: rd_def)

lemma rd16be_cases: "rd16be b i = Inl OutOfBounds \<or> (\<exists>x. rd16be b i = Inr x)"
  by (simp add: rd16be_def rd_def)

lemma parse_ipv4_tcp_short:
  assumes "40 \<le> length d" and "length d < 65536" and "length d < ihl + 13"
  shows "parse_ipv4_tcp malloc d (of_nat (length d)) ihl p = Inl OutOfBounds"
proof -
  have l: "\<not> (of_nat (length d) :: size_t) < 20 + 20" using assms by (simp add: size_less)
  have "rd d (ihl + 12) = Inl OutOfBounds" using assms(3) by (simp add: rd_oob)
  then show ?thesis
    unfolding parse_ipv4_tcp_def
    using l rd16be_cases [of d ihl] rd16be_cases [of d "ihl + 2"] by auto
qed

lemma parse_ipv4_tcp_wrap:
  assumes "40 \<le> length d" and "length d < 65536" and "ipv4_ihl d + 13 \<le> length d"
    and "length d < ipv4_ihl d + tcp_doff d" and "malloc_ample malloc"
  shows "\<exists>q. parse_ipv4_tcp malloc d (of_nat (length d)) (ipv4_ihl d) p = Inr (True, q)"
proof -
  let ?w = "(of_nat (length d) :: size_t) - of_nat (ipv4_ihl d) - of_nat (tcp_doff d)"
  have o: "unat (drop_bit 4 (d ! (ipv4_ihl d + 12))) * 4 = tcp_doff d" by (simp add: tcp_doff_def)
  have l: "\<not> (of_nat (length d) :: size_t) < 20 + 20" using assms by (simp add: size_less)
  have "2 ^ 63 < unat ?w"
    by (rule size_diff2_wrap [OF assms(4)]) (use ipv4_ihl_le [of d] tcp_doff_le [of d] in simp)
  then have "malloc_copy malloc 0 d (ipv4_ihl d + tcp_doff d) ?w = Inr None"
    using assms(5) by (simp add: malloc_copy_def malloc_ample_def)
  moreover have "rd16be d (ipv4_ihl d) = Inr (be16 (d ! ipv4_ihl d) (d ! (ipv4_ihl d + 1)))"
    "rd16be d (ipv4_ihl d + 2) = Inr (be16 (d ! (ipv4_ihl d + 2)) (d ! (ipv4_ihl d + 2 + 1)))"
    "rd d (ipv4_ihl d + 12) = Inr (d ! (ipv4_ihl d + 12))"
    using assms(3) by (auto simp: rd16be_Inr rd_Inr)
  ultimately show ?thesis
    unfolding parse_ipv4_tcp_def Let_def using l by (simp add: o)
qed

lemma parse_ipv4_udp_wrap:
  assumes "28 \<le> length d" and "length d < 65536" and "length d < ipv4_ihl d + 8"
    and "malloc_ample malloc"
  shows "parse_ipv4_udp malloc d (of_nat (length d)) (ipv4_ihl d) p = Inl OutOfBounds \<or>
    (\<exists>q. parse_ipv4_udp malloc d (of_nat (length d)) (ipv4_ihl d) p = Inr (True, q))"
proof -
  let ?w = "(of_nat (length d) :: size_t) - of_nat (ipv4_ihl d) - 8"
  have l: "\<not> (of_nat (length d) :: size_t) < 20 + 8" using assms by (simp add: size_less)
  have "2 ^ 63 < unat ?w"
    using size_diff2_wrap [of "length d" "ipv4_ihl d" 8] assms(3) ipv4_ihl_le [of d] by simp
  then have "malloc_copy malloc 0 d (ipv4_ihl d + 8) ?w = Inr None"
    using assms(4) by (simp add: malloc_copy_def malloc_ample_def)
  then show ?thesis
    unfolding parse_ipv4_udp_def Let_def
    using l rd16be_cases [of d "ipv4_ihl d"] rd16be_cases [of d "ipv4_ihl d + 2"]
    by (cases "0 < ?w") auto
qed

lemma ipv4_store_overrun:
  assumes "ipv4_headers_len d ihl proto = Inr hl" and "length d < hl" and "hl < 65536"
    and "malloc_ample malloc"
  shows "ipv4_store malloc d (of_nat (length d)) ihl proto p = Inl OutOfBounds"
proof -
  have u: "unat (of_nat (length d) :: size_t) = length d" "unat (of_nat hl :: size_t) = hl"
    using assms(2,3) by (auto simp: unat_size)
  have "malloc_copy malloc 1 d 0 (of_nat (length d)) = Inr (Some d)"
    by (subst malloc_copy_fits) (use assms in \<open>simp_all add: u malloc_ample_def\<close>)
  moreover have "malloc_copy malloc 2 d 0 (of_nat hl) = Inl OutOfBounds"
    by (rule malloc_copy_oob) (use assms in \<open>simp_all add: u malloc_ample_def\<close>)
  ultimately show ?thesis unfolding ipv4_store_def assms(1) by simp
qed

section \<open>Properties of the parser\<close>

text \<open>The datagrams on which the parser stays inside the buffer: the headers it derives from
  the IHL and data offset nibbles end before the datagram does, or the datagram is too short for
  the fixed transport header and is rejected.\<close>

definition ipv4_safe :: "bytes \<Rightarrow> u8 \<Rightarrow> bool" where
  "ipv4_safe d proto \<longleftrightarrow>
     (if proto = IPPROTO_TCP then length d < 40 \<or> tcp_fits d
      else if proto = IPPROTO_UDP then length d < 28 \<or> ipv4_ihl d + 8 \<le> length d
      else ipv4_ihl d \<le> length d)"

lemma packet_parse_ipv4_safe:
  assumes "is_ipv4 d proto" and "ipv4_safe d proto"
  shows "\<exists>r. packet_parse malloc (Some d) (of_nat (length d)) (Some p) = Inr r"
proof -
  have n: "length d < 65536" using assms(1) by (simp add: is_ipv4_def)
  consider (tcp_short) "proto = IPPROTO_TCP" "length d < 40"
    | (tcp) "proto = IPPROTO_TCP" "tcp_fits d"
    | (udp_short) "proto \<noteq> IPPROTO_TCP" "proto = IPPROTO_UDP" "length d < 28"
    | (udp) "proto \<noteq> IPPROTO_TCP" "proto = IPPROTO_UDP" "28 \<le> length d" "ipv4_ihl d + 8 \<le> length d"
    | (other) "proto \<noteq> IPPROTO_TCP" "proto \<noteq> IPPROTO_UDP" "ipv4_ihl d \<le> length d"
    using assms(2) le_less_linear [of 28 "length d"] by (auto simp: ipv4_safe_def split: if_splits)
  then show ?thesis
  proof cases
    case tcp_short
    then have "parse_ipv4_tcp malloc d (of_nat (length d)) (ipv4_ihl d) q = Inr (False, q)" for q
      by (simp add: parse_ipv4_tcp_def size_less)
    with tcp_short show ?thesis by (simp add: packet_parse_ipv4_eq [OF assms(1)])
  next
    case tcp
    then have "ipv4_headers_len d (ipv4_ihl d) proto = Inr (ipv4_ihl d + tcp_doff d)"
      by (simp add: ipv4_headers_len_tcp tcp_fits_def)
    with tcp n show ?thesis
      by (simp add: packet_parse_ipv4_eq [OF assms(1)] parse_ipv4_tcp_fits
          ipv4_store_fits [where hl = "ipv4_ihl d + tcp_doff d"] tcp_fits_def)
  next
    case udp_short
    then have "parse_ipv4_udp malloc d (of_nat (length d)) (ipv4_ihl d) q = Inr (False, q)" for q
      by (simp add: parse_ipv4_udp_def size_less)
    with udp_short show ?thesis by (simp add: packet_parse_ipv4_eq [OF assms(1)])
  next
    case udp
    then have "ipv4_headers_len d (ipv4_ihl d) proto = Inr (ipv4_ihl d + 8)"
      by (simp add: ipv4_headers_len_def)
    with udp n parse_ipv4_udp_fits [OF udp(3,4) n, of malloc "ipv4_base d"] show ?thesis
      by (auto simp: packet_parse_ipv4_eq [OF assms(1)] ipv4_store_fits [where hl = "ipv4_ihl d + 8"])
  next
    case other
    then have "ipv4_headers_len d (ipv4_ihl d) proto = Inr (ipv4_ihl d)"
      by (simp add: ipv4_headers_len_def)
    with other n show ?thesis
      by (simp add: packet_parse_ipv4_eq [OF assms(1)] ipv4_store_fits [where hl = "ipv4_ihl d"])
  qed
qed

lemma packet_parse_ipv4_unsafe:
  assumes "is_ipv4 d proto" and "\<not> ipv4_safe d proto" and "malloc_ample malloc"
  shows "packet_parse malloc (Some d) (of_nat (length d)) (Some p) = Inl OutOfBounds"
proof -
  have n: "length d < 65536" using assms(1) by (simp add: is_ipv4_def)
  note b = ipv4_ihl_le [of d] tcp_doff_le [of d]
  consider (tcp_short) "proto = IPPROTO_TCP" "40 \<le> length d" "length d < ipv4_ihl d + 13"
    | (tcp) "proto = IPPROTO_TCP" "40 \<le> length d" "ipv4_ihl d + 13 \<le> length d"
        "length d < ipv4_ihl d + tcp_doff d"
    | (udp) "proto \<noteq> IPPROTO_TCP" "proto = IPPROTO_UDP" "28 \<le> length d" "length d < ipv4_ihl d + 8"
    | (other) "proto \<noteq> IPPROTO_TCP" "proto \<noteq> IPPROTO_UDP" "length d < ipv4_ihl d"
    using assms(2) le_less_linear [of "ipv4_ihl d + 13" "length d"]
    by (auto simp: ipv4_safe_def tcp_fits_def not_less not_le split: if_splits)
  then show ?thesis
  proof cases
    case tcp_short
    then show ?thesis
      by (simp add: packet_parse_ipv4_eq [OF assms(1)] parse_ipv4_tcp_short [OF tcp_short(2) n tcp_short(3)])
  next
    case tcp
    have h: "ipv4_headers_len d (ipv4_ihl d) proto = Inr (ipv4_ihl d + tcp_doff d)"
      using tcp by (simp add: ipv4_headers_len_tcp)
    from parse_ipv4_tcp_wrap [OF tcp(2) n tcp(3,4) assms(3)] obtain q where
      "parse_ipv4_tcp malloc d (of_nat (length d)) (ipv4_ihl d) (ipv4_base d) = Inr (True, q)" by blast
    with tcp ipv4_store_overrun [OF h _ _ assms(3)] b show ?thesis
      by (simp add: packet_parse_ipv4_eq [OF assms(1)])
  next
    case udp
    have h: "ipv4_headers_len d (ipv4_ihl d) proto = Inr (ipv4_ihl d + 8)"
      using udp by (simp add: ipv4_headers_len_def)
    from parse_ipv4_udp_wrap [OF udp(3) n udp(4) assms(3), of "ipv4_base d"]
      udp ipv4_store_overrun [OF h _ _ assms(3)] b show ?thesis
      by (auto simp: packet_parse_ipv4_eq [OF assms(1)])
  next
    case other
    have h: "ipv4_headers_len d (ipv4_ihl d) proto = Inr (ipv4_ihl d)"
      using other by (simp add: ipv4_headers_len_def)
    with other ipv4_store_overrun [OF h _ _ assms(3)] b show ?thesis
      by (simp add: packet_parse_ipv4_eq [OF assms(1)])
  qed
qed

text \<open>
  C7. \<open>packet_parse\<close> on an IPv4 datagram is memory safe exactly when the header lengths that the
  datagram's own IHL and data offset nibbles announce lie inside it (\<open>ipv4_safe\<close>); on every other
  datagram it reads past the end of the buffer, because the code checks the length only against
  the fixed header sizes.
\<close>

theorem packet_parse_ipv4_safe_iff:
  assumes "is_ipv4 d proto" and "malloc_ample malloc"
  shows "(\<exists>r. packet_parse malloc (Some d) (of_nat (length d)) (Some p) = Inr r) \<longleftrightarrow> ipv4_safe d proto"
  using packet_parse_ipv4_safe [OF assms(1)] packet_parse_ipv4_unsafe [OF assms(1) _ assms(2)]
  by fastforce

text \<open>Two sample segments: a bare TCP segment to port 443, and the same segment with a data
  offset nibble of 15, which announces headers beyond its 40 bytes.\<close>

definition tcp_sample :: "u8 \<Rightarrow> bytes" where
  "tcp_sample off =
     [0x45, 0, 0, 40, 0, 0, 0, 0, 64, 6, 0, 0, 10, 0, 0, 1, 93, 184, 216, 34,
      0x9c, 0x40, 0x01, 0xbb, 0, 0, 0, 1, 0, 0, 0, 0, off, 2, 0, 0, 0, 0, 0, 0]"

lemma tcp_sample_is_ipv4: "is_ipv4 (tcp_sample off) IPPROTO_TCP"
  by (simp add: is_ipv4_def tcp_sample_def IPPROTO_TCP_def drop_bit_eq_div)

lemma tcp_sample_fits: "tcp_fits (tcp_sample 0x50)" "\<not> tcp_fits (tcp_sample 0xF0)"
  by (simp_all add: tcp_fits_def ipv4_ihl_def tcp_doff_def tcp_sample_def drop_bit_eq_div)

lemma length_tcp_sample: "length (tcp_sample off) = 40"
  by (simp add: tcp_sample_def)

theorem packet_parse_ipv4_safe_iff_witness:
  "(\<exists>r. packet_parse (\<lambda>k n. unat n < 2 ^ 63) (Some (tcp_sample 0x50)) (of_nat (length (tcp_sample 0x50)))
          (Some packet_zero) = Inr r) \<and>
   \<not> (\<exists>r. packet_parse (\<lambda>k n. unat n < 2 ^ 63) (Some (tcp_sample 0xF0)) (of_nat (length (tcp_sample 0xF0)))
          (Some packet_zero) = Inr r)"
  using packet_parse_ipv4_safe_iff [OF tcp_sample_is_ipv4, of "\<lambda>k n. unat n < 2 ^ 63" "0x50" packet_zero]
    packet_parse_ipv4_safe_iff [OF tcp_sample_is_ipv4, of "\<lambda>k n. unat n < 2 ^ 63" "0xF0" packet_zero]
    tcp_sample_fits
  by (simp add: malloc_ample_def ipv4_safe_def length_tcp_sample)

lemma packet_parse_tcp_result:
  assumes "is_ipv4 d IPPROTO_TCP" and "tcp_fits d" and "malloc_ample malloc"
  shows "\<exists>q h. packet_parse malloc (Some d) (of_nat (length d)) (Some p) = Inr (0, Some q) \<and>
    p_raw_packet q = Some d \<and> p_headers q = Some h \<and>
    d = h @ (case p_payload q of None \<Rightarrow> [] | Some b \<Rightarrow> b) \<and>
    length h = ipv4_ihl d + tcp_doff d \<and>
    p_type q = (if length h < length d then PACKET_IPV4_TCP_DATA else PACKET_IPV4_TCP) \<and>
    p_ttl q = d ! 8 \<and>
    p_src_port q = be16 (d ! ipv4_ihl d) (d ! (ipv4_ihl d + 1)) \<and>
    p_dst_port q = be16 (d ! (ipv4_ihl d + 2)) (d ! (ipv4_ihl d + 3)) \<and>
    ntohl (ip0 (p_src_ip q)) = be32 (d ! 12) (d ! 13) (d ! 14) (d ! 15) \<and>
    ntohl (ip0 (p_dst_ip q)) = be32 (d ! 16) (d ! 17) (d ! 18) (d ! 19) \<and>
    packet_wf q"
proof -
  have n: "length d < 65536" using assms(1) by (simp add: is_ipv4_def)
  have f: "ipv4_ihl d + tcp_doff d \<le> length d" "ipv4_ihl d + 13 \<le> length d"
    using assms(2) by (auto simp: tcp_fits_def)
  have a: "malloc k (of_nat m)" if "m < 65536" for k m
    using assms(3) that by (simp add: malloc_ample_def unat_size)
  obtain q where q: "packet_parse malloc (Some d) (of_nat (length d)) (Some p) = Inr (0, Some q)"
    and e: "q = (ipv4_base d)\<lparr>p_src_port := be16 (d ! ipv4_ihl d) (d ! (ipv4_ihl d + 1)),
      p_dst_port := be16 (d ! (ipv4_ihl d + 2)) (d ! (ipv4_ihl d + 3)),
      p_type := (if ipv4_ihl d + tcp_doff d < length d then PACKET_IPV4_TCP_DATA else PACKET_IPV4_TCP),
      p_payload := (if ipv4_ihl d + tcp_doff d < length d then tcp_payload malloc d else p_payload (ipv4_base d)),
      p_payload_len := (if ipv4_ihl d + tcp_doff d < length d
         then (if tcp_payload malloc d = None then 0 else of_nat (length d - (ipv4_ihl d + tcp_doff d)))
         else p_payload_len (ipv4_base d)),
      p_raw_packet_len := of_nat (length d), p_raw_packet := Some d,
      p_headers_len := of_nat (ipv4_ihl d + tcp_doff d),
      p_headers := Some (take (ipv4_ihl d + tcp_doff d) d)\<rparr>"
    using f a n
    by (simp add: packet_parse_ipv4_eq [OF assms(1)] parse_ipv4_tcp_fits [OF assms(2) n] IPPROTO_TCP_def
        ipv4_store_fits [OF ipv4_headers_len_tcp [OF f(2), unfolded IPPROTO_TCP_def] f(1) n] del: of_nat_add)
  have w: "packet_wf q"
    using f n a by (auto simp: e packet_wf_def ipv4_base_def packet_zero_def Let_def tcp_payload_def
        unat_size simp del: of_nat_add of_nat_diff)
  show ?thesis
    by (rule exI [of _ q], rule exI [of _ "take (ipv4_ihl d + tcp_doff d) d"])
      (use q f a n w in \<open>auto simp: e ipv4_base_def Let_def packet_zero_def tcp_payload_def
        ntohl_le32 simp del: of_nat_add\<close>)
qed

text \<open>
  C8. On a TCP datagram whose headers fit, \<open>packet_parse\<close> succeeds, keeps the datagram as raw
  packet, cuts it into headers and payload without losing or moving a byte, decodes ports in
  network byte order, marks the packet as carrying data exactly when a payload is left, and the
  result is well formed.
\<close>

theorem packet_parse_tcp_cuts:
  assumes "is_ipv4 d IPPROTO_TCP" and "tcp_fits d" and "malloc_ample malloc"
  shows "\<exists>q h. packet_parse malloc (Some d) (of_nat (length d)) (Some p) = Inr (0, Some q) \<and>
    p_raw_packet q = Some d \<and> p_headers q = Some h \<and>
    d = h @ (case p_payload q of None \<Rightarrow> [] | Some b \<Rightarrow> b) \<and>
    length h = ipv4_ihl d + tcp_doff d \<and>
    p_type q = (if length h < length d then PACKET_IPV4_TCP_DATA else PACKET_IPV4_TCP) \<and>
    p_ttl q = d ! 8 \<and>
    p_src_port q = be16 (d ! ipv4_ihl d) (d ! (ipv4_ihl d + 1)) \<and>
    p_dst_port q = be16 (d ! (ipv4_ihl d + 2)) (d ! (ipv4_ihl d + 3)) \<and>
    ntohl (ip0 (p_src_ip q)) = be32 (d ! 12) (d ! 13) (d ! 14) (d ! 15) \<and>
    ntohl (ip0 (p_dst_ip q)) = be32 (d ! 16) (d ! 17) (d ! 18) (d ! 19) \<and>
    packet_wf q"
  by (rule packet_parse_tcp_result [OF assms])

theorem packet_parse_tcp_cuts_witness:
  "\<exists>q h. packet_parse (\<lambda>k n. unat n < 2 ^ 63) (Some (tcp_sample 0x50 @ [0x47, 0x45, 0x54]))
      (of_nat (length (tcp_sample 0x50 @ [0x47, 0x45, 0x54]))) (Some packet_zero) = Inr (0, Some q) \<and>
    p_headers q = Some h \<and> length h = 40 \<and>
    tcp_sample 0x50 @ [0x47, 0x45, 0x54] = h @ (case p_payload q of None \<Rightarrow> [] | Some b \<Rightarrow> b)"
proof -
  let ?d = "tcp_sample 0x50 @ [0x47, 0x45, 0x54] :: bytes"
  have d: "is_ipv4 ?d IPPROTO_TCP" "tcp_fits ?d" "ipv4_ihl ?d + tcp_doff ?d = 40"
    by (simp_all add: is_ipv4_def tcp_sample_def IPPROTO_TCP_def drop_bit_eq_div
        tcp_fits_def ipv4_ihl_def tcp_doff_def)
  show ?thesis
    using packet_parse_tcp_cuts [OF d(1,2), of "\<lambda>k n. unat n < 2 ^ 63" packet_zero] d(3)
    unfolding malloc_ample_def by metis
qed

section \<open>Properties: classification, copy, TTL\<close>

lemma any_prefix_long:
  "\<forall>s\<in>set ss. length s \<le> length p \<Longrightarrow> any_prefix p ss = Inr (\<exists>s\<in>set ss. take (length s) p = s)"
  by (induction ss) (auto simp: prefix_at_long)

lemma http_methods_length: "m \<in> set http_methods \<Longrightarrow> length m \<le> 6"
  by (auto simp: http_methods_def)

text \<open>The payloads on which a method comparison runs past the end: proper prefixes, of at least
  three bytes, of a method name longer than the payload.\<close>

definition cut_method :: "bytes \<Rightarrow> bool" where
  "cut_method b \<longleftrightarrow> b \<in> {lit ''POS'', lit ''HEA'', lit ''DEL'', lit ''DELE'', lit ''DELET''}"

lemma any_prefix_http_cut:
  assumes "3 \<le> length b" and "length b < 6"
  shows "any_prefix b http_methods =
    (if cut_method b then Inl OutOfBounds else Inr (\<exists>m\<in>set http_methods. take (length m) b = m))"
proof -
  consider x y z where "b = [x, y, z]" | x y z u where "b = [x, y, z, u]"
    | x y z u v where "b = [x, y, z, u, v]"
    using assms
    by (auto simp: less_Suc_eq_le le_Suc_eq numeral_eq_Suc length_Suc_conv)
  then show ?thesis
    by cases (auto simp: http_methods_def cut_method_def lit_def of_char_def)
qed

lemma packet_is_http_eq:
  assumes "packet_wf p" and "p_payload p = Some b"
  shows "packet_is_http (Some p) =
    (if packet_is_tcp (Some p) \<and> p_dst_port p = 80 \<and> 3 \<le> length b
     then (if cut_method b then Inl OutOfBounds
           else Inr (\<exists>m\<in>set http_methods. take (length m) b = m))
     else Inr False)"
proof -
  have l: "3 \<le> p_payload_len p \<longleftrightarrow> 3 \<le> length b"
    using assms by (simp add: packet_wf_def word_le_nat_alt)
  have c: "\<not> cut_method b" if "6 \<le> length b"
    using that by (auto simp: cut_method_def)
  show ?thesis
  proof (cases "6 \<le> length b")
    case True
    then have "any_prefix b http_methods = Inr (\<exists>m\<in>set http_methods. take (length m) b = m)"
      by (intro any_prefix_long) (auto dest!: http_methods_length)
    with True l c assms(2) show ?thesis by (simp add: packet_is_http_def)
  next
    case False
    with any_prefix_http_cut [of b] l assms(2) show ?thesis by (auto simp: packet_is_http_def)
  qed
qed

text \<open>
  \<open>packet_is_http\<close> recognises exactly the TCP packets to port 80 whose payload starts with one
  of the five methods, and it reads past the payload exactly when the payload is a cut method name
  (\<open>POS\<close>, \<open>HEA\<close>, \<open>DEL\<close>, \<open>DELE\<close>, \<open>DELET\<close>), which its \<open>payload_len >= 3\<close> test lets through.
\<close>

theorem packet_is_http_correct:
  assumes "packet_wf p" and "p_payload p = Some b"
  shows "(packet_is_http (Some p) = Inr True \<longleftrightarrow>
       packet_is_tcp (Some p) \<and> p_dst_port p = 80 \<and> (\<exists>m\<in>set http_methods. take (length m) b = m)) \<and>
     (packet_is_http (Some p) = Inl OutOfBounds \<longleftrightarrow>
       packet_is_tcp (Some p) \<and> p_dst_port p = 80 \<and> cut_method b)"
proof -
  have m: "3 \<le> length b \<and> \<not> cut_method b" if "\<exists>m\<in>set http_methods. take (length m) b = m"
    using that
    by (auto simp: http_methods_def cut_method_def lit_def of_char_def dest: arg_cong [where f = length])
  have c: "3 \<le> length b" if "cut_method b"
    using that by (auto simp: cut_method_def)
  from packet_is_http_eq [OF assms] m c show ?thesis by auto
qed

text \<open>A packet with the given payload, sent to the given port.\<close>

definition sample_packet :: "bytes \<Rightarrow> u16 \<Rightarrow> packet_t" where
  "sample_packet b port =
     packet_zero\<lparr>p_type := PACKET_IPV4_TCP_DATA, p_dst_port := port,
                 p_payload := Some b, p_payload_len := of_nat (length b)\<rparr>"

theorem packet_is_http_correct_witness:
  "packet_is_http (Some (sample_packet (lit ''GET / '') 80)) = Inr True \<and>
   packet_is_http (Some (sample_packet (lit ''POS'') 80)) = Inl OutOfBounds"
proof -
  have w: "packet_wf (sample_packet (lit ''GET / '') 80)" "packet_wf (sample_packet (lit ''POS'') 80)"
    by (simp_all add: packet_wf_def sample_packet_def packet_zero_def)
  have "p_payload (sample_packet b 80) = Some b" "p_dst_port (sample_packet b 80) = 80"
    "packet_is_tcp (Some (sample_packet b 80))" for b
    by (simp_all add: sample_packet_def packet_is_tcp_def)
  then show ?thesis
    using packet_is_http_correct [OF w(1)] packet_is_http_correct [OF w(2)]
    by (auto simp: cut_method_def http_methods_def lit_def of_char_def)
qed

lemma copy_block_exact:
  assumes "malloc_ample malloc" and "block_wf blk n" and "blk \<noteq> Some []" and "unat n < 2 ^ 63"
  shows "copy_block malloc k blk n = Inr (blk, if blk = None then 0 else n)"
proof (cases blk)
  case (Some b)
  with assms have "0 < n" by (cases b) (auto simp: word_less_nat_alt)
  moreover have "malloc_copy malloc k b 0 n = Inr (Some b)"
    using assms Some by (subst malloc_copy_fits) (auto simp: malloc_ample_def)
  ultimately show ?thesis using Some by (simp add: copy_block_def)
qed (simp add: copy_block_def)

text \<open>
  C35. \<open>packet_copy\<close> makes an exact copy: for a well-formed packet with non-empty blocks the
  destination is equal to the source in every field, whatever it held before (and the blocks are
  fresh, being values of the model).  Only the length fields of absent blocks are reset to zero.
\<close>

theorem packet_copy_exact:
  assumes "packet_wf s" and "malloc_ample malloc"
    and "Some [] \<notin> {p_payload s, p_headers s, p_raw_packet s}"
    and "unat (p_payload_len s) < 2 ^ 63" and "unat (p_headers_len s) < 2 ^ 63"
    and "unat (p_raw_packet_len s) < 2 ^ 63"
  shows "packet_copy malloc (Some s) (Some d) =
    Inr (0, Some (s\<lparr>p_headers_len := (if p_headers s = None then 0 else p_headers_len s),
                    p_raw_packet_len := (if p_raw_packet s = None then 0 else p_raw_packet_len s)\<rparr>))"
proof -
  have c: "copy_block malloc 0 (p_payload s) (p_payload_len s) = Inr (p_payload s, p_payload_len s)"
    "copy_block malloc 1 (p_headers s) (p_headers_len s) =
       Inr (p_headers s, if p_headers s = None then 0 else p_headers_len s)"
    "copy_block malloc 2 (p_raw_packet s) (p_raw_packet_len s) =
       Inr (p_raw_packet s, if p_raw_packet s = None then 0 else p_raw_packet_len s)"
    using assms by (auto simp: copy_block_exact packet_wf_def)
  show ?thesis
    unfolding packet_copy_def by (simp add: c packet_zero_def del: One_nat_def)
qed

theorem packet_copy_exact_witness:
  "packet_copy (\<lambda>k n. unat n < 2 ^ 63) (Some (sample_packet (lit ''GET'') 80)) (Some packet_zero) =
     Inr (0, Some (sample_packet (lit ''GET'') 80))"
proof -
  have "packet_wf (sample_packet (lit ''GET'') 80)"
    by (simp add: packet_wf_def sample_packet_def packet_zero_def)
  moreover have "malloc_ample (\<lambda>k n. unat n < 2 ^ 63)" by (simp add: malloc_ample_def)
  ultimately show ?thesis
    using packet_copy_exact [of "sample_packet (lit ''GET'') 80" "\<lambda>k n. unat n < 2 ^ 63" packet_zero]
    by (simp add: sample_packet_def packet_zero_def lit_def)
qed

lemma packet_set_ttl_tcp:
  "p_type p = PACKET_IPV4_TCP \<Longrightarrow> p_raw_packet p = Some raw \<Longrightarrow> 9 \<le> length raw \<Longrightarrow>
   packet_set_ttl (Some p) t = Inr (0, Some (p\<lparr>p_ttl := t, p_raw_packet := Some (raw[8 := t])\<rparr>))"
  by (simp add: packet_set_ttl_def wr_Inr Let_def)

text \<open>A data segment keeps its TTL on the wire: only the field of the structure changes.\<close>

lemma packet_set_ttl_data:
  "p_type p = PACKET_IPV4_TCP_DATA \<Longrightarrow> p_raw_packet p = Some raw \<Longrightarrow>
   packet_set_ttl (Some p) t = Inr (-1, Some (p\<lparr>p_ttl := t\<rparr>))"
  by (simp add: packet_set_ttl_def Let_def)

end
