(* ===== verification/StringUtils.thy ===== *)
theory StringUtils
  imports CStrings
begin

text \<open>
  \<open>src/utils/string_utils.c\<close>: the in-place case conversions, the whitespace and affix tests
  and the case-insensitive search.  A \<open>char *\<close> argument is \<open>None\<close> for a null pointer and
  otherwise the bytes from the pointer to the end of its object; functions that write the
  string return the new contents of the object.
\<close>

section \<open>Case conversion in place\<close>

fun string_to_lower_loop :: "bytes \<Rightarrow> bytes cres" where
  "string_to_lower_loop [] = Inl OutOfBounds"
| "string_to_lower_loop (c # cs) =
     (if c = 0 then Inr (c # cs)
      else bindC (string_to_lower_loop cs) (\<lambda>r. Inr (tolower c # r)))"

definition string_to_lower :: "bytes option \<Rightarrow> bytes option cres" where
  "string_to_lower str =
     (case str of None \<Rightarrow> Inr None
      | Some s \<Rightarrow> bindC (string_to_lower_loop s) (\<lambda>r. Inr (Some r)))"

fun string_to_upper_loop :: "bytes \<Rightarrow> bytes cres" where
  "string_to_upper_loop [] = Inl OutOfBounds"
| "string_to_upper_loop (c # cs) =
     (if c = 0 then Inr (c # cs)
      else bindC (string_to_upper_loop cs) (\<lambda>r. Inr (toupper c # r)))"

definition string_to_upper :: "bytes option \<Rightarrow> bytes option cres" where
  "string_to_upper str =
     (case str of None \<Rightarrow> Inr None
      | Some s \<Rightarrow> bindC (string_to_upper_loop s) (\<lambda>r. Inr (Some r)))"

text \<open>The loop of \<open>mix_case\<close> at index \<open>i\<close>: the test \<open>i < len\<close> comes before the read.\<close>

fun mix_case_loop :: "nat \<Rightarrow> nat \<Rightarrow> bytes \<Rightarrow> bytes cres" where
  "mix_case_loop i len [] = (if i < len then Inl OutOfBounds else Inr [])"
| "mix_case_loop i len (c # cs) =
     (if i < len \<and> c \<noteq> 0
      then bindC (mix_case_loop (i + 1) len cs)
             (\<lambda>r. Inr ((if i mod 2 = 0 then tolower c else toupper c) # r))
      else Inr (c # cs))"

definition mix_case :: "bytes option \<Rightarrow> nat \<Rightarrow> bytes option cres" where
  "mix_case str len =
     (case str of None \<Rightarrow> Inr None
      | Some s \<Rightarrow> if len = 0 then Inr (Some s)
                 else bindC (mix_case_loop 0 len s) (\<lambda>r. Inr (Some r)))"

text \<open>\<open>rnd i\<close> is the parity of the value \<open>rand ()\<close> returns in the \<open>i\<close>-th iteration.\<close>

fun mix_case_random_loop :: "(nat \<Rightarrow> bool) \<Rightarrow> nat \<Rightarrow> nat \<Rightarrow> bytes \<Rightarrow> bytes cres" where
  "mix_case_random_loop rnd i len [] = (if i < len then Inl OutOfBounds else Inr [])"
| "mix_case_random_loop rnd i len (c # cs) =
     (if i < len \<and> c \<noteq> 0
      then bindC (mix_case_random_loop rnd (i + 1) len cs)
             (\<lambda>r. Inr ((if rnd i then toupper c else tolower c) # r))
      else Inr (c # cs))"

definition mix_case_random :: "(nat \<Rightarrow> bool) \<Rightarrow> bytes option \<Rightarrow> nat \<Rightarrow> bytes option cres" where
  "mix_case_random rnd str len =
     (case str of None \<Rightarrow> Inr None
      | Some s \<Rightarrow> if len = 0 then Inr (Some s)
                 else bindC (mix_case_random_loop rnd 0 len s) (\<lambda>r. Inr (Some r)))"

section \<open>Whitespace\<close>

fun is_whitespace_loop :: "bytes \<Rightarrow> bool cres" where
  "is_whitespace_loop [] = Inl OutOfBounds"
| "is_whitespace_loop (c # cs) =
     (if c = 0 then Inr True else if \<not> isspace c then Inr False else is_whitespace_loop cs)"

definition is_whitespace :: "bytes option \<Rightarrow> bool cres" where
  "is_whitespace str = (case str of None \<Rightarrow> Inr True | Some s \<Rightarrow> is_whitespace_loop s)"

text \<open>\<open>trim_left\<close> returns the pointer to the first character that is not white space.\<close>

fun trim_left_loop :: "bytes \<Rightarrow> bytes cres" where
  "trim_left_loop [] = Inl OutOfBounds"
| "trim_left_loop (c # cs) = (if isspace c then trim_left_loop cs else Inr (c # cs))"

definition trim_left :: "bytes option \<Rightarrow> bytes option cres" where
  "trim_left str =
     (case str of None \<Rightarrow> Inr None
      | Some s \<Rightarrow> bindC (trim_left_loop s) (\<lambda>r. Inr (Some r)))"

text \<open>\<open>trim_right_loop b n\<close>: the pointer \<open>end\<close> is \<open>str + n - 1\<close>, so \<open>n = 0\<close> is \<open>end < str\<close>.\<close>

fun trim_right_loop :: "bytes \<Rightarrow> nat \<Rightarrow> bytes cres" where
  "trim_right_loop b 0 = Inr b"
| "trim_right_loop b (Suc n) =
     bindC (rd b n) (\<lambda>c. if isspace c then trim_right_loop (b[n := 0]) n else Inr b)"

definition trim_right :: "bytes option \<Rightarrow> bytes option cres" where
  "trim_right str =
     (case str of None \<Rightarrow> Inr None
      | Some s \<Rightarrow> bindC (strlen s) (\<lambda>n. bindC (trim_right_loop s n) (\<lambda>r. Inr (Some r))))"

definition trim :: "bytes option \<Rightarrow> bytes option cres" where
  "trim str = (case str of None \<Rightarrow> Inr None | Some s \<Rightarrow> bindC (trim_right (Some s)) trim_left)"

section \<open>Copying, prefixes, suffixes\<close>

definition safe_string_copy :: "bytes option \<Rightarrow> bytes option \<Rightarrow> nat \<Rightarrow> bytes option cres" where
  "safe_string_copy dest src dest_size =
     (case (dest, src) of
        (Some d, Some s) \<Rightarrow>
          if dest_size = 0 then Inr (Some d)
          else bindC (strncpy d s (dest_size - 1)) (\<lambda>d1.
               bindC (wr d1 (dest_size - 1) 0) (\<lambda>d2. Inr (Some d2)))
      | _ \<Rightarrow> Inr dest)"

text \<open>\<open>strcmp_eq p s\<close> is \<open>strcmp (p, s) == 0\<close> for a string with contents \<open>s\<close>.\<close>

fun strcmp_eq :: "bytes \<Rightarrow> bytes \<Rightarrow> bool cres" where
  "strcmp_eq [] s = Inl OutOfBounds"
| "strcmp_eq (c # cs) [] = Inr (c = 0)"
| "strcmp_eq (c # cs) (n # ns) = (if c = n then strcmp_eq cs ns else Inr False)"

definition ends_with :: "bytes option \<Rightarrow> bytes option \<Rightarrow> bool cres" where
  "ends_with str suffix =
     (case (str, suffix) of
        (Some p, Some q) \<Rightarrow>
          bindC (strlen p) (\<lambda>str_len. bindC (strlen q) (\<lambda>suffix_len.
            if suffix_len > str_len then Inr False
            else strcmp_eq (drop (str_len - suffix_len) p) (take suffix_len q)))
      | _ \<Rightarrow> Inr False)"

definition starts_with :: "bytes option \<Rightarrow> bytes option \<Rightarrow> bool cres" where
  "starts_with str prefix =
     (case (str, prefix) of
        (Some p, Some q) \<Rightarrow>
          bindC (strlen q) (\<lambda>prefix_len. bindC (strlen p) (\<lambda>str_len.
            if prefix_len > str_len then Inr False
            else prefix_at p (take prefix_len q)))
      | _ \<Rightarrow> Inr False)"

section \<open>Case-insensitive search\<close>

text \<open>The inner loop of \<open>stristr\<close>.  It reads \<open>*h\<close> before it looks whether the needle is used
  up, so a match that ends at the last byte of the object reads one byte past it.\<close>

fun stristr_match :: "bytes \<Rightarrow> bytes \<Rightarrow> bool cres" where
  "stristr_match [] n = Inl OutOfBounds"
| "stristr_match (h # hs) [] = Inr True"
| "stristr_match (h # hs) (n # ns) =
     (if h \<noteq> 0 \<and> tolower h = tolower n then stristr_match hs ns else Inr False)"

fun stristr_loop :: "bytes \<Rightarrow> bytes \<Rightarrow> nat option cres" where
  "stristr_loop [] n = Inl OutOfBounds"
| "stristr_loop (h # hs) n =
     (if h = 0 then Inr None
      else bindC (if tolower h = tolower (hd n) then stristr_match (h # hs) n else Inr False)
             (\<lambda>m. if m then Inr (Some 0)
                  else bindC (stristr_loop hs n) (\<lambda>r. Inr (map_option Suc r))))"

text \<open>\<open>stristr\<close>: the offset of the match in the haystack.  The needle is a string literal at
  every call of the sources and is given by its contents.\<close>

definition stristr :: "bytes option \<Rightarrow> bytes option \<Rightarrow> nat option cres" where
  "stristr haystack needle =
     (case (haystack, needle) of
        (Some p, Some n) \<Rightarrow> if n = [] then Inr (Some 0) else stristr_loop p n
      | _ \<Rightarrow> Inr None)"

text \<open>\<open>string_count_occurrences\<close>: the pointer moves past each match.\<close>

function count_loop :: "bytes \<Rightarrow> bytes \<Rightarrow> nat cres" where
  "count_loop p f =
     (if f = [] then Inr 0
      else bindC (strstr p f) (\<lambda>r. case r of
             None \<Rightarrow> Inr 0
           | Some k \<Rightarrow> bindC (count_loop (drop (k + length f) p) f) (\<lambda>n. Inr (Suc n))))"
  by pat_completeness auto
termination
proof (relation "measure (\<lambda>(p, f). length p)")
  fix p f :: bytes and x k
  assume "f \<noteq> []" "strstr p f = Inr x" "x = Some k"
  then show "((drop (k + length f) p, f), (p, f)) \<in> measure (\<lambda>(p, f). length p)"
    using strstr_Some [of p f k] by (cases p) auto
qed simp

declare count_loop.simps [simp del]

definition string_count_occurrences :: "bytes option \<Rightarrow> bytes option \<Rightarrow> nat cres" where
  "string_count_occurrences str fnd =
     (case (str, fnd) of
        (Some p, Some f) \<Rightarrow> if f = [] then Inr 0 else count_loop p f
      | _ \<Rightarrow> Inr 0)"

section \<open>Lemmas: case conversion\<close>

lemma string_to_lower_loop_terminated:
  "terminated s \<Longrightarrow>
   string_to_lower_loop s = Inr (map tolower (cstring s) @ drop (length (cstring s)) s)"
  by (induction s) (auto simp: cstring_def)

lemma string_to_upper_loop_terminated:
  "terminated s \<Longrightarrow>
   string_to_upper_loop s = Inr (map toupper (cstring s) @ drop (length (cstring s)) s)"
  by (induction s) (auto simp: cstring_def)

definition mix_char :: "nat \<Rightarrow> u8 \<Rightarrow> u8" where
  "mix_char i c = (if i mod 2 = 0 then tolower c else toupper c)"

lemma tolower_mix_char [simp]: "tolower (mix_char i c) = tolower c"
  by (simp add: mix_char_def)

lemma mix_char_mix_char [simp]: "mix_char i (mix_char i c) = mix_char i c"
  by (auto simp: mix_char_def tolower_def toupper_def char_arith)

lemma mix_char_eq_0 [simp]: "mix_char i c = 0 \<longleftrightarrow> c = 0"
  by (simp add: mix_char_def)

text \<open>The loop touches exactly the first \<open>len\<close> bytes, when no NUL is among them.\<close>

lemma mix_case_loop_exact:
  assumes "length v = len - i" and "0 \<notin> set v"
  shows "mix_case_loop i len (v @ q) = Inr (map2 mix_char [i..<len] v @ q)"
  using assms
proof (induction v arbitrary: i)
  case Nil
  then show ?case by (cases q) auto
next
  case (Cons c v)
  then have "i < len" by simp
  moreover from Cons have "mix_case_loop (Suc i) len (v @ q) = Inr (map2 mix_char [Suc i..<len] v @ q)"
    by simp
  ultimately show ?case
    using Cons.prems by (simp add: upt_conv_Cons mix_char_def)
qed

lemma mix_case_loop_safe:
  "len - i \<le> length s \<Longrightarrow> \<exists>r. mix_case_loop i len s = Inr r \<and> length r = length s"
proof (induction s arbitrary: i)
  case (Cons c s)
  then have "len - (i + 1) \<le> length s" by simp
  with Cons.IH show ?case by fastforce
qed simp

lemma mix_case_loop_lower:
  "mix_case_loop i len s = Inr r \<Longrightarrow> map tolower r = map tolower s"
  by (induction i len s arbitrary: r rule: mix_case_loop.induct)
    (auto simp: bindC_eq_Inr split: if_splits)

lemma mix_case_loop_idem:
  "mix_case_loop i len s = Inr r \<Longrightarrow> mix_case_loop i len r = Inr r"
  by (induction i len s arbitrary: r rule: mix_case_loop.induct)
    (auto simp: bindC_eq_Inr split: if_splits)

section \<open>Lemmas: trimming\<close>

lemma trim_left_loop_terminated:
  "terminated s \<Longrightarrow> trim_left_loop s = Inr (dropWhile isspace s)"
  by (induction s) (auto simp: isspace_def)

text \<open>\<open>rstrip w\<close> is \<open>w\<close> without its trailing white space.\<close>

definition rstrip :: "bytes \<Rightarrow> bytes" where
  "rstrip w = rev (dropWhile isspace (rev w))"

lemma trim_right_loop_rstrip:
  "trim_right_loop (w @ q) (length w) =
     Inr (rstrip w @ replicate (length w - length (rstrip w)) 0 @ q)"
proof (induction w arbitrary: q rule: rev_induct)
  case Nil
  then show ?case by (simp add: rstrip_def)
next
  case (snoc c w)
  show ?case
  proof (cases "isspace c")
    case True
    then have r: "rstrip (w @ [c]) = rstrip w" by (simp add: rstrip_def)
    have "length (rstrip w) \<le> length w"
      unfolding rstrip_def by (metis length_dropWhile_le length_rev)
    then have "replicate (length w - length (rstrip w)) 0 @ [0] =
        replicate (Suc (length w) - length (rstrip w)) (0::u8)"
      by (simp add: Suc_diff_le replicate_append_same)
    with True r snoc.IH [of "0 # q"] show ?thesis
      by (simp add: rd_def nth_append list_update_append)
  next
    case False
    then show ?thesis by (simp add: rstrip_def rd_def nth_append)
  qed
qed

section \<open>Lemmas: searching\<close>

lemma stristr_match_lower:
  "terminated h \<Longrightarrow> 0 \<notin> set n \<Longrightarrow>
   stristr_match h n = Inr (take (length n) (map tolower h) = map tolower n)"
proof (induction h n rule: stristr_match.induct)
  case (3 h hs n ns)
  then have "n \<noteq> 0" by auto
  with "3" show ?case by (cases "h = 0") auto
qed auto

lemma prefix_at_lower:
  "terminated h \<Longrightarrow> 0 \<notin> set n \<Longrightarrow>
   prefix_at (map tolower h) (map tolower n) = Inr (take (length n) (map tolower h) = map tolower n)"
  by (subst prefix_at_terminated) (auto simp: terminated_def image_iff)

text \<open>On terminated strings \<open>stristr\<close> is \<open>strstr\<close> of the lower-cased strings.\<close>

lemma stristr_loop_strstr:
  assumes "terminated p" and "0 \<notin> set n" and "n \<noteq> []"
  shows "stristr_loop p n = strstr (map tolower p) (map tolower n)"
  using assms(1)
proof (induction p)
  case (Cons h hs)
  obtain m ms where n: "n = m # ms" using assms(3) by (cases n) auto
  have m: "stristr_match (h # hs) n = Inr (take (length n) (map tolower (h # hs)) = map tolower n)"
    using Cons.prems assms(2) by (rule stristr_match_lower)
  have p: "prefix_at (map tolower (h # hs)) (map tolower n) =
      Inr (take (length n) (map tolower (h # hs)) = map tolower n)"
    using Cons.prems assms(2) by (rule prefix_at_lower)
  show ?case
  proof (cases "h = 0")
    case True
    then show ?thesis using p n assms(2) by auto
  next
    case False
    then have IH: "stristr_loop hs n = strstr (map tolower hs) (map tolower n)"
      using Cons by simp
    show ?thesis using False m p IH n by auto
  qed
qed simp

text \<open>Without a terminating NUL the search is still safe as long as the match comes first.\<close>

lemma stristr_match_found:
  "map tolower v = map tolower n \<Longrightarrow> 0 \<notin> set v \<Longrightarrow> q \<noteq> [] \<Longrightarrow> stristr_match (v @ q) n = Inr True"
proof (induction v arbitrary: n)
  case Nil
  then show ?case by (cases q) auto
next
  case (Cons c v)
  then show ?case by (cases n) auto
qed

lemma stristr_match_cases:
  "stristr_match h n = Inl e \<Longrightarrow> length h \<le> length n \<and> map tolower h = take (length h) (map tolower n)"
  by (induction h n rule: stristr_match.induct) (auto split: if_splits)

lemma stristr_loop_Some:
  "stristr_loop p n = Inr (Some k) \<Longrightarrow>
     k + length n < length p \<and> map tolower (take (length n) (drop k p)) = map tolower n \<and>
     (\<forall>i<k. p ! i \<noteq> 0)"
proof (induction p arbitrary: k)
  case (Cons h hs)
  have M: "length n < length q \<and> map tolower (take (length n) q) = map tolower n"
    if "stristr_match q n = Inr True" for q
    using that by (induction q n rule: stristr_match.induct) (auto split: if_splits)
  show ?case
  proof (cases "stristr_match (h # hs) n = Inr True \<and> tolower h = tolower (hd n)")
    case True
    with Cons.prems M [of "h # hs"] show ?thesis by (auto split: if_splits)
  next
    case False
    with Cons.prems obtain k' where "h \<noteq> 0" "stristr_loop hs n = Inr (Some k')" "k = Suc k'"
      by (auto simp: bindC_eq_Inr split: if_splits)
    with Cons.IH [of k'] show ?thesis by (auto simp: nth_Cons split: nat.splits)
  qed
qed simp

end
