(* ===== verification/Config.thy ===== *)
theory Config
  imports Prelude
begin

text \<open>
  \<open>src/core/config.c\<close>, \<open>src/include/config.h\<close> and the command line part of \<open>src/main.c\<close>: the
  configuration record, the configuration file, validation, the legacy modes and the option
  loop.  A \<open>char[n]\<close> field that the code keeps NUL terminated is the string it holds; \<open>strncpy\<close>
  into it keeps the first \<open>n - 1\<close> characters.
\<close>

section \<open>The configuration record\<close>

record goodbyedpi_config_t =
  cfg_http_fragment_size :: u32
  cfg_https_fragment_size :: u32
  cfg_native_fragmentation :: bool
  cfg_reverse_fragmentation :: bool
  cfg_fragment_http_persistent :: bool
  cfg_fragment_http_persistent_nowait :: bool
  cfg_host_mixedcase :: bool
  cfg_additional_space :: bool
  cfg_host_removespace :: bool
  cfg_wrong_checksum :: bool
  cfg_wrong_sequence :: bool
  cfg_auto_ttl :: bool
  cfg_fake_packet :: bool
  cfg_ttl_of_fake_packet :: u8
  cfg_ttl_min_nhops :: u8
  cfg_auto_ttl_1 :: u8
  cfg_auto_ttl_2 :: u8
  cfg_auto_ttl_max :: u8
  cfg_host_uppercase :: bool
  cfg_host_lowercase_mixed :: bool
  cfg_enable_blacklist :: bool
  cfg_enable_whitelist :: bool
  cfg_blacklist_file :: string
  cfg_whitelist_file :: string
  cfg_allow_no_sni :: bool
  cfg_fragment_by_sni :: bool
  cfg_dns_redirect_ipv4 :: bool
  cfg_dns_redirect_ipv6 :: bool
  cfg_dns_server_v4 :: string
  cfg_dns_server_v6 :: string
  cfg_dns_port_v4 :: u16
  cfg_dns_port_v6 :: u16
  cfg_daemon_mode :: bool
  cfg_systemd_mode :: bool
  cfg_debug_mode :: bool
  cfg_verbose_mode :: bool
  cfg_block_quic :: bool
  cfg_max_payload_size :: u32
  cfg_pid_file :: string
  cfg_log_file :: string
  cfg_interface :: string
  cfg_additional_ports :: "u32 list"
  cfg_additional_ports_count :: size_t
  cfg_ip_ids :: "u16 list"
  cfg_nfqueue_num :: u16
  cfg_ip_ids_count :: size_t

text \<open>\<open>strncpy (dst, src, sizeof (dst) - 1)\<close> into a field of \<open>n\<close> characters.\<close>

definition field_copy :: "nat \<Rightarrow> string \<Rightarrow> string" where
  "field_copy n s = take (n - 1) s"

definition config_zero :: goodbyedpi_config_t where
  "config_zero =
     \<lparr>cfg_http_fragment_size = 0, cfg_https_fragment_size = 0, cfg_native_fragmentation = False,
      cfg_reverse_fragmentation = False, cfg_fragment_http_persistent = False,
      cfg_fragment_http_persistent_nowait = False, cfg_host_mixedcase = False,
      cfg_additional_space = False, cfg_host_removespace = False, cfg_wrong_checksum = False,
      cfg_wrong_sequence = False, cfg_auto_ttl = False, cfg_fake_packet = False,
      cfg_ttl_of_fake_packet = 0, cfg_ttl_min_nhops = 0, cfg_auto_ttl_1 = 0, cfg_auto_ttl_2 = 0,
      cfg_auto_ttl_max = 0, cfg_host_uppercase = False, cfg_host_lowercase_mixed = False,
      cfg_enable_blacklist = False, cfg_enable_whitelist = False, cfg_blacklist_file = [],
      cfg_whitelist_file = [], cfg_allow_no_sni = False, cfg_fragment_by_sni = False,
      cfg_dns_redirect_ipv4 = False, cfg_dns_redirect_ipv6 = False, cfg_dns_server_v4 = [],
      cfg_dns_server_v6 = [], cfg_dns_port_v4 = 0, cfg_dns_port_v6 = 0, cfg_daemon_mode = False,
      cfg_systemd_mode = False, cfg_debug_mode = False, cfg_verbose_mode = False,
      cfg_block_quic = False, cfg_max_payload_size = 0, cfg_pid_file = [], cfg_log_file = [],
      cfg_interface = [], cfg_additional_ports = replicate 16 0, cfg_additional_ports_count = 0,
      cfg_ip_ids = replicate 32 0, cfg_nfqueue_num = 0, cfg_ip_ids_count = 0\<rparr>"

definition config_defaults :: goodbyedpi_config_t where
  "config_defaults = config_zero
     \<lparr>cfg_http_fragment_size := 2, cfg_https_fragment_size := 2,
      cfg_native_fragmentation := True,
      cfg_ttl_of_fake_packet := 64, cfg_ttl_min_nhops := 3,
      cfg_auto_ttl_1 := 1, cfg_auto_ttl_2 := 4, cfg_auto_ttl_max := 10,
      cfg_dns_server_v4 := field_copy 46 ''1.1.1.1'',
      cfg_dns_server_v6 := field_copy 46 ''2606:4700:4700::4700'',
      cfg_dns_port_v4 := 53, cfg_dns_port_v6 := 53,
      cfg_max_payload_size := 1200,
      cfg_pid_file := field_copy 256 ''/run/goodbyedpi.pid'',
      cfg_log_file := field_copy 256 ''/var/log/goodbyedpi.log''\<rparr>"

definition config_init :: "goodbyedpi_config_t option \<Rightarrow> int \<times> goodbyedpi_config_t option" where
  "config_init cfg = (case cfg of None \<Rightarrow> (-1, None) | Some c \<Rightarrow> (0, Some config_defaults))"

section \<open>Numbers in text\<close>

definition is_digit :: "char \<Rightarrow> bool" where
  "is_digit c \<longleftrightarrow> of_char c \<in> {48..(57 :: nat)}"

definition is_space_char :: "char \<Rightarrow> bool" where
  "is_space_char c \<longleftrightarrow> of_char c = (32 :: nat) \<or> of_char c \<in> {9..(13 :: nat)}"

definition digits_value :: "string \<Rightarrow> int" where
  "digits_value ds = foldl (\<lambda>a c. 10 * a + (of_char c - 48)) 0 ds"

text \<open>\<open>strtol (s, &end, 10)\<close>: the value clamped to \<open>long\<close>, the text at \<open>end\<close>, and whether \<open>errno\<close>
  was set to \<open>ERANGE\<close>.  Without digits the value is 0 and \<open>end\<close> is \<open>s\<close>.\<close>

definition strtol :: "string \<Rightarrow> int \<times> string \<times> bool" where
  "strtol s =
     (let t = dropWhile is_space_char s;
          neg = (t \<noteq> [] \<and> hd t = CHR ''-'');
          u = (if t \<noteq> [] \<and> (hd t = CHR ''-'' \<or> hd t = CHR ''+'') then tl t else t);
          ds = takeWhile is_digit u;
          v = (if neg then - digits_value ds else digits_value ds)
      in if ds = [] then (0, s, False)
         else if v > 2 ^ 63 - 1 then (2 ^ 63 - 1, dropWhile is_digit u, True)
         else if v < - (2 ^ 63) then (- (2 ^ 63), dropWhile is_digit u, True)
         else (v, dropWhile is_digit u, False))"

text \<open>\<open>(unsigned int) atoi (s)\<close>: glibc converts with \<open>strtol\<close> and truncates to 32 bits.\<close>

definition atoi_uint :: "string \<Rightarrow> u32" where
  "atoi_uint s = word_of_int (fst (strtol s))"

section \<open>Configuration file lines\<close>

record config_line_t =
  cl_key :: string
  cl_value :: string

definition NL :: char where "NL = CHR 0x0A"
definition CR :: char where "CR = CHR 0x0D"
definition TAB :: char where "TAB = CHR 0x09"

definition strchr :: "string \<Rightarrow> char \<Rightarrow> nat option" where
  "strchr s c = (let n = length (takeWhile (\<lambda>x. x \<noteq> c) s) in if n < length s then Some n else None)"

definition blank :: "char \<Rightarrow> bool" where
  "blank c \<longleftrightarrow> c = CHR '' '' \<or> c = TAB"

definition tail_space :: "char \<Rightarrow> bool" where
  "tail_space c \<longleftrightarrow> c = CHR '' '' \<or> c = TAB \<or> c = NL \<or> c = CR"

text \<open>The loop that removes trailing white space: it runs while \<open>end > value\<close>, so it never
  removes the first character.  For an empty value the source forms the pointer \<open>value - 1\<close>, which is compared and
  not read.\<close>

function strip_end :: "string \<Rightarrow> string" where
  "strip_end v = (if 1 < length v \<and> tail_space (last v) then strip_end (butlast v) else v)"
  by pat_completeness auto
termination
  by (relation "measure length") auto

declare strip_end.simps [simp del]

definition config_parse_line :: "string option \<Rightarrow> config_line_t option \<Rightarrow> int \<times> config_line_t option" where
  "config_parse_line line config_line =
     (case (line, config_line) of
        (Some l, Some cl) \<Rightarrow>
          if l = [] \<or> hd l = CHR ''#'' \<or> hd l = NL then (1, config_line)
          else (case strchr l (CHR ''='') of
             None \<Rightarrow> (-1, config_line)
           | Some key_len \<Rightarrow>
               if 64 \<le> key_len then (-1, config_line)
               else let cl1 = cl\<lparr>cl_key := take key_len l\<rparr>;
                        value_start = dropWhile blank (drop (key_len + 1) l)
                    in if 256 \<le> length value_start then (-1, Some cl1)
                       else (0, Some (cl1\<lparr>cl_value := strip_end value_start\<rparr>)))
      | _ \<Rightarrow> (-1, config_line))"

section \<open>Setting a value\<close>

definition truthy :: "string \<Rightarrow> bool" where
  "truthy v \<longleftrightarrow> v = ''true'' \<or> v = ''1''"

definition config_set :: "goodbyedpi_config_t \<Rightarrow> string \<Rightarrow> string \<Rightarrow> int \<times> goodbyedpi_config_t" where
  "config_set cfg key v =
     (if key = ''http_fragment_size'' then (0, cfg\<lparr>cfg_http_fragment_size := atoi_uint v\<rparr>)
      else if key = ''https_fragment_size'' then (0, cfg\<lparr>cfg_https_fragment_size := atoi_uint v\<rparr>)
      else if key = ''native_fragmentation'' then (0, cfg\<lparr>cfg_native_fragmentation := truthy v\<rparr>)
      else if key = ''reverse_fragmentation'' then (0, cfg\<lparr>cfg_reverse_fragmentation := truthy v\<rparr>)
      else if key = ''host_mixedcase'' then (0, cfg\<lparr>cfg_host_mixedcase := truthy v\<rparr>)
      else if key = ''additional_space'' then (0, cfg\<lparr>cfg_additional_space := truthy v\<rparr>)
      else if key = ''host_removespace'' then (0, cfg\<lparr>cfg_host_removespace := truthy v\<rparr>)
      else if key = ''wrong_checksum'' then (0, cfg\<lparr>cfg_wrong_checksum := truthy v\<rparr>)
      else if key = ''wrong_sequence'' then (0, cfg\<lparr>cfg_wrong_sequence := truthy v\<rparr>)
      else if key = ''auto_ttl'' then (0, cfg\<lparr>cfg_auto_ttl := truthy v\<rparr>)
      else if key = ''fake_packet'' then (0, cfg\<lparr>cfg_fake_packet := truthy v\<rparr>)
      else if key = ''dns_server_v4'' then (0, cfg\<lparr>cfg_dns_server_v4 := field_copy 46 v\<rparr>)
      else if key = ''dns_server_v6'' then (0, cfg\<lparr>cfg_dns_server_v6 := field_copy 46 v\<rparr>)
      else if key = ''dns_redirect_ipv4'' then (0, cfg\<lparr>cfg_dns_redirect_ipv4 := truthy v\<rparr>)
      else if key = ''dns_redirect_ipv6'' then (0, cfg\<lparr>cfg_dns_redirect_ipv6 := truthy v\<rparr>)
      else if key = ''debug'' then (0, cfg\<lparr>cfg_debug_mode := truthy v\<rparr>)
      else if key = ''verbose'' then (0, cfg\<lparr>cfg_verbose_mode := truthy v\<rparr>)
      else if key = ''daemon'' then (0, cfg\<lparr>cfg_daemon_mode := truthy v\<rparr>)
      else (-1, cfg))"

definition config_set_value ::
  "goodbyedpi_config_t option \<Rightarrow> string option \<Rightarrow> string option \<Rightarrow> int \<times> goodbyedpi_config_t option" where
  "config_set_value cfg key v =
     (case (cfg, key, v) of
        (Some c, Some k, Some x) \<Rightarrow> (let (rc, c') = config_set c k x in (rc, Some c'))
      | _ \<Rightarrow> (-1, cfg))"

section \<open>Loading a file\<close>

text \<open>\<open>fgets (line, 512, fp)\<close>: up to 511 characters, stopping after a newline.\<close>

definition fgets_chunk :: "string \<Rightarrow> string" where
  "fgets_chunk s = take 511 (take (length (takeWhile (\<lambda>c. c \<noteq> NL) s) + 1) s)"

lemma fgets_chunk_nonempty: "s \<noteq> [] \<Longrightarrow> fgets_chunk s \<noteq> []"
  by (cases s) (auto simp: fgets_chunk_def)

function fgets_lines :: "string \<Rightarrow> string list" where
  "fgets_lines s =
     (if s = [] then [] else fgets_chunk s # fgets_lines (drop (length (fgets_chunk s)) s))"
  by pat_completeness auto
termination
  by (relation "measure length") (auto simp: fgets_chunk_nonempty intro!: diff_less)

declare fgets_lines.simps [simp del]

text \<open>The buffer \<open>line\<close> as a C string.\<close>

definition c_str :: "string \<Rightarrow> string" where
  "c_str s = takeWhile (\<lambda>c. c \<noteq> CHR 0x00) s"

fun config_load_lines :: "string list \<Rightarrow> config_line_t \<Rightarrow> goodbyedpi_config_t \<Rightarrow> int \<times> goodbyedpi_config_t" where
  "config_load_lines [] cl cfg = (0, cfg)"
| "config_load_lines (l # ls) cl cfg =
     (case config_parse_line (Some (c_str l)) (Some cl) of
        (result, cl') \<Rightarrow>
          let cl1 = (case cl' of None \<Rightarrow> cl | Some x \<Rightarrow> x) in
          if result = 0 then config_load_lines ls cl1 (snd (config_set cfg (cl_key cl1) (cl_value cl1)))
          else if result < 0 then (-1, cfg)
          else config_load_lines ls cl1 cfg)"

text \<open>\<open>file\<close> is what \<open>fopen\<close> gives for the name: \<open>None\<close> when the file cannot be opened.
  \<open>cl0\<close> is the uninitialised \<open>config_line\<close>, which no path reads.\<close>

definition config_load_file ::
  "(string \<Rightarrow> string option) \<Rightarrow> config_line_t \<Rightarrow> string option \<Rightarrow> goodbyedpi_config_t option \<Rightarrow>
   int \<times> goodbyedpi_config_t option" where
  "config_load_file fs cl0 filename cfg =
     (case (filename, cfg) of
        (Some f, Some c) \<Rightarrow>
          (case fs f of None \<Rightarrow> (-1, cfg)
           | Some txt \<Rightarrow> (let (rc, c') = config_load_lines (fgets_lines txt) cl0 c in (rc, Some c')))
      | _ \<Rightarrow> (-1, cfg))"

section \<open>Validation and legacy modes\<close>

definition config_validate :: "goodbyedpi_config_t option \<Rightarrow> int" where
  "config_validate cfg =
     (case cfg of None \<Rightarrow> -1
      | Some c \<Rightarrow>
          if cfg_http_fragment_size c > 1500 then -1
          else if cfg_https_fragment_size c > 1500 then -1
          else if cfg_ttl_of_fake_packet c = 0 \<or> unat (cfg_ttl_of_fake_packet c) > 255 then -1
          else if cfg_dns_redirect_ipv4 c \<and> length (cfg_dns_server_v4 c) = 0 then -1
          else if cfg_dns_redirect_ipv6 c \<and> length (cfg_dns_server_v6 c) = 0 then -1
          else if cfg_dns_port_v4 c = 0 \<or> unat (cfg_dns_port_v4 c) > 65535 then -1
          else if cfg_dns_port_v6 c = 0 \<or> unat (cfg_dns_port_v6 c) > 65535 then -1
          else 0)"

definition config_apply_legacy_mode :: "int \<Rightarrow> goodbyedpi_config_t \<Rightarrow> int \<times> goodbyedpi_config_t" where
  "config_apply_legacy_mode mode cfg =
     (if mode = 1 then
        (0, cfg\<lparr>cfg_host_mixedcase := True, cfg_host_removespace := True,
                cfg_http_fragment_size := 2, cfg_https_fragment_size := 2,
                cfg_native_fragmentation := True, cfg_reverse_fragmentation := False,
                cfg_fragment_http_persistent := True, cfg_fragment_http_persistent_nowait := True\<rparr>)
      else if mode = 2 then
        (0, cfg\<lparr>cfg_host_mixedcase := True, cfg_host_removespace := True,
                cfg_http_fragment_size := 2, cfg_https_fragment_size := 40,
                cfg_native_fragmentation := True, cfg_reverse_fragmentation := False,
                cfg_fragment_http_persistent := True, cfg_fragment_http_persistent_nowait := True\<rparr>)
      else if mode = 5 then
        (0, cfg\<lparr>cfg_http_fragment_size := 2, cfg_https_fragment_size := 2,
                cfg_native_fragmentation := True, cfg_reverse_fragmentation := True,
                cfg_auto_ttl := True, cfg_fake_packet := True, cfg_max_payload_size := 1200\<rparr>)
      else if mode = 6 then
        (0, cfg\<lparr>cfg_http_fragment_size := 2, cfg_https_fragment_size := 2,
                cfg_native_fragmentation := True, cfg_reverse_fragmentation := True,
                cfg_wrong_sequence := True, cfg_fake_packet := True, cfg_max_payload_size := 1200\<rparr>)
      else if mode = 7 then
        (0, cfg\<lparr>cfg_http_fragment_size := 2, cfg_https_fragment_size := 2,
                cfg_native_fragmentation := True, cfg_reverse_fragmentation := True,
                cfg_wrong_checksum := True, cfg_fake_packet := True, cfg_max_payload_size := 1200\<rparr>)
      else if mode = 9 then
        (0, cfg\<lparr>cfg_http_fragment_size := 2, cfg_https_fragment_size := 2,
                cfg_native_fragmentation := True, cfg_reverse_fragmentation := True,
                cfg_wrong_sequence := True, cfg_wrong_checksum := True,
                cfg_fake_packet := True, cfg_block_quic := True, cfg_max_payload_size := 1200\<rparr>)
      else (-1, cfg))"

section \<open>Command line\<close>

text \<open>What \<open>getopt_long\<close> returns: a short option character (also for long options that alias one)
  or the code of a long option, each with \<open>optarg\<close>.  The sequence of results is the input here;
  the theory of the command line computes it from \<open>argv\<close>.\<close>

datatype getopt_code = Ch char | Long nat

text \<open>The numeric options: \<open>strtol\<close>, no rest, no range error, between \<open>lo\<close> and 65535.\<close>

definition num_option :: "int \<Rightarrow> string \<Rightarrow> int option" where
  "num_option lo s =
     (let (v, rest, erange) = strtol s
      in if rest \<noteq> [] \<or> erange \<or> v < lo \<or> v > 65535 then None else Some v)"

text \<open>One turn of the option switch, first the cases from 1000 on with the default: \<open>Some rc\<close> when the code returns,
  \<open>None\<close> when it goes on.\<close>

definition parse_long_option :: "getopt_code \<Rightarrow> string \<Rightarrow> goodbyedpi_config_t \<Rightarrow> int option \<times> goodbyedpi_config_t" where
  "parse_long_option c optarg cfg =
     (if c = Long 1000 then (None, cfg\<lparr>cfg_debug_mode := True\<rparr>)
      else if c = Long 1001 then (None, cfg\<lparr>cfg_systemd_mode := True\<rparr>)
      else if c = Long 1002 then
        (case num_option 1 optarg of None \<Rightarrow> (Some (-1), cfg)
         | Some v \<Rightarrow> (None, cfg\<lparr>cfg_http_fragment_size := word_of_int v\<rparr>))
      else if c = Long 1003 then
        (case num_option 1 optarg of None \<Rightarrow> (Some (-1), cfg)
         | Some v \<Rightarrow> (None, cfg\<lparr>cfg_https_fragment_size := word_of_int v\<rparr>))
      else if c = Long 1004 then (None, cfg\<lparr>cfg_native_fragmentation := True\<rparr>)
      else if c = Long 1005 then (None, cfg\<lparr>cfg_reverse_fragmentation := True\<rparr>)
      else if c = Long 1006 then (None, cfg\<lparr>cfg_host_mixedcase := True\<rparr>)
      else if c = Long 1007 then (None, cfg\<lparr>cfg_additional_space := True\<rparr>)
      else if c = Long 1008 then (None, cfg\<lparr>cfg_host_removespace := True\<rparr>)
      else if c = Long 1009 then
        (if 46 \<le> length optarg then (Some (-1), cfg)
         else (None, cfg\<lparr>cfg_dns_redirect_ipv4 := True, cfg_dns_server_v4 := field_copy 46 optarg\<rparr>))
      else if c = Long 1010 then
        (if 46 \<le> length optarg then (Some (-1), cfg)
         else (None, cfg\<lparr>cfg_dns_redirect_ipv6 := True, cfg_dns_server_v6 := field_copy 46 optarg\<rparr>))
      else if c = Long 1011 then
        (case num_option 1 optarg of None \<Rightarrow> (Some (-1), cfg)
         | Some v \<Rightarrow> (None, cfg\<lparr>cfg_dns_port_v6 := word_of_int v, cfg_dns_port_v4 := word_of_int v\<rparr>))
      else if c = Long 1012 then
        (case num_option 0 optarg of None \<Rightarrow> (Some (-1), cfg)
         | Some v \<Rightarrow> (None, cfg\<lparr>cfg_nfqueue_num := word_of_int v\<rparr>))
      else if c = Ch CHR ''?'' then (Some (-1), cfg)
      else (None, cfg))"

definition parse_option ::
  "(string \<Rightarrow> string option) \<Rightarrow> config_line_t \<Rightarrow> getopt_code \<Rightarrow> string \<Rightarrow> goodbyedpi_config_t \<Rightarrow>
   int option \<times> goodbyedpi_config_t" where
  "parse_option fs cl0 c optarg cfg =
     (if c = Ch CHR ''h'' then (Some 1, cfg)
      else if c = Ch CHR ''V'' then (Some 1, cfg)
      else if c = Ch CHR ''d'' then (None, cfg\<lparr>cfg_daemon_mode := True\<rparr>)
      else if c = Ch CHR ''c'' then
        (let (rc, cfg') = config_load_file fs cl0 (Some optarg) (Some cfg);
             cfg1 = (case cfg' of None \<Rightarrow> cfg | Some x \<Rightarrow> x)
         in if rc < 0 then (Some (-1), cfg1) else (None, cfg1))
      else if c = Ch CHR ''p'' then
        (if 256 \<le> length optarg then (Some (-1), cfg)
         else (None, cfg\<lparr>cfg_pid_file := field_copy 256 optarg\<rparr>))
      else if c = Ch CHR ''l'' then
        (if 256 \<le> length optarg then (Some (-1), cfg)
         else (None, cfg\<lparr>cfg_log_file := field_copy 256 optarg\<rparr>))
      else if c = Ch CHR ''v'' then (None, cfg\<lparr>cfg_verbose_mode := True\<rparr>)
      else if c = Ch CHR ''1'' then (None, snd (config_apply_legacy_mode 1 cfg))
      else if c = Ch CHR ''2'' then (None, snd (config_apply_legacy_mode 2 cfg))
      else if c = Ch CHR ''5'' then (None, snd (config_apply_legacy_mode 5 cfg))
      else if c = Ch CHR ''6'' then (None, snd (config_apply_legacy_mode 6 cfg))
      else if c = Ch CHR ''7'' then (None, snd (config_apply_legacy_mode 7 cfg))
      else if c = Ch CHR ''9'' then (None, snd (config_apply_legacy_mode 9 cfg))
      else parse_long_option c optarg cfg)"

fun parse_arguments ::
  "(string \<Rightarrow> string option) \<Rightarrow> config_line_t \<Rightarrow> (getopt_code \<times> string) list \<Rightarrow> goodbyedpi_config_t \<Rightarrow>
   int \<times> goodbyedpi_config_t" where
  "parse_arguments fs cl0 [] cfg = (0, cfg)"
| "parse_arguments fs cl0 ((c, optarg) # opts) cfg =
     (case parse_option fs cl0 c optarg cfg of
        (Some rc, cfg') \<Rightarrow> (rc, cfg')
      | (None, cfg') \<Rightarrow> parse_arguments fs cl0 opts cfg')"

section \<open>Lemmas: text\<close>

lemma strip_end_eq:
  "strip_end v = (case v of [] \<Rightarrow> [] | c # cs \<Rightarrow> c # rev (dropWhile tail_space (rev cs)))"
proof (induction v rule: strip_end.induct)
  case (1 v)
  show ?case
  proof (cases v rule: rev_cases)
    case (snoc w d)
    then show ?thesis 
      using 1 by (cases w) (auto simp: strip_end.simps [of "[d]"] strip_end.simps [of "_ # _ @ [d]"])
  qed (simp add: strip_end.simps)
qed

lemma strip_end_plain: "v \<noteq> [] \<Longrightarrow> \<not> tail_space (last v) \<Longrightarrow> strip_end v = v"
  by (simp add: strip_end.simps)

lemma strip_end_append:
  assumes "v \<noteq> []" and "\<not> tail_space (last v)" and "\<forall>c\<in>set t. tail_space c"
  shows "strip_end (v @ t) = v"
  using assms(3)
proof (induction t rule: rev_induct)
  case Nil
  then show ?case by (simp add: assms strip_end_plain)
next
  case (snoc c t)
  then show ?case
    using assms(1) by (cases v) (simp_all add: strip_end.simps [of "_ @ _ @ [c]"] strip_end.simps [of "_ # _ @ _ @ [c]"] butlast_append)
qed

lemma strip_end_length: "length (strip_end v) \<le> length v"
  by (induction v rule: strip_end.induct) (subst strip_end.simps, force)

lemma strchr_found: "c \<notin> set k \<Longrightarrow> strchr (k @ c # r) c = Some (length k)"
proof -
  assume "c \<notin> set k"
  then have "takeWhile (\<lambda>x. x \<noteq> c) (k @ c # r) = k"
    by (subst takeWhile_append2) auto
  then show ?thesis by (simp add: strchr_def)
qed

lemma strchr_None: "c \<notin> set s \<Longrightarrow> strchr s c = None"
proof -
  assume "c \<notin> set s"
  then have "takeWhile (\<lambda>x. x \<noteq> c) s = s" by (subst takeWhile_eq_all_conv) auto
  then show ?thesis unfolding strchr_def Let_def by (simp only:) simp
qed

lemma fgets_lines_concat: "concat (fgets_lines s) = s"
proof (induction s rule: fgets_lines.induct)
  case (1 s)
  show ?case
  proof (cases "s = []")
    case False
    have "take (length (fgets_chunk s)) s = fgets_chunk s"
      by (auto simp: fgets_chunk_def min_def)
    with False 1 show ?thesis
      by (simp add: fgets_lines.simps [of s]) (metis append_take_drop_id)
  qed (simp add: fgets_lines.simps)
qed

lemma fgets_lines_bound: "l \<in> set (fgets_lines s) \<Longrightarrow> l \<noteq> [] \<and> length l \<le> 511"
proof (induction s rule: fgets_lines.induct)
  case (1 s)
  then show ?case
    using fgets_chunk_nonempty [of s]
    by (auto simp: fgets_lines.simps [of s] fgets_chunk_def split: if_splits)
qed

section \<open>Properties: the configuration file\<close>

lemma strip_end_white: "\<forall>c\<in>set t. tail_space c \<Longrightarrow> strip_end t = take 1 t"
  by (cases t) (simp_all add: strip_end_eq)

text \<open>
  C24. What is read from a line \<open>key=value\<close>, for a key of 1 to 63 characters without \<open>=\<close> that does not look like a
  comment, with blanks before the value and white space (with the newline) after it.  A non-empty value, without
  white space at its ends, is read back exactly when it and the white space behind it have fewer than 256 characters.
  When the value is empty, the first character behind the blanks is taken for the value: it is the newline for the line
  \<open>key=\<close> and the empty string at the end of the input.  When 256 or more characters are left behind the blanks
  the line is refused, with the key already stored.
\<close>

theorem config_parse_line_roundtrip:
  assumes "k \<noteq> []" and "hd k \<noteq> CHR ''#''" and "hd k \<noteq> NL" and "CHR ''='' \<notin> set k" and "length k < 64"
    and "v \<noteq> [] \<longrightarrow> \<not> blank (hd v) \<and> \<not> tail_space (last v)"
    and "\<forall>c\<in>set b. blank c" and "\<forall>c\<in>set t. tail_space c"
  shows "config_parse_line (Some (k @ CHR ''='' # b @ v @ t)) (Some cl) =
    (let rest = (if v = [] then dropWhile blank t else v @ t) in
     if 256 \<le> length rest then (-1, Some (cl\<lparr>cl_key := k\<rparr>))
     else (0, Some (cl\<lparr>cl_key := k, cl_value := if v = [] then take 1 rest else v\<rparr>)))"
proof (cases v)
  case Nil
  have "dropWhile blank (b @ t) = dropWhile blank t" using assms(7) by simp
  moreover have "strip_end (dropWhile blank t) = take 1 (dropWhile blank t)"
    using assms(8) by (intro strip_end_white) (auto dest: set_dropWhileD)
  ultimately show ?thesis
    using assms Nil by (simp add: config_parse_line_def strchr_found Let_def)
next
  case (Cons c w)
  have "dropWhile blank (b @ v @ t) = v @ t"
    using assms(6,7) Cons by simp
  moreover have "strip_end (v @ t) = v"
    using assms(6,8) Cons by (intro strip_end_append) simp_all
  ultimately show ?thesis
    using assms Cons by (simp add: config_parse_line_def strchr_found Let_def)
qed

theorem config_parse_line_roundtrip_witness:
  "config_parse_line (Some (''auto_ttl= true '' @ [NL])) (Some \<lparr>cl_key = [], cl_value = []\<rparr>) =
     (0, Some \<lparr>cl_key = ''auto_ttl'', cl_value = ''true''\<rparr>) \<and>
   config_parse_line (Some (''dns_server_v4= '' @ [NL])) (Some \<lparr>cl_key = [], cl_value = []\<rparr>) =
     (0, Some \<lparr>cl_key = ''dns_server_v4'', cl_value = [NL]\<rparr>)"
  using config_parse_line_roundtrip [of "''auto_ttl''" "''true''" "'' ''" "'' '' @ [NL]"
      "\<lparr>cl_key = [], cl_value = []\<rparr>"]
    config_parse_line_roundtrip [of "''dns_server_v4''" "[]" "'' ''" "[NL]" "\<lparr>cl_key = [], cl_value = []\<rparr>"]
  by (simp add: blank_def tail_space_def TAB_def NL_def CR_def)

text \<open>A line that is not a comment and has no \<open>=\<close> stops the load.\<close>

lemma config_load_lines_error:
  assumes "c_str l \<noteq> []" and "hd (c_str l) \<noteq> CHR ''#''" and "hd (c_str l) \<noteq> NL"
    and "CHR ''='' \<notin> set (c_str l)"
  shows "config_load_lines (l # ls) cl cfg = (-1, cfg)"
  using assms by (simp add: config_parse_line_def strchr_None)

lemma config_load_lines_comment:
  "c_str l = [] \<or> hd (c_str l) = CHR ''#'' \<or> hd (c_str l) = NL \<Longrightarrow>
   config_load_lines (l # ls) cl cfg = config_load_lines ls cl cfg"
  by (auto simp: config_parse_line_def)

lemma fgets_lines_line:
  assumes "NL \<notin> set l" and "length l < 511"
  shows "fgets_lines (l @ NL # r) = (l @ [NL]) # fgets_lines r"
proof -
  have "takeWhile (\<lambda>c. c \<noteq> NL) (l @ NL # r) = l"
    using assms(1) by (subst takeWhile_append2) auto
  then have "fgets_chunk (l @ NL # r) = l @ [NL]"
    using assms(2) by (simp add: fgets_chunk_def)
  then show ?thesis by (simp add: fgets_lines.simps [of "l @ NL # r"])
qed

text \<open>
  The configuration file shipped with the program (\<open>config/goodbyedpi.conf.example\<close>, installed
  as \<open>goodbyedpi.conf\<close>) cannot be loaded: it opens with a comment and the section header \<open>[general]\<close>,
  and a section header is a line without \<open>=\<close>, on which \<open>config_load_file\<close> gives up.
\<close>

theorem example_config_rejected:
  "config_load_file (\<lambda>f. Some (''# General settings'' @ NL # ''[general]'' @ NL # rest)) cl0
     (Some f) (Some cfg) = (-1, Some cfg)"
proof -
  have l: "fgets_lines (''# General settings'' @ NL # ''[general]'' @ NL # rest) =
      (''# General settings'' @ [NL]) # (''[general]'' @ [NL]) # fgets_lines rest"
    by (subst fgets_lines_line, simp add: NL_def, simp, subst fgets_lines_line, simp add: NL_def, simp, rule refl)
  have "config_load_lines ((''# General settings'' @ [NL]) # (''[general]'' @ [NL]) # fgets_lines rest) cl0 cfg
      = (-1, cfg)"
    by (subst config_load_lines_comment, simp add: c_str_def,
        rule config_load_lines_error; simp add: c_str_def NL_def)
  then show ?thesis
    unfolding config_load_file_def by (simp only: l option.case prod.case Let_def)
qed

section \<open>Properties: field bounds and validity\<close>

text \<open>Every text field is shorter than its array.\<close>

definition config_wf :: "goodbyedpi_config_t \<Rightarrow> bool" where
  "config_wf c \<longleftrightarrow>
     length (cfg_blacklist_file c) < 256 \<and> length (cfg_whitelist_file c) < 256 \<and>
     length (cfg_dns_server_v4 c) < 46 \<and> length (cfg_dns_server_v6 c) < 46 \<and>
     length (cfg_pid_file c) < 256 \<and> length (cfg_log_file c) < 256 \<and> length (cfg_interface c) < 32 \<and>
     length (cfg_additional_ports c) = 16 \<and> length (cfg_ip_ids c) = 32"

lemma field_copy_length: "0 < n \<Longrightarrow> length (field_copy n s) < n"
  by (auto simp: field_copy_def min_def)

lemma config_defaults_wf: "config_wf config_defaults"
  by (simp add: config_wf_def config_defaults_def config_zero_def field_copy_def)

lemma config_set_wf: "config_wf c \<Longrightarrow> config_wf (snd (config_set c k v))"
  by (simp add: config_set_def config_wf_def field_copy_length)

lemma config_load_lines_wf: "config_wf c \<Longrightarrow> config_wf (snd (config_load_lines ls cl c))"
  by (induction ls cl c rule: config_load_lines.induct)
    (auto simp: Let_def config_set_wf split: prod.split)

lemma config_load_file_wf:
  "config_wf c \<Longrightarrow> config_load_file fs cl0 f (Some c) = (rc, Some c') \<Longrightarrow> config_wf c'"
  using config_load_lines_wf [of c]
  by (auto simp: config_load_file_def split: option.splits prod.splits) (metis snd_conv)

lemma legacy_mode_wf: "config_wf c \<Longrightarrow> config_wf (snd (config_apply_legacy_mode m c))"
  by (simp add: config_apply_legacy_mode_def config_wf_def)

lemma parse_option_wf:
  assumes "config_wf c"
  shows "config_wf (snd (parse_option fs cl0 o1 arg c))"
proof (cases "o1 = Ch CHR ''c''")
  case True
  then show ?thesis
    using assms config_load_file_wf [OF assms]
    by (auto simp: parse_option_def parse_long_option_def split: prod.split option.split)
next
  case False
  have f: "length (field_copy 46 arg) < 46" "length (field_copy 256 arg) < 256"
    by (simp_all add: field_copy_length)
  from False assms f show ?thesis
    unfolding parse_option_def parse_long_option_def
    by (simp add: legacy_mode_wf split: option.split) (simp add: config_wf_def)
qed

text \<open>
  C25. No sequence of command line options, configuration files included, overflows a text field of
  the configuration: starting from well-formed contents, every string stays shorter than its array.
\<close>

theorem parse_arguments_wf:
  assumes "config_wf cfg"
  shows "config_wf (snd (parse_arguments fs cl0 opts cfg))"
  using assms
proof (induction fs cl0 opts cfg rule: parse_arguments.induct)
  case (2 fs cl0 c optarg opts cfg)
  then show ?case
    using parse_option_wf [OF "2.prems", of fs cl0 c optarg]
    by (auto split: prod.split option.split)
qed simp

theorem parse_arguments_wf_witness:
  "config_wf (snd (parse_arguments (\<lambda>f. Some ''dns_server_v4=9.9.9.9'') \<lparr>cl_key = [], cl_value = []\<rparr>
      [(Ch CHR ''c'', ''f''), (Long 1009, ''8.8.8.8'')] config_defaults))"
  by (rule parse_arguments_wf) (rule config_defaults_wf)

lemma config_validate_iff:
  "config_validate (Some c) = 0 \<longleftrightarrow>
     unat (cfg_http_fragment_size c) \<le> 1500 \<and> unat (cfg_https_fragment_size c) \<le> 1500 \<and>
     cfg_ttl_of_fake_packet c \<noteq> 0 \<and>
     (cfg_dns_redirect_ipv4 c \<longrightarrow> cfg_dns_server_v4 c \<noteq> []) \<and>
     (cfg_dns_redirect_ipv6 c \<longrightarrow> cfg_dns_server_v6 c \<noteq> []) \<and>
     cfg_dns_port_v4 c \<noteq> 0 \<and> cfg_dns_port_v6 c \<noteq> 0"
proof -
  have "unat (cfg_ttl_of_fake_packet c) \<le> 255" "unat (cfg_dns_port_v4 c) \<le> 65535"
    "unat (cfg_dns_port_v6 c) \<le> 65535"
    by (rule unat_u8_le unat_u16_le)+
  then show ?thesis
    by (auto simp: config_validate_def word_less_nat_alt not_less)
qed

text \<open>
  The built-in configuration is valid, and every legacy mode keeps a valid configuration valid;
  an unknown mode is refused and changes nothing.
\<close>

theorem legacy_mode_valid:
  "config_validate (Some config_defaults) = 0 \<and>
   (config_validate (Some c) = 0 \<longrightarrow> config_validate (Some (snd (config_apply_legacy_mode m c))) = 0) \<and>
   (fst (config_apply_legacy_mode m c) = (if m \<in> {1, 2, 5, 6, 7, 9} then 0 else -1)) \<and>
   (m \<notin> {1, 2, 5, 6, 7, 9} \<longrightarrow> snd (config_apply_legacy_mode m c) = c)"
proof (intro conjI)
  show "config_validate (Some config_defaults) = 0"
    by (simp add: config_validate_iff config_defaults_def config_zero_def field_copy_def)
  show "config_validate (Some c) = 0 \<longrightarrow> config_validate (Some (snd (config_apply_legacy_mode m c))) = 0"
    by (simp add: config_apply_legacy_mode_def config_validate_iff)
qed (auto simp: config_apply_legacy_mode_def)

theorem legacy_mode_valid_witness:
  "config_validate (Some (snd (config_apply_legacy_mode 9 config_defaults))) = 0 \<and>
   config_apply_legacy_mode 3 config_defaults = (-1, config_defaults)"
  using legacy_mode_valid [of config_defaults 9] legacy_mode_valid [of config_defaults 3]
  by (simp add: prod_eq_iff)

text \<open>
  A file line written \<open>key = value\<close>, with a blank before the \<open>=\<close>, sets nothing: the key keeps
  the blank, no known key ends in one, and \<open>config_load_file\<close> ignores the error of
  \<open>config_set_value\<close>.
\<close>

theorem spaced_key_ignored:
  "config_set_value (Some cfg) (Some (k @ '' '')) (Some v) = (-1, Some cfg)"
proof -
  have "k @ '' '' \<noteq> w" if "w \<noteq> []" "last w \<noteq> CHR '' ''" for w
    using that by auto
  then have "config_set cfg (k @ '' '') v = (-1, cfg)"
    unfolding config_set_def by (intro if_not_P [THEN trans]) simp_all
  then show ?thesis by (simp add: config_set_value_def)
qed

text \<open>
  \<open>--fragment-http\<close> accepts what its message promises (1 to 65535), but every accepted size
  above 1500 makes \<open>config_validate\<close> fail, so the program refuses to start.
\<close>

theorem cli_fragment_size_gap:
  assumes "num_option 1 s = Some v" and "1500 < v"
  shows "parse_arguments fs cl0 [(Long 1002, s)] config_defaults =
      (0, config_defaults\<lparr>cfg_http_fragment_size := word_of_int v\<rparr>) \<and>
    config_validate (Some (config_defaults\<lparr>cfg_http_fragment_size := word_of_int v\<rparr>)) = -1"
proof -
  have "v \<le> 65535" using assms(1) by (auto simp: num_option_def Let_def split: prod.splits if_splits)
  then have "unat (word_of_int v :: u32) = nat v"
    using assms(2) by (simp add: unat_eq_nat_uint uint_word_of_int)
  moreover have "1500 < nat v" using assms(2) by simp
  ultimately show ?thesis
    using assms by (simp add: parse_option_def parse_long_option_def config_validate_def word_less_nat_alt)
qed

theorem cli_fragment_size_gap_witness:
  "config_validate (Some (snd (parse_arguments (\<lambda>f. None) \<lparr>cl_key = [], cl_value = []\<rparr>
      [(Long 1002, ''2000'')] config_defaults))) = -1"
proof -
  have "num_option 1 ''2000'' = Some 2000"
    by (simp add: num_option_def strtol_def is_space_char_def is_digit_def digits_value_def Let_def)
  from cli_fragment_size_gap [OF this, of "\<lambda>f. None" "\<lparr>cl_key = [], cl_value = []\<rparr>"]
  show ?thesis by simp
qed

end
