(* ===== verification/RawSocket.thy ===== *)
theory RawSocket
  imports Prelude "HOL-Library.Multiset"
begin

text \<open>
  \<open>src/capture/raw_socket.c\<close>: the two raw sockets.  Besides the two descriptors the state records which
  descriptors the component has opened and not closed and what it has handed to \<open>send\<close>; the answers
  of the system calls are arguments.
\<close>

section \<open>Definitions\<close>

record raw_state =
  raw_socket_fd :: int
  raw_socket_ipv6_fd :: int
  rs_open :: "int list"
  rs_sent :: "(bool \<times> bytes) list"

definition raw_state0 :: raw_state where
  "raw_state0 = \<lparr>raw_socket_fd = -1, raw_socket_ipv6_fd = -1, rs_open = [], rs_sent = []\<rparr>"

definition close_fd :: "int \<Rightarrow> raw_state \<Rightarrow> raw_state" where
  "close_fd fd s = s\<lparr>rs_open := remove1 fd (rs_open s)\<rparr>"

text \<open>\<open>fd4\<close> and \<open>fd6\<close>: what the two calls of \<open>socket\<close> return.  A failing \<open>setsockopt\<close> only logs.\<close>

definition setup_raw_socket :: "int \<Rightarrow> int \<Rightarrow> raw_state \<Rightarrow> int \<times> raw_state" where
  "setup_raw_socket fd4 fd6 s =
     (let s1 = s\<lparr>raw_socket_fd := fd4\<rparr> in
      if fd4 < 0 then (-1, s1)
      else (let s2 = s1\<lparr>rs_open := fd4 # rs_open s1, raw_socket_ipv6_fd := fd6\<rparr> in
            if fd6 < 0 then (-1, (close_fd (raw_socket_fd s2) s2)\<lparr>raw_socket_fd := -1\<rparr>)
            else (0, s2\<lparr>rs_open := fd6 # rs_open s2\<rparr>)))"

definition cleanup_raw_socket :: "raw_state \<Rightarrow> raw_state" where
  "cleanup_raw_socket s =
     (let s1 = (if 0 \<le> raw_socket_fd s then (close_fd (raw_socket_fd s) s)\<lparr>raw_socket_fd := -1\<rparr> else s)
      in if 0 \<le> raw_socket_ipv6_fd s1
         then (close_fd (raw_socket_ipv6_fd s1) s1)\<lparr>raw_socket_ipv6_fd := -1\<rparr> else s1)"

text \<open>\<open>send_result fd n\<close>: what \<open>send\<close> returns for \<open>n\<close> bytes.\<close>

definition send_raw_packet ::
  "(int \<Rightarrow> nat \<Rightarrow> int) \<Rightarrow> bytes \<Rightarrow> size_t \<Rightarrow> bool \<Rightarrow> raw_state \<Rightarrow> (int \<times> raw_state) cres" where
  "send_raw_packet send_result packet_data packet_len is_ipv6 s =
     (let sock_fd = (if is_ipv6 then raw_socket_ipv6_fd s else raw_socket_fd s) in
      if sock_fd < 0 then Inr (-1, s)
      else bindC (slice packet_data 0 (unat packet_len)) (\<lambda>d.
        let sent = send_result sock_fd (unat packet_len) in
        if sent < 0 then Inr (-1, s)
        else Inr (0, s\<lparr>rs_sent := rs_sent s @ [(is_ipv6, take (nat sent) d)]\<rparr>)))"

text \<open>\<open>recvfrom\<close> with \<open>MSG_DONTWAIT\<close>: data, no data (\<open>EAGAIN\<close>) or another error.\<close>

datatype recv_result = Received bytes | WouldBlock | RecvError

definition receive_raw_packet ::
  "(int \<Rightarrow> nat \<Rightarrow> recv_result) \<Rightarrow> bytes \<Rightarrow> nat \<Rightarrow> bool \<Rightarrow> raw_state \<Rightarrow> (int \<times> bytes) cres" where
  "receive_raw_packet recvfrom buffer buffer_len is_ipv6 s =
     (let sock_fd = (if is_ipv6 then raw_socket_ipv6_fd s else raw_socket_fd s) in
      if sock_fd < 0 then Inr (-1, buffer)
      else (case recvfrom sock_fd buffer_len of
          RecvError \<Rightarrow> Inr (-1, buffer)
        | WouldBlock \<Rightarrow> Inr (0, buffer)
        | Received d \<Rightarrow> bindC (blit buffer 0 (take buffer_len d)) (\<lambda>b.
            Inr (int (min buffer_len (length d)), b))))"

definition is_raw_socket_ready :: "raw_state \<Rightarrow> bool" where
  "is_raw_socket_ready s \<longleftrightarrow> 0 \<le> raw_socket_fd s \<and> 0 \<le> raw_socket_ipv6_fd s"

text \<open>The two output pointers; \<open>None\<close> where the caller passes a null pointer.\<close>

definition get_raw_socket_fds :: "int option \<Rightarrow> int option \<Rightarrow> raw_state \<Rightarrow> int \<times> int option \<times> int option" where
  "get_raw_socket_fds ipv4_fd ipv6_fd s =
     ((if 0 \<le> raw_socket_fd s \<and> 0 \<le> raw_socket_ipv6_fd s then 0 else -1),
      (if ipv4_fd = None then None else Some (raw_socket_fd s)),
      (if ipv6_fd = None then None else Some (raw_socket_ipv6_fd s)))"

section \<open>Properties\<close>

text \<open>The descriptors that are open are the ones the two variables hold.\<close>

definition raw_wf :: "raw_state \<Rightarrow> bool" where
  "raw_wf s \<longleftrightarrow> mset (rs_open s) = mset (filter (\<lambda>fd. 0 \<le> fd) [raw_socket_fd s, raw_socket_ipv6_fd s])"

lemma raw_wf0: "raw_wf raw_state0"
  by (simp add: raw_wf_def raw_state0_def)

text \<open>
  Opening the raw sockets from a closed state succeeds exactly when both \<open>socket\<close> calls do; then both are
  ready, and otherwise nothing stays open.  Closing them releases every descriptor, also when only
  one of them is open.
\<close>

theorem raw_socket_lifecycle:
  assumes "raw_wf s" and "raw_socket_fd s < 0" and "raw_socket_ipv6_fd s < 0"
    and "setup_raw_socket fd4 fd6 s = (rc, s1)"
  shows "raw_wf s1 \<and> (rc = 0 \<longleftrightarrow> 0 \<le> fd4 \<and> 0 \<le> fd6) \<and> (is_raw_socket_ready s1 \<longleftrightarrow> rc = 0) \<and>
    (rc \<noteq> 0 \<longrightarrow> rs_open s1 = []) \<and> rs_open (cleanup_raw_socket s1) = [] \<and>
    \<not> is_raw_socket_ready (cleanup_raw_socket s1)"
  using assms
  by (auto simp: setup_raw_socket_def raw_wf_def is_raw_socket_ready_def cleanup_raw_socket_def
      close_fd_def Let_def split: if_splits)

theorem raw_socket_lifecycle_witness:
  "rs_open (snd (setup_raw_socket 5 (-1) raw_state0)) = [] \<and>
   is_raw_socket_ready (snd (setup_raw_socket 5 6 raw_state0))"
  using raw_socket_lifecycle [of raw_state0 5 "-1" "fst (setup_raw_socket 5 (-1) raw_state0)" "snd (setup_raw_socket 5 (-1) raw_state0)"]
    raw_socket_lifecycle [of raw_state0 5 6 "fst (setup_raw_socket 5 6 raw_state0)" "snd (setup_raw_socket 5 6 raw_state0)"]
  by (simp add: raw_wf0) (simp add: raw_state0_def setup_raw_socket_def)

text \<open>Without \<open>setup_raw_socket\<close> nothing is ever sent.\<close>

lemma send_raw_unset: "raw_socket_fd s < 0 \<Longrightarrow> raw_socket_ipv6_fd s < 0 \<Longrightarrow> send_raw_packet r d n v s = Inr (-1, s)"
  by (simp add: send_raw_packet_def)

lemma send_raw_complete:
  assumes "is_raw_socket_ready s" and "length d = unat n" and "\<forall>fd k. r fd k = int k"
  shows "send_raw_packet r d n v s = Inr (0, s\<lparr>rs_sent := rs_sent s @ [(v, d)]\<rparr>)"
  using assms by (simp add: send_raw_packet_def is_raw_socket_ready_def slice_def Let_def)

end
