(* ===== verification/Evasion.thy ===== *)
theory Evasion
  imports Packet StringUtils Config RawSocket
begin

text \<open>
  \<open>src/evasion/fragmentation.c\<close>, \<open>src/evasion/header_mangle.c\<close> and \<open>src/evasion/fake_packets.c\<close>.  The
  global \<open>config\<close> is an argument; the raw socket state is threaded where packets are sent.
\<close>

section \<open>Fragmentation\<close>

definition evasion_fragment_packet :: "packet_t option \<Rightarrow> u32 \<Rightarrow> int" where
  "evasion_fragment_packet packet fragment_size =
     (case packet of None \<Rightarrow> -1
      | Some p \<Rightarrow> if p_raw_packet p = None \<or> fragment_size = 0 then -1 else 0)"

section \<open>Header manipulation\<close>

text \<open>An in-place edit through a pointer into the payload.\<close>

definition edit_at :: "nat \<Rightarrow> (bytes \<Rightarrow> bytes cres) \<Rightarrow> bytes \<Rightarrow> bytes cres" where
  "edit_at off f b =
     (if length b < off then Inl OutOfBounds
      else bindC (f (drop off b)) (\<lambda>r. Inr (take off b @ r)))"

definition host_literal :: bytes where
  "host_literal = [13, 10] @ lit ''Host:''"

lemma host_literal_length [simp]: "length host_literal = 7"
  by (simp add: host_literal_def)

text \<open>\<open>mix_case (host_start, host_end - host_start)\<close> when a line end follows.\<close>

definition hm_mixedcase :: "nat \<Rightarrow> bytes \<Rightarrow> bytes cres" where
  "hm_mixedcase off b =
     bindC (strstr (drop (off + 7) b) [13, 10]) (\<lambda>r. case r of
         None \<Rightarrow> Inr b
       | Some k \<Rightarrow> edit_at (off + 7) (\<lambda>s. bindC (mix_case (Some s) k) deref) b)"

text \<open>The insertion of a space: \<open>memmove\<close> one byte to the right, then two stores.\<close>

definition hm_additional_space :: "nat \<Rightarrow> size_t \<Rightarrow> bytes \<Rightarrow> bytes cres" where
  "hm_additional_space off payload_len b =
     bindC (slice b (off + 7) (unat (payload_len - of_nat off - 7))) (\<lambda>m.
     bindC (blit b (off + 8) m) (\<lambda>b1.
     bindC (wr b1 (off + 7) 32) (\<lambda>b2. wr b2 (off + 8) 32)))"

definition hm_removespace :: "nat \<Rightarrow> size_t \<Rightarrow> bytes \<Rightarrow> bytes cres" where
  "hm_removespace off payload_len b =
     bindC (slice b (off + 8) (unat (payload_len - of_nat off - 8))) (\<lambda>m. blit b (off + 7) m)"

definition hm_uppercase :: "nat \<Rightarrow> bytes \<Rightarrow> bytes cres" where
  "hm_uppercase off b =
     bindC (strstr (drop (off + 7) b) [13, 10]) (\<lambda>r. case r of
         None \<Rightarrow> Inr b
       | Some k \<Rightarrow> edit_at (off + 7) (\<lambda>s. bindC (string_to_upper (Some s)) deref) b)"

definition modify_http_headers :: "goodbyedpi_config_t \<Rightarrow> packet_t \<Rightarrow> (int \<times> packet_t) cres" where
  "modify_http_headers config packet =
     bindC (deref (p_payload packet)) (\<lambda>b0.
       let payload_len = p_payload_len packet in
       bindC (strstr b0 host_literal) (\<lambda>r. case r of
           None \<Rightarrow> Inr (-1, packet)
         | Some off \<Rightarrow>
             bindC (if cfg_host_mixedcase config then hm_mixedcase off b0 else Inr b0) (\<lambda>b1.
             bindC (if cfg_additional_space config
                    then (if 7 \<le> payload_len
                          then bindC (prefix_at (drop off b1) host_literal) (\<lambda>m.
                                 if m then bindC (hm_additional_space off payload_len b1) (\<lambda>b. Inr (b, 1))
                                 else Inr (b1, 0))
                          else Inr (b1, 0))
                    else Inr (b1, 0)) (\<lambda>(b2, d2).
             bindC (if cfg_host_removespace config
                    then (if 8 \<le> payload_len
                          then bindC (prefix_at (drop off b2) (host_literal @ [32])) (\<lambda>m.
                                 if m then bindC (hm_removespace off payload_len b2) (\<lambda>b. Inr (b, d2 - 1))
                                 else Inr (b2, d2))
                          else Inr (b2, d2))
                    else Inr (b2, d2)) (\<lambda>(b3, d3).
             bindC (if cfg_host_uppercase config then hm_uppercase off b3 else Inr b3) (\<lambda>b4.
               Inr (0, packet\<lparr>p_payload := Some b4, p_payload_len := payload_len + d3\<rparr>)))))))"

definition modify_tcp_headers :: "packet_t \<Rightarrow> int \<times> packet_t" where
  "modify_tcp_headers packet = (0, packet)"

definition evasion_modify_headers :: "goodbyedpi_config_t \<Rightarrow> packet_t option \<Rightarrow> (int \<times> packet_t option) cres" where
  "evasion_modify_headers config packet =
     (case packet of None \<Rightarrow> Inr (-1, None)
      | Some p \<Rightarrow>
          if p_payload p = None \<or> p_payload_len p = 0 then Inr (-1, packet)
          else if p_type p \<noteq> PACKET_IPV4_TCP_DATA \<and> p_type p \<noteq> PACKET_IPV6_TCP_DATA then Inr (-1, packet)
          else (let is_http = (p_dst_port p = 80 \<or> p_src_port p = 80);
                    is_https = (p_dst_port p = 443 \<or> p_src_port p = 443)
                in if \<not> is_http \<and> \<not> is_https then Inr (-1, packet)
                   else if is_http then bindC (modify_http_headers config p) (\<lambda>(rc, q). Inr (rc, Some q))
                   else (let (rc, q) = modify_tcp_headers p in Inr (rc, Some q))))"

definition apply_wrong_checksum :: "packet_t option \<Rightarrow> int" where
  "apply_wrong_checksum packet =
     (case packet of None \<Rightarrow> -1 | Some p \<Rightarrow> if p_raw_packet p = None then -1 else 0)"

definition apply_wrong_sequence :: "packet_t option \<Rightarrow> int" where
  "apply_wrong_sequence packet =
     (case packet of None \<Rightarrow> -1 | Some p \<Rightarrow> if p_raw_packet p = None then -1 else 0)"

section \<open>Fake packets\<close>

text \<open>\<open>memcpy (*fake_packet, headers, headers_len)\<close>: a null source is used only for zero bytes.\<close>

definition copy_headers :: "packet_t \<Rightarrow> bytes cres" where
  "copy_headers p =
     (if p_headers_len p = 0 then Inr []
      else bindC (deref (p_headers p)) (\<lambda>h. slice h 0 (unat (p_headers_len p))))"

text \<open>The result is the return code and, as the out parameters, the block and its length.  \<open>malloc n\<close> tells
  whether the allocation succeeds; a failed one still leaves the length set.\<close>

type_synonym fake = "int \<times> bytes option \<times> size_t"

definition create_fake_reset_packet :: "(size_t \<Rightarrow> bool) \<Rightarrow> packet_t option \<Rightarrow> fake cres" where
  "create_fake_reset_packet malloc original_packet =
     (case original_packet of None \<Rightarrow> Inr (-1, None, 0)
      | Some p \<Rightarrow>
          (let len = p_headers_len p in
           if \<not> malloc len then Inr (-1, None, len)
           else bindC (copy_headers p) (\<lambda>h. Inr (0, Some h, len))))"

definition fake_response :: bytes where
  "fake_response =
     lit ''HTTP/1.1 200 OK'' @ [13, 10] @ lit ''Content-Type: text/html'' @ [13, 10] @
     lit ''Content-Length: 0'' @ [13, 10] @ lit ''Connection: close'' @ [13, 10] @ [13, 10]"

definition create_fake_http_response :: "(size_t \<Rightarrow> bool) \<Rightarrow> packet_t option \<Rightarrow> fake cres" where
  "create_fake_http_response malloc original_packet =
     (case original_packet of None \<Rightarrow> Inr (-1, None, 0)
      | Some p \<Rightarrow>
          (let len = p_headers_len p + of_nat (length fake_response) in
           if \<not> malloc len then Inr (-1, None, len)
           else bindC (copy_headers p) (\<lambda>h. Inr (0, Some (h @ fake_response), len))))"

definition fake_dns :: bytes where
  "fake_dns = (replicate 64 0)[2 := 0x81, 3 := 0x80]"

definition create_fake_dns_response :: "(size_t \<Rightarrow> bool) \<Rightarrow> packet_t option \<Rightarrow> fake cres" where
  "create_fake_dns_response malloc original_packet =
     (case original_packet of None \<Rightarrow> Inr (-1, None, 0)
      | Some p \<Rightarrow>
          (let len = p_headers_len p + 64 in
           if \<not> malloc len then Inr (-1, None, len)
           else bindC (copy_headers p) (\<lambda>h. Inr (0, Some (h @ fake_dns), len))))"

definition evasion_inject_fake_packet ::
  "(size_t \<Rightarrow> bool) \<Rightarrow> (int \<Rightarrow> nat \<Rightarrow> int) \<Rightarrow> goodbyedpi_config_t \<Rightarrow> packet_t option \<Rightarrow> raw_state \<Rightarrow> (int \<times> raw_state) cres" where
  "evasion_inject_fake_packet malloc send_result config original_packet rs =
     (case original_packet of None \<Rightarrow> Inr (-1, rs)
      | Some p \<Rightarrow>
          bindC (if p_type p = PACKET_IPV4_TCP \<or> p_type p = PACKET_IPV6_TCP
                 then (if cfg_fake_packet config then create_fake_reset_packet malloc original_packet
                       else Inr (-1, None, 0))
                 else if p_type p = PACKET_IPV4_UDP_DATA \<or> p_type p = PACKET_IPV6_UDP_DATA
                 then (if p_src_port p = 53 \<or> p_dst_port p = 53
                       then create_fake_dns_response malloc original_packet else Inr (-1, None, 0))
                 else Inr (-1, None, 0)) (\<lambda>(result, fake, len).
          case fake of
            None \<Rightarrow> Inr (result, rs)
          | Some f \<Rightarrow> if result = 0 \<and> 0 < len then send_raw_packet send_result f len (p_is_ipv6 p) rs
                     else Inr (result, rs)))"

definition send_fake_packet_with_ttl ::
  "(size_t \<Rightarrow> bool) \<Rightarrow> (int \<Rightarrow> nat \<Rightarrow> int) \<Rightarrow> packet_t option \<Rightarrow> u8 \<Rightarrow> raw_state \<Rightarrow> (int \<times> raw_state) cres" where
  "send_fake_packet_with_ttl malloc send_result original_packet ttl rs =
     (case original_packet of None \<Rightarrow> Inr (-1, rs)
      | Some p \<Rightarrow>
          bindC (create_fake_reset_packet malloc original_packet) (\<lambda>(result, fake, len).
            if result \<noteq> 0 then Inr (result, rs)
            else bindC (deref fake) (\<lambda>f. send_raw_packet send_result f len (p_is_ipv6 p) rs)))"

section \<open>Properties: header manipulation\<close>

lemma mix_case_deref: "bindC (mix_case (Some s) k) deref = (if k = 0 then Inr s else mix_case_loop 0 k s)"
  by (cases "mix_case_loop 0 k s") (simp_all add: mix_case_def)

lemma mix_case_loop_length: "mix_case_loop i k s = Inr r \<Longrightarrow> length r = length s"
  using mix_case_loop_lower [of i k s r] by (metis length_map)

lemma hm_mixedcase_frame:
  assumes "hm_mixedcase off b = Inr b1"
  shows "length b1 = length b" and "take (off + 7) b1 = take (off + 7) b" and "map tolower b1 = map tolower b"
proof -
  consider "b1 = b" | k r where "off + 7 \<le> length b" "mix_case_loop 0 k (drop (off + 7) b) = Inr r"
      "b1 = take (off + 7) b @ r"
    using assms by (auto simp: hm_mixedcase_def edit_at_def mix_case_deref bindC_eq_Inr
        split: option.splits if_splits)
  then have "length b1 = length b \<and> take (off + 7) b1 = take (off + 7) b \<and> map tolower b1 = map tolower b"
  proof cases
    case 2
    have "map tolower r = map tolower (drop (off + 7) b)" "length r = length (drop (off + 7) b)"
      by (rule mix_case_loop_lower mix_case_loop_length, rule 2(2))+
    then show ?thesis using 2 by (metis append_take_drop_id append_eq_conv_conj length_append length_take map_append min.absorb2)
  qed simp
  then show "length b1 = length b" "take (off + 7) b1 = take (off + 7) b" "map tolower b1 = map tolower b"
    by simp_all
qed

lemma strlike_faults:
  "prefix_at p s = Inl e \<Longrightarrow> e = OutOfBounds" "strstr p s = Inl e \<Longrightarrow> e = OutOfBounds"
  "mix_case_loop i k q = Inl e \<Longrightarrow> e = OutOfBounds"
proof -
  show p: "prefix_at p s = Inl e \<Longrightarrow> e = OutOfBounds" for p s
    by (induction p s rule: prefix_at.induct) (auto split: if_splits)
  show "strstr p s = Inl e \<Longrightarrow> e = OutOfBounds"
    by (induction p s rule: strstr.induct) (auto simp: bindC_eq_Inl dest: p split: if_splits)
  show "mix_case_loop i k q = Inl e \<Longrightarrow> e = OutOfBounds"
    by (induction i k q rule: mix_case_loop.induct) (auto simp: bindC_eq_Inl split: if_splits)
qed

lemma hm_mixedcase_fault: "hm_mixedcase off b = Inl e \<Longrightarrow> e = OutOfBounds"
  by (auto simp: hm_mixedcase_def edit_at_def mix_case_deref bindC_eq_Inl bindC_eq_Inr
      dest: strlike_faults split: option.splits if_splits)

lemma hm_additional_space_oob:
  assumes "length b = unat n" and "off + 7 \<le> length b"
  shows "hm_additional_space off n b = Inl OutOfBounds"
proof -
  have "unat (n - of_nat off - 7) = length b - off - 7"
  proof -
    have "n = of_nat (length b)" using assms(1) by simp
    then have "n - of_nat off - 7 = of_nat (length b - off - 7)" using assms(2) by simp
    moreover have "length b - off - 7 < 2 ^ 64" using assms(1) unsigned_less [of n, where ?'a = nat] by simp
    ultimately show ?thesis by (simp only: unat_size)
  qed
  then show ?thesis using assms(2) by (simp add: hm_additional_space_def slice_def blit_def wr_def)
qed

text \<open>
  With \<open>additional_space\<close> set, \<open>modify_http_headers\<close> writes past the payload on every packet that has a
  Host header, whatever the other options are: the payload block has no spare byte.
\<close>

theorem header_mangle_overflows:
  assumes "p_payload p = Some b" and "length b = unat (p_payload_len p)"
    and "strstr b host_literal = Inr (Some off)" and "cfg_additional_space config"
  shows "modify_http_headers config p = Inl OutOfBounds"
proof -
  have off: "off + 7 \<le> length b" "take 7 (drop off b) = host_literal"
    using strstr_Some [OF assms(3)] by simp_all
  have n: "7 \<le> p_payload_len p" using off assms(2) by (simp add: word_le_nat_alt)
  show ?thesis
  proof (cases "if cfg_host_mixedcase config then hm_mixedcase off b else Inr b")
    case (Inl e)
    then have "e = OutOfBounds" by (auto dest: hm_mixedcase_fault split: if_splits)
    then show ?thesis using Inl assms by (simp add: modify_http_headers_def Let_def)
  next
    case (Inr b1)
    then have b1: "length b1 = length b" "take (off + 7) b1 = take (off + 7) b"
      using hm_mixedcase_frame [of off b b1] by (auto split: if_splits)
    then have "take 7 (drop off b1) = host_literal" using off(2) by (simp add: take_drop add.commute)
    then have "prefix_at (drop off b1) host_literal = Inr True"
      using off(1) b1(1) by (simp add: prefix_at_True)
    moreover have "hm_additional_space off (p_payload_len p) b1 = Inl OutOfBounds"
      using assms(2) b1(1) off(1) by (intro hm_additional_space_oob) simp_all
    ultimately show ?thesis using Inr assms n by (simp add: modify_http_headers_def Let_def)
  qed
qed

theorem header_mangle_overflows_witness:
  "modify_http_headers (config_defaults\<lparr>cfg_additional_space := True\<rparr>)
     (packet_zero\<lparr>p_payload := Some (host_literal @ [13, 10]), p_payload_len := 9\<rparr>) = Inl OutOfBounds"
  by (rule header_mangle_overflows [of _ "host_literal @ [13, 10]" 0])
    (simp_all add: host_literal_def lit_def prefix_at_True)

section \<open>Properties: fake packets\<close>

text \<open>
  As long as the raw sockets are not set up (no code of the program calls \<open>setup_raw_socket\<close>) fake packet
  injection sends nothing, and it reports success only for a packet without stored headers.
\<close>

theorem inject_without_sockets:
  assumes "raw_socket_fd rs < 0" and "raw_socket_ipv6_fd rs < 0" and "unat (p_headers_len p) < 2 ^ 63"
    and "evasion_inject_fake_packet malloc send_result config (Some p) rs = Inr (rc, rs')"
  shows "rs' = rs \<and> (rc = 0 \<longrightarrow> p_headers_len p = 0)"
proof -
  have "0 < p_headers_len p + 64" using assms(3) by (simp add: word_less_nat_alt unat_word_ariths)
  then show ?thesis
    using assms(4) unfolding evasion_inject_fake_packet_def create_fake_reset_packet_def create_fake_dns_response_def
    by (cases "copy_headers p")
      (auto simp: Let_def send_raw_unset [OF assms(1,2)] word_gt_0 split: if_splits)
qed

text \<open>A packet whose stored headers are complete.\<close>

lemma copy_headers_wf:
  "packet_wf p \<Longrightarrow> p_headers p = Some h \<Longrightarrow> copy_headers p = Inr h"
  by (auto simp: copy_headers_def packet_wf_def slice_def unat_eq_zero [symmetric])

text \<open>
  With the sockets open, the fake packet of a TCP segment without data is a byte for byte copy of its
  IP and TCP headers: no RST flag is set.  For every TCP segment with data nothing is sent and the
  injection fails.
\<close>

theorem inject_copies_headers:
  assumes "packet_wf p" and "p_headers p = Some h" and "h \<noteq> []" and "is_raw_socket_ready rs"
    and "\<forall>fd k. send_result fd k = int k" and "\<forall>n. malloc n" and "cfg_fake_packet config"
  shows "(p_type p = PACKET_IPV4_TCP \<or> p_type p = PACKET_IPV6_TCP \<longrightarrow>
      evasion_inject_fake_packet malloc send_result config (Some p) rs =
        Inr (0, rs\<lparr>rs_sent := rs_sent rs @ [(p_is_ipv6 p, h)]\<rparr>)) \<and>
    (p_type p = PACKET_IPV4_TCP_DATA \<or> p_type p = PACKET_IPV6_TCP_DATA \<longrightarrow>
      evasion_inject_fake_packet malloc send_result config (Some p) rs = Inr (-1, rs))"
proof -
  have l: "length h = unat (p_headers_len p)" using assms(1,2) by (simp add: packet_wf_def)
  then have "0 < p_headers_len p" using assms(3) by (auto simp: word_gt_0)
  then show ?thesis
    using assms send_raw_complete [OF assms(4) l, of send_result "p_is_ipv6 p"]
    by (auto simp: evasion_inject_fake_packet_def create_fake_reset_packet_def copy_headers_wf)
qed

theorem inject_copies_headers_witness:
  "evasion_inject_fake_packet (\<lambda>n. True) (\<lambda>fd k. int k) (config_defaults\<lparr>cfg_fake_packet := True\<rparr>)
     (Some (packet_zero\<lparr>p_type := PACKET_IPV4_TCP, p_headers := Some [0x45, 0], p_headers_len := 2\<rparr>))
     (raw_state0\<lparr>raw_socket_fd := 5, raw_socket_ipv6_fd := 6\<rparr>) =
   Inr (0, raw_state0\<lparr>raw_socket_fd := 5, raw_socket_ipv6_fd := 6, rs_sent := [(False, [0x45, 0])]\<rparr>)"
  using inject_copies_headers [of "packet_zero\<lparr>p_type := PACKET_IPV4_TCP, p_headers := Some [0x45, 0], p_headers_len := 2\<rparr>"
      "[0x45, 0]" "raw_state0\<lparr>raw_socket_fd := 5, raw_socket_ipv6_fd := 6\<rparr>" "\<lambda>fd k. int k" "\<lambda>n. True"
      "config_defaults\<lparr>cfg_fake_packet := True\<rparr>"]
  by (simp add: packet_wf_def is_raw_socket_ready_def packet_zero_def raw_state0_def)

theorem inject_without_sockets_witness:
  "fst (projr (evasion_inject_fake_packet (\<lambda>n. True) (\<lambda>fd k. int k) (config_defaults\<lparr>cfg_fake_packet := True\<rparr>)
     (Some (packet_zero\<lparr>p_type := PACKET_IPV6_TCP\<rparr>)) raw_state0)) = 0 \<and>
   snd (projr (evasion_inject_fake_packet (\<lambda>n. True) (\<lambda>fd k. int k) (config_defaults\<lparr>cfg_fake_packet := True\<rparr>)
     (Some (packet_zero\<lparr>p_type := PACKET_IPV6_TCP\<rparr>)) raw_state0)) = raw_state0"
proof -
  let ?p = "packet_zero\<lparr>p_type := PACKET_IPV6_TCP\<rparr>" and ?c = "config_defaults\<lparr>cfg_fake_packet := True\<rparr>"
  have e: "evasion_inject_fake_packet (\<lambda>n. True) (\<lambda>fd k. int k) ?c (Some ?p) raw_state0 = Inr (0, raw_state0)"
    by (simp add: evasion_inject_fake_packet_def create_fake_reset_packet_def copy_headers_def packet_zero_def)
  with inject_without_sockets [OF _ _ _ e] show ?thesis
    by (simp add: raw_state0_def packet_zero_def)
qed

text \<open>A packet whose header block could not be allocated keeps a non-zero \<open>headers_len\<close> with a null pointer,
  and the fake packet code follows the null pointer.\<close>

lemma inject_null_headers:
  assumes "p_type p = PACKET_IPV4_TCP" and "p_headers p = None" and "p_headers_len p \<noteq> 0"
    and "cfg_fake_packet config" and "malloc (p_headers_len p)"
  shows "evasion_inject_fake_packet malloc send_result config (Some p) rs = Inl NullDeref"
  using assms by (simp add: evasion_inject_fake_packet_def create_fake_reset_packet_def copy_headers_def)

lemma fake_packets_prefix:
  assumes "packet_wf p" and "p_headers p = Some h" and "\<forall>n. malloc n"
  shows "create_fake_http_response malloc (Some p) =
      Inr (0, Some (h @ fake_response), p_headers_len p + of_nat (length fake_response))"
    and "create_fake_dns_response malloc (Some p) = Inr (0, Some (h @ fake_dns), p_headers_len p + 64)"
  using assms by (simp_all add: create_fake_http_response_def create_fake_dns_response_def copy_headers_wf)

end
