(* ===== verification/Sni.thy ===== *)
theory Sni
  imports Packet
begin

text \<open>
  \<open>src/evasion/sni_extractor.c\<close>: extraction of the server name from a TLS ClientHello.  The pointer \<open>data\<close>
  is an offset into \<open>tls_data\<close>, \<open>data_len\<close> a \<open>size_t\<close> whose subtractions wrap.  The two header structs
  are laid out as x86-64 does: \<open>tls_record_header_t\<close> takes 6 bytes with \<open>version\<close> at offset 2 (one
  byte of padding), \<open>tls_handshake_header_t\<close> 6 bytes; 16-bit fields are read in host order.
\<close>

section \<open>Definitions\<close>

definition sizeof_record_header :: nat where "sizeof_record_header = 6"
definition sizeof_handshake_header :: nat where "sizeof_handshake_header = 6"
definition MAX_HOSTNAME_LEN :: nat where "MAX_HOSTNAME_LEN = 256"

text \<open>\<open>parse_sni_extension\<close>; \<open>hostname\<close> is the caller's buffer.\<close>

definition parse_sni_extension :: "bytes option \<Rightarrow> size_t \<Rightarrow> bytes option \<Rightarrow> size_t \<Rightarrow> (int \<times> bytes option) cres" where
  "parse_sni_extension ext_data ext_len hostname hostname_len =
     (case (ext_data, hostname) of
        (Some d, Some h) \<Rightarrow>
          if ext_len < 5 \<or> hostname_len = 0 then Inr (-1, hostname)
          else if ext_len - 2 < 3 then Inr (-1, hostname)
          else bindC (rd d 2) (\<lambda>name_type.
            if name_type \<noteq> 0 then Inr (-1, hostname)
            else bindC (rd16be d 3) (\<lambda>name_len.
              let data_len = ext_len - 2 - 3 in
              if data_len < ucast name_len \<or> hostname_len \<le> ucast name_len then Inr (-1, hostname)
              else bindC (slice d 5 (unat name_len)) (\<lambda>name.
                   bindC (blit h 0 name) (\<lambda>h1.
                   bindC (wr h1 (unat name_len) 0) (\<lambda>h2. Inr (0, Some h2))))))
      | _ \<Rightarrow> Inr (-1, hostname))"

text \<open>Skipping a vector with a one byte, and with a two byte, length; \<open>None\<close> is the \<open>return -1\<close> of the
  length test before it.\<close>

definition skip8 :: "bytes \<Rightarrow> nat \<Rightarrow> size_t \<Rightarrow> (nat \<times> size_t) option cres" where
  "skip8 tls data data_len =
     (if data_len < 1 then Inr None
      else bindC (rd tls data) (\<lambda>l. Inr (Some (data + (1 + unat l), data_len - (1 + ucast l)))))"

definition skip16 :: "bytes \<Rightarrow> nat \<Rightarrow> size_t \<Rightarrow> (nat \<times> size_t) option cres" where
  "skip16 tls data data_len =
     (if data_len < 2 then Inr None
      else bindC (rd16be tls data) (\<lambda>l. Inr (Some (data + (2 + unat l), data_len - (2 + ucast l)))))"

text \<open>The extension loop.\<close>

function sni_ext_loop :: "bytes \<Rightarrow> nat \<Rightarrow> nat \<Rightarrow> bytes \<Rightarrow> size_t \<Rightarrow> (int \<times> bytes option) cres" where
  "sni_ext_loop tls data extensions_end h hlen =
     (if extensions_end \<le> data then Inr (-1, Some h)
      else if extensions_end < data + 4 then Inr (-1, Some h)
      else bindC (rd16be tls data) (\<lambda>ext_type. bindC (rd16be tls (data + 2)) (\<lambda>ext_len.
           if extensions_end < data + 4 + unat ext_len then Inr (-1, Some h)
           else if ext_type = 0
           then parse_sni_extension (Some (drop (data + 4) tls)) (ucast ext_len) (Some h) hlen
           else sni_ext_loop tls (data + 4 + unat ext_len) extensions_end h hlen)))"
  by pat_completeness auto
termination
  by (relation "measure (\<lambda>(tls, data, e, h, n). e - data)") auto

declare sni_ext_loop.simps [simp del]

text \<open>From the session id on; \<open>data\<close> and \<open>data_len\<close> stand after the handshake header.\<close>

definition sni_client_hello :: "bytes \<Rightarrow> nat \<Rightarrow> size_t \<Rightarrow> bytes \<Rightarrow> size_t \<Rightarrow> (int \<times> bytes option) cres" where
  "sni_client_hello tls data data_len h hlen =
     bindC (skip8 tls data data_len) (\<lambda>r1. case r1 of None \<Rightarrow> Inr (-1, Some h) | Some (d1, n1) \<Rightarrow>
     bindC (skip16 tls d1 n1) (\<lambda>r2. case r2 of None \<Rightarrow> Inr (-1, Some h) | Some (d2, n2) \<Rightarrow>
     bindC (skip8 tls d2 n2) (\<lambda>r3. case r3 of None \<Rightarrow> Inr (-1, Some h) | Some (d3, n3) \<Rightarrow>
       if n3 < 2 then Inr (-1, Some h)
       else bindC (rd16be tls d3) (\<lambda>extensions_len.
         if n3 - 2 < ucast extensions_len then Inr (-1, Some h)
         else sni_ext_loop tls (d3 + 2) (d3 + 2 + unat extensions_len) h hlen))))"

definition evasion_extract_sni :: "bytes option \<Rightarrow> size_t \<Rightarrow> bytes option \<Rightarrow> size_t \<Rightarrow> (int \<times> bytes option) cres" where
  "evasion_extract_sni tls_data tls_len hostname hostname_len =
     (case (tls_data, hostname) of
        (Some tls, Some h) \<Rightarrow>
          if tls_len < 5 \<or> hostname_len = 0 then Inr (-1, hostname)
          else if tls_len < of_nat sizeof_record_header then Inr (-1, hostname)
          else bindC (rd tls 0) (\<lambda>rtype.
            if rtype \<noteq> 0x16 then Inr (-1, hostname)
            else bindC (rd16le tls 2) (\<lambda>version.
              if version \<noteq> 0x0301 \<and> version \<noteq> 0x0303 then Inr (-1, hostname)
              else let data_len = tls_len - of_nat sizeof_record_header in
              if data_len < of_nat sizeof_handshake_header then Inr (-1, hostname)
              else bindC (rd tls 6) (\<lambda>htype.
                if htype \<noteq> 0x01 then Inr (-1, hostname)
                else bindC (rd tls 7) (\<lambda>l0. bindC (rd tls 8) (\<lambda>l1. bindC (rd tls 9) (\<lambda>l2.
                  let handshake_len = be32 0 l0 l1 l2;
                      data_len = data_len - of_nat sizeof_handshake_header
                  in if data_len < ucast handshake_len then Inr (-1, hostname)
                     else sni_client_hello tls 12 data_len h hostname_len))))))
      | _ \<Rightarrow> Inr (-1, hostname))"

text \<open>The three list checks of \<open>should_process_by_sni\<close> only log that they are not implemented.\<close>

definition should_process_by_sni :: "packet_t option \<Rightarrow> bytes option \<Rightarrow> size_t \<Rightarrow> (int \<times> bytes option) cres" where
  "should_process_by_sni packet hostname hostname_len =
     (case (packet, hostname) of
        (Some p, Some h) \<Rightarrow>
          if p_type p \<noteq> PACKET_IPV4_TCP_DATA \<and> p_type p \<noteq> PACKET_IPV6_TCP_DATA then Inr (0, hostname)
          else if (p_dst_port p \<noteq> 443 \<and> p_src_port p \<noteq> 443) \<or> p_payload p = None then Inr (0, hostname)
          else bindC (evasion_extract_sni (p_payload p) (p_payload_len p) hostname hostname_len) (\<lambda>(rc, h').
            if rc \<noteq> 0 then Inr (0, h') else Inr (1, h'))
      | _ \<Rightarrow> Inr (0, hostname))"

text \<open>\<open>block\<close>: what \<open>malloc (MAX_HOSTNAME_LEN)\<close> returns, with whatever it contains.\<close>

definition extract_sni_from_packet :: "bytes option \<Rightarrow> packet_t option \<Rightarrow> bytes option cres" where
  "extract_sni_from_packet block packet =
     (case packet of None \<Rightarrow> Inr None
      | Some p \<Rightarrow>
          if p_payload p = None \<or> p_payload_len p < 5 then Inr None
          else if block = None then Inr None
          else bindC (evasion_extract_sni (p_payload p) (p_payload_len p) block (of_nat MAX_HOSTNAME_LEN))
            (\<lambda>(rc, h). Inr (if rc = 0 then h else None)))"

section \<open>Properties\<close>

lemma okC_parse_sni:
  assumes "unat n \<le> length d" and "unat hlen \<le> length h"
  shows "okC (parse_sni_extension (Some d) n (Some h) hlen)
    (\<lambda>(rc, r). \<exists>h'. r = Some h' \<and> length h' = length h \<and>
       (if rc = 0
        then 5 \<le> unat n \<and> d ! 2 = 0 \<and> unat (be16 (d ! 3) (d ! 4)) < unat hlen \<and>
             h' = take (unat (be16 (d ! 3) (d ! 4))) (drop 5 d) @ 0 # drop (unat (be16 (d ! 3) (d ! 4)) + 1) h
        else rc = -1 \<and> h' = h))"
proof (cases "unat n < 5")
  case True
  then show ?thesis by (simp add: parse_sni_extension_def word_less_nat_alt)
next
  case False
  have n: "unat (n - 5) = unat n - 5" "unat (n - 2) = unat n - 2"
    using False by (simp_all add: unat_sub_if')
  have u: "(take k (drop 5 d) @ drop k h)[k := 0] = take k (drop 5 d) @ 0 # drop (Suc k) h"
    if "k < length h" "k + 5 \<le> length d" for k
    using that by (simp add: list_update_append Cons_nth_drop_Suc [symmetric])
  show ?thesis
  proof (cases "unat (be16 (d ! 3) (d ! 4)) \<le> unat n - 5 \<and> unat (be16 (d ! 3) (d ! 4)) < unat hlen")
    case True
    then have "unat (be16 (d ! 3) (d ! 4)) + 5 \<le> length d" "unat (be16 (d ! 3) (d ! 4)) < length h"
      "min (length d - 5) (unat (be16 (d ! 3) (d ! 4))) = unat (be16 (d ! 3) (d ! 4))"
      "Suc (length h - Suc 0) = length h"
      using False assms by linarith+
    then show ?thesis
      using True False assms u [of "unat (be16 (d ! 3) (d ! 4))"]
      by (simp add: parse_sni_extension_def Let_def wp word_less_nat_alt word_le_nat_alt unat_ucast_size n)
  next
    case C: False
    then show ?thesis
      using False assms
      by (auto simp: parse_sni_extension_def Let_def wp word_less_nat_alt word_le_nat_alt unat_ucast_size n)
  qed
qed

text \<open>What every outcome leaves in the caller's buffer: on success a NUL terminated name, otherwise
  the buffer as it was.\<close>

definition sni_post :: "bytes \<Rightarrow> int \<times> bytes option \<Rightarrow> bool" where
  "sni_post h r \<longleftrightarrow> (\<exists>h'. snd r = Some h' \<and> length h' = length h \<and>
     (if fst r = 0 then 0 \<in> set h' else fst r = -1 \<and> h' = h))"

lemma sni_post_fail [simp]: "sni_post h (-1, Some h)"
  by (simp add: sni_post_def)

lemma okC_parse_sni_post:
  "unat n \<le> length d \<Longrightarrow> unat hlen \<le> length h \<Longrightarrow>
   okC (parse_sni_extension (Some d) n (Some h) hlen) (sni_post h)"
  by (rule okC_mono [OF okC_parse_sni]) (auto simp: sni_post_def split: if_splits)

lemma okC_sni_ext_loop:
  "e \<le> length tls \<Longrightarrow> unat hlen \<le> length h \<Longrightarrow> okC (sni_ext_loop tls data e h hlen) (sni_post h)"
proof (induction tls data e h hlen rule: sni_ext_loop.induct)
  case (1 tls data e h hlen)
  show ?case
  proof (cases "e < data + 4")
    case True
    then show ?thesis by (simp add: sni_ext_loop.simps [of tls data e])
  next
    case F: False
    let ?t = "be16 (tls ! data) (tls ! (data + 1))" and ?l = "be16 (tls ! (data + 2)) (tls ! (data + 3))"
    have r: "rd16be tls data = Inr ?t" "rd16be tls (data + 2) = Inr ?l"
      using F 1(2) by (simp_all add: rd16be_Inr numeral_eq_Suc)
    show ?thesis
    proof (cases "e < data + 4 + unat ?l \<or> ?t = 0")
      case True
      have "unat (ucast ?l :: size_t) \<le> length (drop (data + 4) tls)" if "\<not> e < data + 4 + unat ?l"
        unfolding unat_ucast_size using that 1(2) by simp
      then show ?thesis using True F 1(3) unfolding sni_ext_loop.simps [of tls data e] r
        by (auto intro!: okC_parse_sni_post)
    next
      case C: False
      then have "okC (sni_ext_loop tls (data + 4 + unat ?l) e h hlen) (sni_post h)"
        using F r 1 by auto
      then show ?thesis using C F unfolding sni_ext_loop.simps [of tls data e] r by simp
    qed
  qed
qed

text \<open>The three vectors in front of the extensions lie inside the data.\<close>

definition hello_fits :: "bytes \<Rightarrow> nat \<Rightarrow> bool" where
  "hello_fits tls d0 \<longleftrightarrow>
     (d0 < length tls \<longrightarrow> (let d1 = d0 + 1 + unat (tls ! d0) in
        d1 \<le> length tls \<and>
        (d1 + 2 \<le> length tls \<longrightarrow> (let d2 = d1 + 2 + unat (be16 (tls ! d1) (tls ! (d1 + 1))) in
           d2 \<le> length tls \<and> (d2 < length tls \<longrightarrow> d2 + 1 + unat (tls ! d2) \<le> length tls)))))"

text \<open>What is left after \<open>d\<close> bytes of \<open>n\<close>, as the \<open>size_t\<close> subtractions compute it.\<close>

definition left :: "nat \<Rightarrow> nat \<Rightarrow> size_t" where
  "left n d = of_nat n - of_nat d"

lemma left_ge: "d \<le> n \<Longrightarrow> n < 2 ^ 63 \<Longrightarrow> unat (left n d) = n - d"
  by (simp add: left_def unat_size flip: of_nat_diff)

lemma left_wrap: "n < d \<Longrightarrow> d < 2 ^ 62 \<Longrightarrow> 2 ^ 62 < unat (left n d)"
  by (simp add: left_def unat_sub_if' unat_of_nat)

lemma left_step: "left n d - (1 + ucast (b :: u8)) = left n (d + 1 + unat b)"
  "left n d - (2 + ucast (w :: u16)) = left n (d + 2 + unat w)"
  by (simp_all add: left_def)

lemma skip8_left:
  assumes "length tls < 2 ^ 32" and "d \<le> length tls"
  shows "skip8 tls d (left (length tls) d) =
     Inr (if d = length tls then None
          else Some (d + 1 + unat (tls ! d), left (length tls) (d + 1 + unat (tls ! d))))"
  using assms left_ge [of d "length tls"]
  by (auto simp: skip8_def word_less_nat_alt rd_Inr left_step)

lemma skip16_left:
  assumes "length tls < 2 ^ 32" and "d \<le> length tls"
  shows "skip16 tls d (left (length tls) d) =
     (let l = unat (be16 (tls ! d) (tls ! (d + 1))) in
      Inr (if length tls < d + 2 then None else Some (d + 2 + l, left (length tls) (d + 2 + l))))"
  using assms left_ge [of d "length tls"]
  by (auto simp: skip16_def word_less_nat_alt rd16be_Inr left_step Let_def)

lemma skip_past:
  assumes "length tls < d" and "d < 2 ^ 62"
  shows "skip8 tls d (left (length tls) d) = Inl OutOfBounds"
    and "skip16 tls d (left (length tls) d) = Inl OutOfBounds"
    and "\<not> left (length tls) d < 2"
  using assms left_wrap [of "length tls" d]
  by (auto simp: skip8_def skip16_def word_less_nat_alt rd_oob rd16be_oob)

text \<open>A computation that returns a value with \<open>P\<close> when \<open>safe\<close> holds and leaves its buffer otherwise.\<close>

definition exactly_safe :: "bool \<Rightarrow> 'a cres \<Rightarrow> ('a \<Rightarrow> bool) \<Rightarrow> bool" where
  "exactly_safe safe m P \<longleftrightarrow> (if safe then okC m P else m = Inl OutOfBounds)"

text \<open>After the three vectors.\<close>

lemma sni_extensions_safe:
  assumes "length tls < 2 ^ 32" and "unat hlen \<le> length h" and "d < 2 ^ 62"
  shows "exactly_safe (d \<le> length tls) (if left (length tls) d < 2 then Inr (-1, Some h)
       else bindC (rd16be tls d) (\<lambda>extensions_len.
         if left (length tls) d - 2 < ucast extensions_len then Inr (-1, Some h)
         else sni_ext_loop tls (d + 2) (d + 2 + unat extensions_len) h hlen)) (sni_post h)"
proof (cases "d \<le> length tls")
  case True
  note u = left_ge [OF True]
  show ?thesis
  proof (cases "length tls < d + 2")
    case False
    then have "unat (left (length tls) d - 2) = length tls - d - 2"
      using u assms(1) by (simp add: unat_sub_if')
    then have "okC (sni_ext_loop tls (d + 2) (d + 2 + unat x) h hlen) (sni_post h)"
      if "\<not> left (length tls) d - 2 < ucast x" for x :: u16
      using that False assms(2) by (intro okC_sni_ext_loop) (auto simp: word_less_nat_alt unat_ucast_size)
    then show ?thesis using False True by (simp add: rd16be_Inr exactly_safe_def)
  qed (use u True assms(1) in \<open>auto simp: word_less_nat_alt exactly_safe_def\<close>)
next
  case False
  then show ?thesis using skip_past [of tls d] assms(3) by (simp add: rd16be_oob exactly_safe_def)
qed

lemma sni_client_hello_safe_iff:
  assumes n: "length tls < 2 ^ 32" and "unat hlen \<le> length h" and "d0 \<le> length tls"
  shows "exactly_safe (hello_fits tls d0) (sni_client_hello tls d0 (left (length tls) d0) h hlen) (sni_post h)"
proof -
  define d1 where "d1 = d0 + 1 + unat (tls ! d0)"
  define d2 where "d2 = d1 + 2 + unat (be16 (tls ! d1) (tls ! (d1 + 1)))"
  define d3 where "d3 = d2 + 1 + unat (tls ! d2)"
  have b: "d1 < 2 ^ 62" "d2 < 2 ^ 62" "d3 < 2 ^ 62" if "d0 \<le> length tls"
    using n that unat_u8_le [of "tls ! d0"] unat_u8_le [of "tls ! d2"]
      unat_u16_le [of "be16 (tls ! d1) (tls ! (d1 + 1))"] by (simp_all add: d1_def d2_def d3_def)
  note b = b [OF assms(3)]
  note e = sni_extensions_safe [OF assms(1,2)]
  have hf: "hello_fits tls d0 \<longleftrightarrow> (d0 < length tls \<longrightarrow> d1 \<le> length tls \<and>
      (d1 + 2 \<le> length tls \<longrightarrow> d2 \<le> length tls \<and> (d2 < length tls \<longrightarrow> d3 \<le> length tls)))"
    by (simp only: hello_fits_def Let_def d1_def d2_def d3_def)
  have s1: "skip8 tls d0 (left (length tls) d0) =
      Inr (if d0 = length tls then None else Some (d1, left (length tls) d1))"
    unfolding d1_def by (rule skip8_left [OF n assms(3)])
  have s2: "skip16 tls d1 (left (length tls) d1) =
      (if length tls < d1 then Inl OutOfBounds
       else Inr (if length tls < d1 + 2 then None else Some (d2, left (length tls) d2)))"
    using skip16_left [OF n, of d1] skip_past(2) [OF _ b(1)] unfolding d2_def Let_def by simp
  have s3: "skip8 tls d2 (left (length tls) d2) =
      (if length tls < d2 then Inl OutOfBounds
       else Inr (if d2 = length tls then None else Some (d3, left (length tls) d3)))"
    using skip8_left [OF n, of d2] skip_past(1) [OF _ b(2)] unfolding d3_def by simp
  show ?thesis
    unfolding sni_client_hello_def hf s1
    by (cases "d0 = length tls"; cases "length tls < d1"; cases "length tls < d1 + 2")
      (use assms(3) e [OF b(3)] in \<open>auto simp: s2 s3 exactly_safe_def\<close>)
qed

text \<open>The tests in front of the ClientHello body: all of them look at the first twelve bytes.\<close>

definition hello_header :: "bytes \<Rightarrow> bool" where
  "hello_header tls \<longleftrightarrow>
     12 \<le> length tls \<and> tls ! 0 = 0x16 \<and> le16 (tls ! 2) (tls ! 3) \<in> {0x0301, 0x0303} \<and> tls ! 6 = 1 \<and>
     unat (be32 0 (tls ! 7) (tls ! 8) (tls ! 9)) \<le> length tls - 12"

lemma extract_sni_header:
  assumes "length tls = unat n" and "length tls < 2 ^ 32" and "hlen \<noteq> 0"
  shows "evasion_extract_sni (Some tls) n (Some h) hlen =
    (if hello_header tls then sni_client_hello tls 12 (left (length tls) 12) h hlen
     else Inr (-1, Some h))"
proof (cases "12 \<le> length tls")
  case True
  have u: "unat (n - 6) = length tls - 6" "unat (n - 12) = length tls - 12"
    using True assms(1) by (simp_all add: unat_sub_if')
  have l: "left (unat n) 12 = n - 12" by (simp add: left_def)
  have "\<not> unat n - 6 < 6" using True assms(1) by simp
  moreover have "unat (ucast (be32 0 a b c) :: size_t) = unat (be32 0 a b c)" for a b c
    by (simp add: unsigned_ucast_eq take_bit_nat_eq_self
        order.strict_trans1 [OF less_imp_le [OF unsigned_less]])
  ultimately show ?thesis
    using True assms
    unfolding evasion_extract_sni_def hello_header_def sizeof_record_header_def sizeof_handshake_header_def
    by (simp add: rd_Inr rd16le_Inr word_less_nat_alt u l not_less)
next
  case False
  then have h: "\<not> hello_header tls" by (simp add: hello_header_def)
  show ?thesis
  proof (cases "length tls < 6")
    case True
    then show ?thesis using assms h
      by (simp add: evasion_extract_sni_def word_less_nat_alt sizeof_record_header_def)
  next
    case C: False
    then have "unat (n - 6) = length tls - 6" using assms(1) by (simp add: unat_sub_if')
    moreover have "length tls - 6 < 6" using False by simp
    ultimately show ?thesis using assms h C
      by (simp add: evasion_extract_sni_def word_less_nat_alt sizeof_record_header_def
          sizeof_handshake_header_def rd_Inr rd16le_Inr)
  qed
qed

text \<open>
  C20. \<open>evasion_extract_sni\<close> is memory safe on a record exactly when the record is rejected by the header
  tests or its session id, cipher suite and compression vectors lie inside it.  Every safe run either
  leaves the caller's buffer alone and returns -1 or leaves a NUL terminated name in it; on every other record the
  function reads outside the record, because \<open>data_len\<close> is checked only after each subtraction, where it has
  already wrapped.
\<close>

theorem extract_sni_safe_iff:
  assumes "length tls = unat n" and "length tls < 2 ^ 32" and "hlen \<noteq> 0" and "unat hlen \<le> length h"
  shows "if hello_header tls \<and> \<not> hello_fits tls 12
    then evasion_extract_sni (Some tls) n (Some h) hlen = Inl OutOfBounds
    else okC (evasion_extract_sni (Some tls) n (Some h) hlen) (sni_post h)"
proof (cases "hello_header tls")
  case True
  then have "12 \<le> length tls" by (simp add: hello_header_def)
  then show ?thesis
    using extract_sni_header [OF assms(1-3)] sni_client_hello_safe_iff [OF assms(2,4)] True
    by (auto simp: exactly_safe_def)
qed (use extract_sni_header [OF assms(1-3)] in simp)

theorem extract_sni_safe_iff_witness:
  "okC (evasion_extract_sni (Some ([0x16, 0, 1, 3, 0, 0, 1, 0, 0, 0, 3, 3, 0, 0, 0, 0, 0, 0])) 18
      (Some (replicate 256 0)) 256) (sni_post (replicate 256 0)) \<and>
   evasion_extract_sni (Some ([0x16, 0, 1, 3, 0, 0, 1, 0, 0, 0, 3, 3, 5])) 13 (Some (replicate 256 0)) 256 =
     Inl OutOfBounds"
  using extract_sni_safe_iff [of "[0x16, 0, 1, 3, 0, 0, 1, 0, 0, 0, 3, 3, 0, 0, 0, 0, 0, 0]" 18 256 "replicate 256 0"]
    extract_sni_safe_iff [of "[0x16, 0, 1, 3, 0, 0, 1, 0, 0, 0, 3, 3, 5]" 13 256 "replicate 256 0"]
  by (simp add: hello_header_def hello_fits_def le16_def be16_def be32_def Let_def)

section \<open>Real and expected ClientHello layouts\<close>

definition enc16 :: "nat \<Rightarrow> bytes" where
  "enc16 n = [byte_of 1 (of_nat n :: u16), byte_of 0 (of_nat n :: u16)]"

lemma enc16_length [simp]: "length (enc16 n) = 2"
  by (simp add: enc16_def)

lemma be16_enc16: "unat (be16 (byte_of (Suc 0) (of_nat n :: u16)) (byte_of 0 (of_nat n :: u16))) = n mod 65536"
  using le16_bytes [of "of_nat n"] by (simp add: le16_def unat_of_nat)

text \<open>A handshake record as RFC 5246 lays it out: type, two byte version, two byte length, then the
  ClientHello with its type and three byte length.\<close>

definition tls_client_hello :: "u8 \<Rightarrow> bytes \<Rightarrow> bytes" where
  "tls_client_hello minor body =
     [0x16, 0x03, minor] @ enc16 (length body + 4) @
     [0x01, byte_of 2 (of_nat (length body) :: u32)] @ enc16 (length body) @ body"

text \<open>
  No ClientHello that fits a TLS record is ever recognised: the padding the compiler puts into
  \<open>tls_record_header_t\<close> makes the code look for the handshake type at byte 6, which is the high byte of
  the handshake length and zero.
\<close>

theorem real_client_hello_rejected:
  assumes "length body + 4 < 65536"
  shows "evasion_extract_sni (Some (tls_client_hello minor body))
      (of_nat (length (tls_client_hello minor body))) (Some h) hlen = Inr (-1, Some h)"
proof (cases "hlen = 0")
  case True
  then show ?thesis by (simp add: evasion_extract_sni_def)
next
  case False
  let ?t = "tls_client_hello minor body"
  have l: "length ?t = length body + 9" by (simp add: tls_client_hello_def)
  have "unat (of_nat (length body) :: u32) < 2 ^ 16" using assms by (simp add: unat_of_nat)
  then have "byte_of 2 (of_nat (length body) :: u32) = 0"
    by (simp add: byte_of_def word_unat_eq_iff unsigned_ucast_eq unsigned_drop_bit_eq drop_bit_eq_div take_bit_nat_eq_self unat_div)
  then have "\<not> hello_header ?t" by (simp add: hello_header_def tls_client_hello_def enc16_def)
  moreover have "length ?t < 2 ^ 32" using l assms by simp
  moreover from this have "length ?t = unat (of_nat (length ?t) :: size_t)" by (simp add: unat_size)
  ultimately show ?thesis using extract_sni_header [of ?t "of_nat (length ?t)" hlen h] False by simp
qed

theorem real_client_hello_rejected_witness:
  "evasion_extract_sni (Some (tls_client_hello 3 (replicate 200 0)))
     (of_nat (length (tls_client_hello 3 (replicate 200 0)))) (Some (replicate 256 0)) 256 =
   Inr (-1, Some (replicate 256 0))"
  by (rule real_client_hello_rejected) simp

definition enc_ext :: "u16 \<times> bytes \<Rightarrow> bytes" where
  "enc_ext e = (case e of (t, d) \<Rightarrow> [byte_of 1 t, byte_of 0 t] @ enc16 (length d) @ d)"

definition enc_sni :: "bytes \<Rightarrow> bytes" where
  "enc_sni name = enc16 (length name + 3) @ [0] @ enc16 (length name) @ name"

text \<open>The layout the code reads: six byte record header, six byte handshake header, no random.\<close>

definition code_header :: bytes where
  "code_header = [0x16, 0, 1, 3, 0, 0, 1, 0, 0, 0, 3, 3]"

lemma code_header_length [simp]: "length code_header = 12"
  by (simp add: code_header_def)

definition code_hello :: "bytes \<Rightarrow> bytes \<Rightarrow> bytes \<Rightarrow> bytes \<Rightarrow> bytes" where
  "code_hello sid cs cm exts =
     code_header @ [of_nat (length sid)] @ sid @
     enc16 (length cs) @ cs @ [of_nat (length cm)] @ cm @ enc16 (length exts) @ exts"

lemma be16_bytes: "be16 (byte_of (Suc 0) w) (byte_of 0 w) = w"
  using le16_bytes [of w] by (simp add: le16_def)

lemma sni_ext_loop_skip:
  assumes "\<forall>e \<in> set pre. fst e \<noteq> 0 \<and> length (snd e) < 65536"
    and "tls = a @ concat (map enc_ext pre) @ b" and "length (a @ concat (map enc_ext pre)) \<le> e"
  shows "sni_ext_loop tls (length a) e h hlen =
         sni_ext_loop tls (length (a @ concat (map enc_ext pre))) e h hlen"
  using assms
proof (induction pre arbitrary: a)
  case (Cons x pre)
  obtain t d where x: "x = (t, d)" by (cases x)
  let ?a = "a @ enc_ext (t, d)"
  have r: "rd16be tls (length a) = Inr t" "rd16be tls (length a + 2) = Inr (of_nat (length d))"
    using Cons.prems(2) by (simp_all add: x enc_ext_def enc16_def rd16be_def rd_def nth_append be16_bytes)
  have d: "unat (of_nat (length d) :: u16) = length d" using Cons.prems(1) x by (simp add: unat_of_nat)
  have l: "length ?a = length a + 4 + length d" by (simp add: enc_ext_def)
  have "sni_ext_loop tls (length a) e h hlen = sni_ext_loop tls (length a + 4 + length d) e h hlen"
    using Cons.prems(1,3) l unfolding sni_ext_loop.simps [of tls "length a"] r
    by (simp add: x d)
  also have "\<dots> = sni_ext_loop tls (length (?a @ concat (map enc_ext pre))) e h hlen"
    using Cons.IH [of ?a] Cons.prems unfolding l [symmetric] by (simp add: x)
  finally show ?case by (simp add: x)
qed simp

lemma parse_sni_enc:
  assumes "length name < 65536" and "length name < unat hlen" and "unat hlen \<le> length h"
    and "unat n = length name + 5"
  shows "parse_sni_extension (Some (enc_sni name @ post)) n (Some h) hlen =
    Inr (0, Some (name @ 0 # drop (length name + 1) h))"
proof -
  let ?d = "enc_sni name @ post" and ?k = "of_nat (length name) :: u16"
  have k: "unat ?k = length name" using assms(1) by (simp add: unat_of_nat)
  have f: "rd ?d 2 = Inr 0" "rd16be ?d 3 = Inr ?k" "slice ?d 5 (length name) = Inr name"
    by (simp_all add: enc_sni_def enc16_def rd_def rd16be_def slice_def be16_bytes)
  have u: "unat (n - 2) = length name + 3" "unat (n - 5) = length name"
    using assms(4) by (simp_all add: unat_sub_if')
  have "wr (name @ drop (length name) h) (length name) 0 = Inr (name @ 0 # drop (length name + 1) h)"
    using assms by (simp add: wr_def list_update_append Cons_nth_drop_Suc [symmetric])
  moreover have "hlen \<noteq> 0" using assms(2) by auto
  ultimately show ?thesis
    using assms unfolding parse_sni_extension_def Let_def
    by (simp add: f u k word_less_nat_alt word_le_nat_alt unat_ucast_size blit_def)
qed

lemma skip8_enc:
  assumes "tls = a @ of_nat (length v) # v @ post" and "length v < 256" and "length tls < 2 ^ 32"
    and "k = length a"
  shows "skip8 tls k (left (length tls) k) = Inr (Some (k + 1 + length v, left (length tls) (k + 1 + length v)))"
  using skip8_left [OF assms(3), of k] assms by (simp add: unat_of_nat)

lemma skip16_enc:
  assumes "tls = a @ enc16 (length v) @ v @ post" and "length v < 65536" and "length tls < 2 ^ 32"
    and "k = length a"
  shows "skip16 tls k (left (length tls) k) = Inr (Some (k + 2 + length v, left (length tls) (k + 2 + length v)))"
proof -
  have "be16 (tls ! k) (tls ! (k + 1)) = of_nat (length v)"
    using assms(1,4) by (simp add: enc16_def nth_append be16_bytes)
  then show ?thesis using skip16_left [OF assms(3), of k] assms by (simp add: unat_of_nat Let_def)
qed

definition code_prefix :: "bytes \<Rightarrow> bytes \<Rightarrow> bytes \<Rightarrow> bytes \<Rightarrow> bytes" where
  "code_prefix sid cs cm exts =
     code_header @ [of_nat (length sid)] @ sid @
     enc16 (length cs) @ cs @ [of_nat (length cm)] @ cm @ enc16 (length exts)"

text \<open>On the expected layout the extension loop runs over exactly the extensions.\<close>

lemma extract_code_hello:
  assumes "length exts < 65536" and "length sid < 256" and "length cs < 65536" and "length cm < 256"
    and "hlen \<noteq> 0"
  shows "evasion_extract_sni (Some (code_hello sid cs cm exts)) (of_nat (length (code_hello sid cs cm exts)))
      (Some h) hlen =
    sni_ext_loop (code_hello sid cs cm exts) (length (code_prefix sid cs cm exts))
      (length (code_hello sid cs cm exts)) h hlen"
proof -
  define t where "t = code_hello sid cs cm exts"
  define b where "b = code_header @ of_nat (length sid) # sid"
  define c where "c = b @ enc16 (length cs) @ cs"
  define d where "d = c @ of_nat (length cm) # cm"
  have tb: "t = code_header @ of_nat (length sid) # sid @
      (enc16 (length cs) @ cs @ of_nat (length cm) # cm @ enc16 (length exts) @ exts)" "length b = 12 + 1 + length sid"
    by (simp_all add: t_def b_def code_hello_def)
  have tc: "t = b @ enc16 (length cs) @ cs @ (of_nat (length cm) # cm @ enc16 (length exts) @ exts)" "length c = length b + 2 + length cs"
    by (simp_all add: t_def c_def b_def code_hello_def)
  have td: "t = c @ of_nat (length cm) # cm @ (enc16 (length exts) @ exts)" "length d = length c + 1 + length cm"
    by (simp_all add: t_def d_def c_def b_def code_hello_def)
  have te: "t = d @ enc16 (length exts) @ exts"
    by (simp add: t_def d_def c_def b_def code_hello_def)
  then have n: "length t = length d + 2 + length exts" by (simp only: length_append enc16_length)
  have l: "length t < 2 ^ 32" using assms tb(2) tc(2) td(2) n by simp
  have h: "hello_header t" by (simp add: t_def hello_header_def code_hello_def code_header_def le16_def be16_def be32_def)
  note s1 = skip8_enc [OF tb(1) assms(2) l code_header_length [symmetric], folded tb(2)]
    and s2 = skip16_enc [OF tc(1) assms(3) l refl, folded tc(2)]
    and s3 = skip8_enc [OF td(1) assms(4) l refl, folded td(2)]
  have r: "rd16be t (length d) = Inr (of_nat (length exts))"
    unfolding te by (simp add: enc16_def rd16be_def rd_def nth_append be16_bytes)
  have "unat (left (length t) (length d)) = length exts + 2" using l by (subst left_ge) (simp_all add: n)
  then have lf: "\<not> left (length t) (length d) < 2"
    "\<not> left (length t) (length d) - 2 < ucast (of_nat (length exts) :: u16)"
    using assms(1) by (simp_all add: word_less_nat_alt unat_sub_if' unat_ucast_size unat_of_nat)
  have x: "unat (of_nat (length exts) :: u16) = length exts" using assms(1) by (simp add: unat_of_nat)
  have p: "length (code_prefix sid cs cm exts) = length d + 2"
    by (simp add: code_prefix_def d_def c_def b_def)
  have u: "length t = unat (of_nat (length t) :: size_t)" using l by (simp add: unat_size)
  show ?thesis
    unfolding t_def [symmetric] extract_sni_header [OF u l assms(5)] p sni_client_hello_def
    by (simp only: h if_True s1 s2 s3 bindC_simps option.case prod.case lf if_False r x n [symmetric])
qed

text \<open>
  C15. On the layout the code expects the extractor returns exactly the name: other extensions in front are
  skipped, the name is copied and terminated and the rest of the buffer is kept.
\<close>

theorem extract_sni_roundtrip:
  assumes "\<forall>e \<in> set pre. fst e \<noteq> 0 \<and> length (snd e) < 65536"
    and "exts = concat (map enc_ext pre) @ enc_ext (0, enc_sni name) @ post"
    and "length exts < 65536" and "length sid < 256" and "length cs < 65536" and "length cm < 256"
    and "length name < unat hlen" and "unat hlen \<le> length h"
  shows "evasion_extract_sni (Some (code_hello sid cs cm exts)) (of_nat (length (code_hello sid cs cm exts)))
      (Some h) hlen = Inr (0, Some (name @ 0 # drop (length name + 1) h))"
proof -
  let ?t = "code_hello sid cs cm exts" and ?p = "code_prefix sid cs cm exts"
  let ?x = "concat (map enc_ext pre)" and ?e = "enc_ext (0, enc_sni name)"
  have t: "?t = ?p @ ?x @ ?e @ post" by (simp add: code_hello_def code_prefix_def assms(2))
  let ?o = "length (?p @ ?x)"
  have nm: "length name < 65536" "length (enc_sni name) = length name + 5" "length name + 5 < 65536"
    using assms(2,3) by (simp_all add: enc_ext_def enc_sni_def)
  have h: "hlen \<noteq> 0" using assms(7) by auto
  have e1: "sni_ext_loop ?t (length ?p) (length ?t) h hlen = sni_ext_loop ?t ?o (length ?t) h hlen"
    by (rule sni_ext_loop_skip [OF assms(1)]) (simp_all add: t)
  have t2: "?t = (?p @ ?x) @ [0, 0] @ enc16 (length name + 5) @ enc_sni name @ post"
    by (simp add: t enc_ext_def nm byte_of_def)
  have r: "rd16be ?t ?o = Inr 0" "rd16be ?t (?o + 2) = Inr (of_nat (length name + 5))"
    unfolding t2 using be16_bytes [of "of_nat (length name + 5)"] be16_bytes [of 0]
    by (simp_all add: enc16_def rd16be_def rd_def nth_append byte_of_def)
  have d: "drop (?o + 4) ?t = enc_sni name @ post" unfolding t2 by (simp add: enc16_def)
  have u: "unat (of_nat (length name + 5) :: u16) = length name + 5"
    "unat (ucast (of_nat (length name + 5) :: u16) :: size_t) = length name + 5"
    using nm by (simp_all only: unat_ucast_size) (simp_all add: unat_of_nat del: of_nat_add)
  have le: "length ?t = ?o + 4 + (length name + 5) + length post" unfolding t2 using nm by simp
  have "sni_ext_loop ?t ?o (length ?t) h hlen =
      parse_sni_extension (Some (enc_sni name @ post)) (ucast (of_nat (length name + 5) :: u16)) (Some h) hlen"
    unfolding sni_ext_loop.simps [of ?t ?o] r bindC_simps u d using le by simp
  then show ?thesis
    unfolding extract_code_hello [OF assms(3-6) h] e1
    by (simp only: parse_sni_enc [OF nm(1) assms(7,8) u(2)])
qed

theorem extract_sni_roundtrip_witness:
  "evasion_extract_sni
     (Some (code_hello [] [0, 47] [0] (enc_ext (10, [7]) @ enc_ext (0, enc_sni (lit ''discord.com'')))))
     (of_nat (length (code_hello [] [0, 47] [0] (enc_ext (10, [7]) @ enc_ext (0, enc_sni (lit ''discord.com''))))))
     (Some (replicate 256 0)) 256 =
   Inr (0, Some (lit ''discord.com'' @ 0 # replicate 244 0))"
  using extract_sni_roundtrip [of "[(10, [7])]" "enc_ext (10, [7]) @ enc_ext (0, enc_sni (lit ''discord.com''))"
      "lit ''discord.com''" "[]" "[]" "[0, 47]" "[0]" 256 "replicate 256 0"]
  by (simp add: enc_ext_def enc_sni_def)

end
