(* ===== verification/HashUtils.thy ===== *)
theory HashUtils
  imports Packet
begin

text \<open>
  \<open>src/utils/hash.c\<close>: the djb2 hashes of strings, byte arrays, connections and packets, and the folded
  checksum.  \<open>unsigned long\<close> is 64 bits wide and every hash is truncated to 32 bits on return.

  The locale \<open>byte_hash\<close> is the contract of a djb2 step; \<open>ones_fold\<close> that of the carry-folding loop, which
  \<open>calculate_ip_checksum\<close> of \<open>net_utils.c\<close> shares.
\<close>

section \<open>Definitions\<close>

definition djb2_step :: "u64 \<Rightarrow> u64 \<Rightarrow> u64" where
  "djb2_step hash c = (push_bit 5 hash + hash) + c"

text \<open>\<open>c\<close> is an \<open>int\<close> read through a (signed) \<open>char\<close>, so the addition sign-extends it.\<close>

fun hash_string_loop :: "u64 \<Rightarrow> bytes \<Rightarrow> u64 cres" where
  "hash_string_loop hash [] = Inl OutOfBounds"
| "hash_string_loop hash (c # s) =
     (if c = 0 then Inr hash else hash_string_loop (djb2_step hash (scast c)) s)"

definition hash_string :: "bytes option \<Rightarrow> u32 cres" where
  "hash_string str =
     (case str of None \<Rightarrow> Inr 0
      | Some s \<Rightarrow> bindC (hash_string_loop 5381 s) (\<lambda>h. Inr (ucast h)))"

fun hash_bytes_loop :: "bytes \<Rightarrow> nat \<Rightarrow> nat \<Rightarrow> u64 \<Rightarrow> u64 cres" where
  "hash_bytes_loop data i 0 hash = Inr hash"
| "hash_bytes_loop data i (Suc n) hash =
     bindC (rd data i) (\<lambda>b. hash_bytes_loop data (i + 1) n (djb2_step hash (ucast b)))"

definition hash_bytes :: "bytes option \<Rightarrow> size_t \<Rightarrow> u32 cres" where
  "hash_bytes data len =
     (case data of None \<Rightarrow> Inr 0
      | Some d \<Rightarrow> if len = 0 then Inr 0
                 else bindC (hash_bytes_loop d 0 (unat len) 5381) (\<lambda>h. Inr (ucast h)))"

text \<open>The four, and the two, consecutive steps that mix an address word, and a port, in.\<close>

definition mix_u32 :: "u32 \<Rightarrow> u64 \<Rightarrow> u64" where
  "mix_u32 w hash =
     (let h0 = djb2_step hash (ucast (w AND 0xFF));
          h1 = djb2_step h0 (ucast (drop_bit 8 w AND 0xFF));
          h2 = djb2_step h1 (ucast (drop_bit 16 w AND 0xFF))
      in djb2_step h2 (ucast (drop_bit 24 w AND 0xFF)))"

definition mix_u16 :: "u16 \<Rightarrow> u64 \<Rightarrow> u64" where
  "mix_u16 w hash =
     djb2_step (djb2_step hash (ucast (w AND 0xFF))) (ucast (drop_bit 8 w AND 0xFF))"

definition hash_connection :: "u32 \<Rightarrow> u32 \<Rightarrow> u16 \<Rightarrow> u16 \<Rightarrow> u8 \<Rightarrow> u32" where
  "hash_connection src_ip dst_ip src_port dst_port protocol =
     (let h1 = mix_u32 src_ip 5381;
          h2 = mix_u32 dst_ip h1;
          h3 = mix_u16 src_port h2;
          h4 = mix_u16 dst_port h3
      in ucast (djb2_step h4 (ucast protocol)))"

fun hash_ipv6_loop :: "u32 list \<Rightarrow> u32 list \<Rightarrow> nat \<Rightarrow> nat \<Rightarrow> u64 \<Rightarrow> u64 cres" where
  "hash_ipv6_loop src dst i 0 hash = Inr hash"
| "hash_ipv6_loop src dst i (Suc n) hash =
     bindC (rd src i) (\<lambda>s. bindC (rd dst i) (\<lambda>d.
       hash_ipv6_loop src dst (i + 1) n (mix_u32 d (mix_u32 s hash))))"

definition hash_connection_ipv6 :: "u32 list \<Rightarrow> u32 list \<Rightarrow> u16 \<Rightarrow> u16 \<Rightarrow> u8 \<Rightarrow> u32 cres" where
  "hash_connection_ipv6 src_ip dst_ip src_port dst_port protocol =
     bindC (hash_ipv6_loop src_ip dst_ip 0 4 5381) (\<lambda>h.
       Inr (ucast (djb2_step (mix_u16 dst_port (mix_u16 src_port h)) (ucast protocol))))"

text \<open>\<open>while (sum >> 16) sum = (sum & 0xFFFF) + (sum >> 16)\<close>.\<close>

lemma fold16_step_unat:
  "unat ((s AND 0xFFFF) + drop_bit 16 s) = unat s mod 65536 + unat s div 65536" for s :: u32
proof -
  have "s AND 0xFFFF = take_bit 16 s" by (simp add: take_bit_eq_mask mask_eq_exp_minus_1)
  then have a: "unat (s AND 0xFFFF) = unat s mod 65536"
    by (simp add: take_bit_eq_mod unat_mod)
  have d: "unat (drop_bit 16 s) = unat s div 65536"
    by (simp add: drop_bit_eq_div unat_div)
  have "unat s < 4294967296" using unsigned_less [of s, where ?'a = nat] by simp
  then have "unat s mod 65536 + unat s div 65536 < 2 ^ 32" by simp
  then show ?thesis by (simp add: unat_word_ariths a d)
qed

lemma fold16_step_less:
  fixes s :: u32
  assumes "drop_bit 16 s \<noteq> 0"
  shows "unat ((s AND 0xFFFF) + drop_bit 16 s) < unat s"
proof -
  have "unat s div 65536 \<noteq> 0"
    using assms by (simp add: drop_bit_eq_div unat_div word_unat_eq_iff)
  moreover have "unat s = unat s div 65536 * 65536 + unat s mod 65536" by simp
  ultimately show ?thesis unfolding fold16_step_unat by linarith
qed

function fold16 :: "u32 \<Rightarrow> u32" where
  "fold16 s = (if drop_bit 16 s \<noteq> 0 then fold16 ((s AND 0xFFFF) + drop_bit 16 s) else s)"
  by pat_completeness auto
termination
  by (relation "measure unat") (auto intro: fold16_step_less)

declare fold16.simps [simp del]

fun checksum_sum :: "bytes \<Rightarrow> nat \<Rightarrow> nat \<Rightarrow> u32 \<Rightarrow> u32 cres" where
  "checksum_sum data i 0 s = Inr s"
| "checksum_sum data i (Suc n) s =
     bindC (rd data i) (\<lambda>b. checksum_sum data (i + 1) n (s + ucast b))"

definition hash_checksum :: "bytes option \<Rightarrow> size_t \<Rightarrow> u16 cres" where
  "hash_checksum data len =
     (case data of None \<Rightarrow> Inr 0
      | Some d \<Rightarrow> if len = 0 then Inr 0
                 else bindC (checksum_sum d 0 (unat len) 0) (\<lambda>s. Inr (ucast (NOT (fold16 s)))))"

text \<open>The values of the two enumerations.\<close>

definition type_code :: "packet_type_t \<Rightarrow> u64" where
  "type_code t = (case t of PACKET_UNKNOWN \<Rightarrow> 0 | PACKET_IPV4_TCP \<Rightarrow> 1 | PACKET_IPV4_TCP_DATA \<Rightarrow> 2
     | PACKET_IPV4_UDP_DATA \<Rightarrow> 3 | PACKET_IPV6_TCP \<Rightarrow> 4 | PACKET_IPV6_TCP_DATA \<Rightarrow> 5
     | PACKET_IPV6_UDP_DATA \<Rightarrow> 6)"

definition direction_code :: "packet_direction_t \<Rightarrow> u64" where
  "direction_code d = (case d of DIRECTION_UNKNOWN \<Rightarrow> 0 | DIRECTION_OUTBOUND \<Rightarrow> 1 | DIRECTION_INBOUND \<Rightarrow> 2)"

definition ip_list :: "ip_words \<Rightarrow> u32 list" where
  "ip_list w = (case w of (a, b, c, d) \<Rightarrow> [a, b, c, d])"

definition hash_packet :: "packet_t option \<Rightarrow> u32 cres" where
  "hash_packet packet =
     (case packet of None \<Rightarrow> Inr 0
      | Some p \<Rightarrow>
        (let proto = (if p_is_outbound p then IPPROTO_TCP else IPPROTO_UDP) in
         bindC (if p_is_ipv6 p
                then hash_connection_ipv6 (ip_list (p_src_ip p)) (ip_list (p_dst_ip p))
                       (p_src_port p) (p_dst_port p) proto
                else Inr (hash_connection (ip0 (p_src_ip p)) (ip0 (p_dst_ip p))
                       (p_src_port p) (p_dst_port p) proto)) (\<lambda>h.
         let h1 = djb2_step 5381 (ucast h);
             h2 = djb2_step h1 (type_code (p_type p));
             h3 = djb2_step h2 (direction_code (p_direction p));
             h4 = djb2_step h3 (ucast (p_ttl p))
         in Inr (ucast h4))))"

section \<open>The contract of a djb2 step\<close>

text \<open>A step multiplies by 33 and adds, so folding it evaluates a polynomial in 33.\<close>

fun poly33 :: "'a::comm_ring_1 \<Rightarrow> 'a list \<Rightarrow> 'a" where
  "poly33 h [] = h"
| "poly33 h (c # cs) = 33 ^ length (c # cs) * h + 33 ^ length cs * c + poly33 0 cs"

locale byte_hash =
  fixes step :: "u64 \<Rightarrow> u64 \<Rightarrow> u64"
  assumes step_linear: "step h c = 33 * h + c"
begin

lemma poly33_shift: "poly33 h cs = 33 ^ length cs * h + poly33 0 (cs :: u64 list)"
  by (cases cs) (simp_all add: add.assoc)

lemma foldl_poly: "foldl step h cs = poly33 h cs"
proof (induction cs arbitrary: h)
  case (Cons c cs)
  then show ?case
    using poly33_shift [of "33 * h + c" cs] by (simp add: step_linear algebra_simps)
qed simp

lemma foldl_carry:
  "foldl step h (xs @ [a, b] @ ys) = foldl step h (xs @ [a + d, b - 33 * d] @ ys)"
  by (simp add: step_linear algebra_simps)

end

lemma push_bit_5_add: "push_bit 5 h + h = 33 * (h :: u64)"
proof -
  have "push_bit 5 h + h = h * 2 ^ 5 + h" by (simp only: push_bit_eq_mult)
  then show ?thesis by simp
qed

interpretation djb2: byte_hash djb2_step
  by unfold_locales (simp add: djb2_step_def push_bit_5_add)

section \<open>Hash of a byte array\<close>

lemma hash_bytes_loop_foldl:
  "i + n \<le> length d \<Longrightarrow> hash_bytes_loop d i n h = Inr (foldl djb2_step h (map ucast (take n (drop i d))))"
proof (induction n arbitrary: i h)
  case (Suc n)
  then have "take (Suc n) (drop i d) = d ! i # take n (drop (Suc i) d)"
    by (simp add: Cons_nth_drop_Suc [symmetric])
  with Suc show ?case by (simp add: rd_Inr)
qed simp

lemma hash_bytes_eq:
  assumes "d \<noteq> []" and "length d < 2 ^ 64"
  shows "hash_bytes (Some d) (of_nat (length d)) = Inr (ucast (foldl djb2_step 5381 (map ucast d)))"
proof -
  have "unat (of_nat (length d) :: size_t) = length d" by (rule unat_size [OF assms(2)])
  moreover from this assms(1) have "(of_nat (length d) :: size_t) \<noteq> 0" by (metis length_0_conv unat_0)
  ultimately show ?thesis by (simp add: hash_bytes_def hash_bytes_loop_foldl)
qed

text \<open>The bytes of a word in the order the code mixes them.\<close>

definition u32_bytes :: "u32 \<Rightarrow> bytes" where
  "u32_bytes w = [byte_of 0 w, byte_of 1 w, byte_of 2 w, byte_of 3 w]"

definition u16_bytes :: "u16 \<Rightarrow> bytes" where
  "u16_bytes w = [byte_of 0 w, byte_of 1 w]"

lemma byte_of_and_ff:
  "ucast (drop_bit (8 * k) w AND 0xFF) = (ucast (byte_of k w) :: u64)" for w :: u32
proof -
  have "drop_bit (8 * k) w AND 0xFF = take_bit 8 (drop_bit (8 * k) w)"
    by (simp add: take_bit_eq_mask mask_eq_exp_minus_1)
  then show ?thesis
    by (simp only: byte_of_def) (rule bit_word_eqI, auto simp: bit_simps dest: bit_imp_le_length)
qed

lemma byte_of_and_ff16:
  "ucast (drop_bit (8 * k) w AND 0xFF) = (ucast (byte_of k w) :: u64)" for w :: u16
proof -
  have "drop_bit (8 * k) w AND 0xFF = take_bit 8 (drop_bit (8 * k) w)"
    by (simp add: take_bit_eq_mask mask_eq_exp_minus_1)
  then show ?thesis
    by (simp only: byte_of_def) (rule bit_word_eqI, auto simp: bit_simps dest: bit_imp_le_length)
qed

lemma mix_u32_bytes: "mix_u32 w h = foldl djb2_step h (map ucast (u32_bytes w))"
  using byte_of_and_ff [of 0 w] byte_of_and_ff [of 1 w] byte_of_and_ff [of 2 w] byte_of_and_ff [of 3 w]
  by (simp add: mix_u32_def u32_bytes_def Let_def)

lemma mix_u16_bytes: "mix_u16 w h = foldl djb2_step h (map ucast (u16_bytes w))"
  using byte_of_and_ff16 [of 0 w] byte_of_and_ff16 [of 1 w]
  by (simp add: mix_u16_def u16_bytes_def)

lemmas mix_bytes = mix_u32_bytes mix_u16_bytes

definition conn_bytes :: "u32 \<Rightarrow> u32 \<Rightarrow> u16 \<Rightarrow> u16 \<Rightarrow> u8 \<Rightarrow> bytes" where
  "conn_bytes si di sp dp pr = u32_bytes si @ u32_bytes di @ u16_bytes sp @ u16_bytes dp @ [pr]"

definition conn_bytes_ipv6 :: "u32 list \<Rightarrow> u32 list \<Rightarrow> u16 \<Rightarrow> u16 \<Rightarrow> u8 \<Rightarrow> bytes" where
  "conn_bytes_ipv6 si di sp dp pr =
     concat (map (\<lambda>i. u32_bytes (si ! i) @ u32_bytes (di ! i)) [0..<4]) @
     u16_bytes sp @ u16_bytes dp @ [pr]"

lemma u_bytes_length [simp]: "length (u32_bytes w) = 4" "length (u16_bytes v) = 2"
  by (simp_all add: u32_bytes_def u16_bytes_def)

lemma hash_ipv6_loop_4:
  assumes "length s = 4" and "length d = 4"
  shows "hash_ipv6_loop s d 0 4 h =
    Inr (foldl (\<lambda>h i. mix_u32 (d ! i) (mix_u32 (s ! i) h)) h [0, 1, 2, 3])"
proof -
  have "(4 :: nat) = Suc (Suc (Suc (Suc 0)))" by simp
  then show ?thesis using assms by (simp add: rd_def numeral_eq_Suc)
qed

lemma upt_4: "[0..<4] = [0, 1, 2, 3]"
  by (simp add: upt_rec)

text \<open>
  \<open>hash_connection\<close> is \<open>hash_bytes\<close> of the thirteen bytes of the connection (little endian addresses and
  ports, then the protocol), and \<open>hash_connection_ipv6\<close>, on addresses of four words, that of its
  thirty-seven bytes, where the words of the two addresses alternate.
\<close>

theorem hash_connection_serialised:
  "hash_bytes (Some (conn_bytes si di sp dp pr)) 13 = Inr (hash_connection si di sp dp pr) \<and>
   (length s6 = 4 \<and> length d6 = 4 \<longrightarrow>
     hash_bytes (Some (conn_bytes_ipv6 s6 d6 sp dp pr)) 37 = hash_connection_ipv6 s6 d6 sp dp pr)"
proof (intro conjI impI)
  have "length (conn_bytes si di sp dp pr) = 13" by (simp add: conn_bytes_def)
  with hash_bytes_eq [of "conn_bytes si di sp dp pr"]
  show "hash_bytes (Some (conn_bytes si di sp dp pr)) 13 = Inr (hash_connection si di sp dp pr)"
    by (simp add: conn_bytes_def hash_connection_def mix_bytes Let_def)
next
  assume l: "length s6 = 4 \<and> length d6 = 4"
  have "length (conn_bytes_ipv6 s6 d6 sp dp pr) = 37"
    by (simp add: conn_bytes_ipv6_def upt_4)
  with hash_bytes_eq [of "conn_bytes_ipv6 s6 d6 sp dp pr"] l
  show "hash_bytes (Some (conn_bytes_ipv6 s6 d6 sp dp pr)) 37 = hash_connection_ipv6 s6 d6 sp dp pr"
    by (simp add: conn_bytes_ipv6_def hash_connection_ipv6_def hash_ipv6_loop_4 upt_4 mix_bytes)
qed

theorem hash_connection_serialised_witness:
  "hash_bytes (Some (conn_bytes_ipv6 [1, 2, 3, 4] [5, 6, 7, 8] 80 443 6)) 37 =
   hash_connection_ipv6 [1, 2, 3, 4] [5, 6, 7, 8] 80 443 6"
  using hash_connection_serialised [where ?s6.0 = "[1, 2, 3, 4]" and ?d6.0 = "[5, 6, 7, 8]"
      and sp = 80 and dp = 443 and pr = 6]
  by simp

lemma ucast_32_hom:
  "(ucast (a + b :: u64) :: u32) = ucast a + ucast b"
  "(ucast (a * b :: u64) :: u32) = ucast a * ucast b"
  "(ucast (c ^ k :: u64) :: u32) = ucast c ^ k"
proof -
  have n: "(ucast x :: u32) = of_nat (unat x)" for x :: u64 by simp
  have m: "(of_nat (k mod 2 ^ 64) :: u32) = of_nat k" for k
    by (rule word_unat_eq_iff [THEN iffD2]) (simp add: unat_of_nat mod_mod_cancel)
  show "(ucast (a + b :: u64) :: u32) = ucast a + ucast b"
    using m [of "unat a + unat b"] by (simp add: n unat_word_ariths del: of_nat_unat)
  show t: "(ucast (a * b :: u64) :: u32) = ucast a * ucast b" for a b
    using m [of "unat a * unat b"] by (simp add: n unat_word_ariths del: of_nat_unat)
  show "(ucast (c ^ k :: u64) :: u32) = ucast c ^ k"
    by (induction k) (simp_all add: t)
qed

lemma ucast_u8_64_32: "(ucast (ucast b :: u64) :: u32) = ucast (b :: u8)"
  by (rule bit_word_eqI) (simp add: bit_simps)

lemma ucast_poly33: "(ucast (poly33 h cs) :: u32) = poly33 (ucast h) (map ucast cs)" for h :: u64
  by (induction cs arbitrary: h) (simp_all add: ucast_32_hom)

text \<open>
  The 64-bit accumulation and the final truncation of \<open>hash_bytes\<close> together evaluate, modulo \<open>2^32\<close>,
  the polynomial in 33 whose coefficients are 5381 and the bytes: nothing of the upper half of
  \<open>unsigned long\<close> reaches the result.
\<close>

theorem hash_bytes_poly:
  assumes "d \<noteq> []" and "length d < 2 ^ 64"
  shows "hash_bytes (Some d) (of_nat (length d)) = Inr (poly33 5381 (map ucast d))"
  using hash_bytes_eq [OF assms] by (simp add: djb2.foldl_poly ucast_poly33 o_def ucast_u8_64_32)

theorem hash_bytes_poly_witness:
  "hash_bytes (Some [1, 2]) 2 = Inr (33 * (33 * 5381 + 1) + 2)"
  using hash_bytes_poly [of "[1, 2]"] by simp

text \<open>
  The hash is not collision free even on one field: raising a source port's low byte by one and lowering
  its high byte by 33 keeps the hash of every connection, e.g. ports 8448 and 1.
\<close>

theorem hash_connection_collides:
  "hash_connection si di 8448 dp pr = hash_connection si di 1 dp pr"
proof -
  have "mix_u16 8448 h = mix_u16 1 h" for h
    using djb2.foldl_carry [of h "[]" 0 33 "[]" 1] by (simp add: mix_u16_def drop_bit_eq_div)
  then show ?thesis by (simp add: hash_connection_def)
qed

section \<open>Folding carries\<close>

text \<open>The contract of the folding loop, on the numbers below \<open>2^32\<close>.\<close>

lemma multiple_65535: "(x :: nat) mod 65535 = 0 \<Longrightarrow> x \<noteq> 0 \<Longrightarrow> x < 65536 \<Longrightarrow> x = 65535"
  using dvd_imp_le [of 65535 x] by (simp add: mod_eq_0_iff_dvd)

locale ones_fold =
  fixes f :: "nat \<Rightarrow> nat"
  assumes fold_less: "s < 2 ^ 32 \<Longrightarrow> f s < 65536"
    and fold_mod: "s < 2 ^ 32 \<Longrightarrow> f s mod 65535 = s mod 65535"
    and fold_zero: "s < 2 ^ 32 \<Longrightarrow> f s = 0 \<longleftrightarrow> s = 0"
begin

lemma fold_id: "s < 65536 \<Longrightarrow> f s = s"
proof -
  assume s: "s < 65536"
  show ?thesis
  proof (cases "s = 65535 \<or> s = 0")
    case True
    then show ?thesis
      using fold_less [of s] fold_mod [of s] fold_zero [of s] multiple_65535 [of "f s"] by auto
  next
    case False
    then have "f s mod 65535 = s" "f s < 65536" using fold_mod [of s] fold_less [of s] s by auto
    moreover have "f s \<noteq> 65535" using calculation False by auto
    ultimately show ?thesis by simp
  qed
qed

text \<open>Adding the complement of a folded sum makes the sum fold to all ones.\<close>

lemma fold_verifies:
  assumes "s + (65535 - f s) < 2 ^ 32"
  shows "f (s + (65535 - f s)) = 65535"
proof -
  have s: "s < 2 ^ 32" and l: "f s < 65536" using assms fold_less [of s] by auto
  have "(s + (65535 - f s)) mod 65535 = (f s + (65535 - f s)) mod 65535"
    by (rule mod_add_cong) (simp_all add: fold_mod [OF s])
  also have "\<dots> = 0" using l by simp
  finally have m: "f (s + (65535 - f s)) mod 65535 = 0" using fold_mod [OF assms] by simp
  have "s + (65535 - f s) \<noteq> 0" using fold_zero [OF s] by auto
  then have "f (s + (65535 - f s)) \<noteq> 0" using fold_zero [OF assms] by simp
  moreover have "f (s + (65535 - f s)) < 65536" by (rule fold_less [OF assms])
  ultimately show ?thesis using m by (intro multiple_65535)
qed

end

lemma fold16_unat:
  "unat (fold16 s) < 65536 \<and> unat (fold16 s) mod 65535 = unat s mod 65535 \<and>
   (unat (fold16 s) = 0 \<longleftrightarrow> unat s = 0)"
proof (induction s rule: fold16.induct)
  case (1 s)
  let ?n = "(s AND 0xFFFF) + drop_bit 16 s"
  show ?case
  proof (cases "drop_bit 16 s = 0")
    case True
    then have "unat s div 65536 = 0"
      using unat_div [of s "2 ^ 16"] by (simp add: drop_bit_eq_div)
    then show ?thesis using True by (simp add: fold16.simps [of s] div_eq_0_iff)
  next
    case False
    have "unat s = unat s div 65536 * 65535 + (unat s mod 65536 + unat s div 65536)" by simp
    then have "unat ?n mod 65535 = unat s mod 65535"
      unfolding fold16_step_unat by (metis add.commute mod_mult_self1)
    moreover have "unat ?n = 0 \<longleftrightarrow> unat s = 0"
      unfolding fold16_step_unat using div_mult_mod_eq [of "unat s" 65536] by auto
    ultimately show ?thesis
      using 1 [OF False] False by (simp only: fold16.simps [of s] if_True not_False_eq_True simp_thms)
  qed
qed

interpretation carry: ones_fold "\<lambda>s. unat (fold16 (of_nat s))"
proof
  fix s :: nat
  assume "s < 2 ^ 32"
  then have "unat (of_nat s :: u32) = s" by (simp add: unat_of_nat)
  with fold16_unat [of "of_nat s"]
  show "unat (fold16 (of_nat s)) < 65536" "unat (fold16 (of_nat s)) mod 65535 = s mod 65535"
    "unat (fold16 (of_nat s)) = 0 \<longleftrightarrow> s = 0" by simp_all
qed

end
