(* ===== verification/NetUtils.thy ===== *)
theory NetUtils
  imports HashUtils Config
begin

text \<open>
  \<open>src/utils/net_utils.c\<close>: address conversion, private ranges, the interface queries and the IP header
  checksum.  \<open>inet_pton\<close>/\<open>inet_ntop\<close> are written out for IPv4 (strict dotted quads); for IPv6 they are
  parameters.  The kernel's answers (routing table, interface list) are arguments.
\<close>

section \<open>IPv4 text\<close>

text \<open>\<open>"%u"\<close> of a byte.\<close>

definition dec_u8 :: "u8 \<Rightarrow> string" where
  "dec_u8 b =
     (let n = unat b in
      if n < 10 then [dec_digit n]
      else if n < 100 then [dec_digit (n div 10), dec_digit (n mod 10)]
      else [dec_digit (n div 100), dec_digit (n div 10 mod 10), dec_digit (n mod 10)])"

text \<open>\<open>inet_ntop (AF_INET)\<close>: the address is in network byte order.\<close>

definition inet_ntop4 :: "u32 \<Rightarrow> string" where
  "inet_ntop4 a =
     dec_u8 (byte_of 0 a) @ ''.'' @ dec_u8 (byte_of 1 a) @ ''.'' @
     dec_u8 (byte_of 2 a) @ ''.'' @ dec_u8 (byte_of 3 a)"

text \<open>\<open>inet_pton (AF_INET)\<close>: \<open>done\<close> are the octets completed, \<open>cur\<close> the one being read (\<open>None\<close> before its
  first digit).  A further digit after a leading zero, an octet above 255 and a fifth octet fail.\<close>

fun pton4_loop :: "nat list \<Rightarrow> nat option \<Rightarrow> string \<Rightarrow> nat list option" where
  "pton4_loop octs cur [] =
     (case cur of None \<Rightarrow> None
      | Some n \<Rightarrow> if length octs = 3 then Some (octs @ [n]) else None)"
| "pton4_loop octs cur (ch # s) =
     (if is_digit ch
      then (let d = of_char ch - 48 in
            case cur of
              None \<Rightarrow> if 4 \<le> length octs then None else pton4_loop octs (Some d) s
            | Some n \<Rightarrow> if n = 0 \<or> 255 < n * 10 + d then None
                       else pton4_loop octs (Some (n * 10 + d)) s)
      else (case cur of
              Some n \<Rightarrow> if ch = CHR ''.'' \<and> length octs < 3 then pton4_loop (octs @ [n]) None s
                       else None
            | None \<Rightarrow> None))"

definition inet_pton4 :: "string \<Rightarrow> u32 option" where
  "inet_pton4 s =
     (case pton4_loop [] None s of
        Some [a, b, c, d] \<Rightarrow> Some (le32 (of_nat a) (of_nat b) (of_nat c) (of_nat d))
      | _ \<Rightarrow> None)"

definition parse_ipv4_address :: "string option \<Rightarrow> u32 option \<Rightarrow> int \<times> u32 option" where
  "parse_ipv4_address ip_str ip_addr =
     (case (ip_str, ip_addr) of
        (Some s, Some _) \<Rightarrow> (case inet_pton4 s of None \<Rightarrow> (-1, ip_addr) | Some a \<Rightarrow> (0, Some (ntohl a)))
      | _ \<Rightarrow> (-1, ip_addr))"

text \<open>\<open>pton6\<close> and \<open>ntop6\<close> stand for the IPv6 conversions of the C library.\<close>

definition parse_ipv6_address ::
  "(string \<Rightarrow> ip_words option) \<Rightarrow> string option \<Rightarrow> ip_words option \<Rightarrow> int \<times> ip_words option" where
  "parse_ipv6_address pton6 ip_str ip_addr =
     (case (ip_str, ip_addr) of
        (Some s, Some _) \<Rightarrow> (case pton6 s of None \<Rightarrow> (-1, ip_addr) | Some a \<Rightarrow> (0, Some a))
      | _ \<Rightarrow> (-1, ip_addr))"

definition INET_ADDRSTRLEN :: nat where "INET_ADDRSTRLEN = 16"
definition INET6_ADDRSTRLEN :: nat where "INET6_ADDRSTRLEN = 46"

text \<open>The buffer receives the text; \<open>inet_ntop\<close> fails when it does not fit with its terminator.\<close>

definition ipv4_address_to_string :: "u32 \<Rightarrow> string option \<Rightarrow> nat \<Rightarrow> int \<times> string option" where
  "ipv4_address_to_string ip_addr ip_str str_len =
     (case ip_str of None \<Rightarrow> (-1, ip_str)
      | Some _ \<Rightarrow>
          if str_len < INET_ADDRSTRLEN then (-1, ip_str)
          else (let t = inet_ntop4 (ntohl ip_addr) in
                if str_len < length t + 1 then (-1, ip_str) else (0, Some t)))"

definition ipv6_address_to_string ::
  "(ip_words \<Rightarrow> string) \<Rightarrow> ip_words \<Rightarrow> string option \<Rightarrow> nat \<Rightarrow> int \<times> string option" where
  "ipv6_address_to_string ntop6 ip_addr ip_str str_len =
     (case ip_str of None \<Rightarrow> (-1, ip_str)
      | Some _ \<Rightarrow>
          if str_len < INET6_ADDRSTRLEN then (-1, ip_str)
          else (let t = ntop6 ip_addr in
                if str_len < length t + 1 then (-1, ip_str) else (0, Some t)))"

section \<open>Private ranges\<close>

definition is_private_ipv4 :: "u32 \<Rightarrow> bool" where
  "is_private_ipv4 ip_addr \<longleftrightarrow>
     (if ip_addr AND 0xFF000000 = 0x0A000000 then True
      else if ip_addr AND 0xFFF00000 = 0xAC100000 then True
      else if ip_addr AND 0xFFFF0000 = 0xC0A80000 then True
      else if ip_addr AND 0xFF000000 = 0x7F000000 then True
      else if ip_addr AND 0xFFFF0000 = 0xA9FE0000 then True
      else False)"

definition is_private_ipv6 :: "ip_words \<Rightarrow> bool" where
  "is_private_ipv6 ip_addr =
     (case ip_addr of (a, b, c, d) \<Rightarrow>
        if a = 0 \<and> b = 0 \<and> c = 0 \<and> d = ntohl 1 then True
        else if a AND ntohl 0xFFC00000 = ntohl 0xFE800000 then True
        else if a AND ntohl 0xFE000000 = ntohl 0xFC000000 then True
        else False)"

section \<open>Interfaces\<close>

definition hex_value :: "char \<Rightarrow> nat option" where
  "hex_value c =
     (let n = of_char c in
      if 48 \<le> n \<and> n \<le> 57 then Some (n - 48)
      else if 97 \<le> n \<and> n \<le> 102 then Some (n - 87)
      else if 65 \<le> n \<and> n \<le> 70 then Some (n - 55)
      else None)"

fun hex_prefix :: "nat option \<Rightarrow> string \<Rightarrow> nat option" where
  "hex_prefix acc [] = acc"
| "hex_prefix acc (c # s) =
     (case hex_value c of None \<Rightarrow> acc
      | Some d \<Rightarrow> hex_prefix (Some ((case acc of None \<Rightarrow> 0 | Some a \<Rightarrow> a) * 16 + d)) s)"

text \<open>\<open>sscanf (line, "%31s %lx", iface, &dest)\<close> returning 2, on the lines of \<open>/proc/net/route\<close>, whose
  second field is eight hexadecimal digits without sign or prefix.\<close>

definition scan_route :: "string \<Rightarrow> (string \<times> nat) option" where
  "scan_route line =
     (let t = dropWhile is_space_char line;
          name = take 31 (takeWhile (\<lambda>c. \<not> is_space_char c) t);
          rest = dropWhile is_space_char (drop (length name) t)
      in if name = [] then None
         else case hex_prefix None rest of None \<Rightarrow> None | Some v \<Rightarrow> Some (name, v))"

text \<open>\<open>lines\<close>: what \<open>fgets\<close> delivers from \<open>/proc/net/route\<close>, \<open>None\<close> if it cannot be opened.  \<open>safe_string_copy\<close>
  keeps \<open>interface_len - 1\<close> characters.\<close>

fun route_loop :: "string list \<Rightarrow> nat \<Rightarrow> string \<Rightarrow> int \<times> string" where
  "route_loop [] n interface = (-1, interface)"
| "route_loop (l # ls) n interface =
     (case scan_route l of
        Some (name, destination) \<Rightarrow>
          if destination = 0 then (0, take (n - 1) name) else route_loop ls n interface
      | None \<Rightarrow> route_loop ls n interface)"

definition get_default_interface :: "string list option \<Rightarrow> string option \<Rightarrow> nat \<Rightarrow> int \<times> string option" where
  "get_default_interface route interface interface_len =
     (case interface of None \<Rightarrow> (-1, None)
      | Some i \<Rightarrow>
          if interface_len = 0 then (-1, interface)
          else (case route of None \<Rightarrow> (-1, interface)
                | Some [] \<Rightarrow> (-1, interface)
                | Some (header # ls) \<Rightarrow>
                    (let (rc, i') = route_loop ls interface_len i in (rc, Some i'))))"

datatype sockaddr = AF_INET u32 | AF_INET6 ip_words | AF_OTHER

record ifaddr =
  ifa_name :: string
  ifa_addr :: "sockaddr option"

fun interface_ip_loop ::
  "(ip_words \<Rightarrow> string) \<Rightarrow> ifaddr list \<Rightarrow> string \<Rightarrow> string \<Rightarrow> nat \<Rightarrow> bool \<Rightarrow> int \<times> string" where
  "interface_ip_loop ntop6 [] interface ip_str n ipv6 = (-1, ip_str)"
| "interface_ip_loop ntop6 (ifa # ifas) interface ip_str n ipv6 =
     (let next = interface_ip_loop ntop6 ifas interface ip_str n ipv6 in
      case ifa_addr ifa of None \<Rightarrow> next
      | Some a \<Rightarrow>
          if ifa_name ifa \<noteq> interface then next
          else (case a of
              AF_INET6 w \<Rightarrow> if ipv6 \<and> length (ntop6 w) < n then (0, ntop6 w) else next
            | AF_INET w \<Rightarrow> if \<not> ipv6 \<and> length (inet_ntop4 w) < n then (0, inet_ntop4 w) else next
            | AF_OTHER \<Rightarrow> next))"

definition get_interface_ip ::
  "(ip_words \<Rightarrow> string) \<Rightarrow> ifaddr list option \<Rightarrow> string option \<Rightarrow> string option \<Rightarrow> nat \<Rightarrow> bool \<Rightarrow> int \<times> string option" where
  "get_interface_ip ntop6 ifaddrs interface ip_str ip_str_len ipv6 =
     (case (interface, ip_str) of
        (Some i, Some s) \<Rightarrow>
          (case ifaddrs of None \<Rightarrow> (-1, ip_str)
           | Some l \<Rightarrow> (let (rc, s') = interface_ip_loop ntop6 l i s ip_str_len ipv6 in (rc, Some s')))
      | _ \<Rightarrow> (-1, ip_str))"

fun interface_exists_loop :: "ifaddr list \<Rightarrow> string \<Rightarrow> bool" where
  "interface_exists_loop [] interface = False"
| "interface_exists_loop (ifa # ifas) interface =
     (if ifa_name ifa = interface then True else interface_exists_loop ifas interface)"

definition interface_exists :: "ifaddr list option \<Rightarrow> string option \<Rightarrow> bool" where
  "interface_exists ifaddrs interface =
     (case (interface, ifaddrs) of (Some i, Some l) \<Rightarrow> interface_exists_loop l i | _ \<Rightarrow> False)"

section \<open>Checksum and ports\<close>

text \<open>The reading loop: \<open>i\<close> is the distance of \<open>ptr\<close> from \<open>header\<close>, the third argument what is left of
  \<open>header_len\<close>.\<close>

fun ip_sum_loop :: "bytes \<Rightarrow> nat \<Rightarrow> nat \<Rightarrow> u32 \<Rightarrow> u32 cres" where
  "ip_sum_loop header i (Suc (Suc n)) s =
     bindC (rd16le header i) (\<lambda>w. ip_sum_loop header (i + 2) n (s + ucast w))"
| "ip_sum_loop header i (Suc 0) s = bindC (rd header i) (\<lambda>b. Inr (s + ucast b))"
| "ip_sum_loop header i 0 s = Inr s"

definition calculate_ip_checksum :: "bytes \<Rightarrow> size_t \<Rightarrow> u16 cres" where
  "calculate_ip_checksum header header_len =
     bindC (ip_sum_loop header 0 (unat header_len) 0) (\<lambda>s. Inr (ucast (NOT (fold16 s))))"

definition is_valid_port :: "u16 \<Rightarrow> bool" where
  "is_valid_port port \<longleftrightarrow> 0 < port \<and> unat port \<le> 65535"

definition is_privileged_port :: "u16 \<Rightarrow> bool" where
  "is_privileged_port port \<longleftrightarrow> 0 < port \<and> port < 1024"

section \<open>Properties: addresses\<close>

lemma dec_digit_facts:
  assumes "d < 10"
  shows "is_digit (dec_digit d)" and "of_char (dec_digit d) - 48 = d"
  using assms by (simp_all add: is_digit_def dec_digit_def)

lemma dot_no_digit: "\<not> is_digit CHR ''.''"
  by (simp add: is_digit_def)

lemma dec_u8_cases:
  obtains "unat b < 10" "dec_u8 b = [dec_digit (unat b)]"
  | x y where "unat b = x * 10 + y" "x < 10" "y < 10" "x \<noteq> 0" "dec_u8 b = [dec_digit x, dec_digit y]"
  | x y z where "unat b = (x * 10 + y) * 10 + z" "x < 10" "y < 10" "z < 10" "x \<noteq> 0"
      "dec_u8 b = [dec_digit x, dec_digit y, dec_digit z]"
proof -
  have b: "unat b \<le> 255" by (rule unat_u8_le)
  consider "unat b < 10" | "10 \<le> unat b" "unat b < 100" | "100 \<le> unat b" by linarith
  then show thesis
  proof cases
    case 1
    then show thesis by (intro that(1)) (simp_all add: dec_u8_def)
  next
    case 2
    then have "dec_u8 b = [dec_digit (unat b div 10), dec_digit (unat b mod 10)]"
      by (simp add: dec_u8_def Let_def)
    moreover have "unat b div 10 \<noteq> 0" using 2 by linarith
    moreover have "unat b div 10 < 10" using 2 by linarith
    ultimately show thesis by (intro that(2) [of "unat b div 10" "unat b mod 10"]) simp_all
  next
    case 3
    then have "dec_u8 b = [dec_digit (unat b div 100), dec_digit (unat b div 10 mod 10), dec_digit (unat b mod 10)]"
      by (simp add: dec_u8_def Let_def)
    moreover have "unat b div 100 \<noteq> 0" using 3 by linarith
    moreover have "unat b div 100 < 10" using b by linarith
    moreover have "unat b div 100 = unat b div 10 div 10" by (simp flip: div_mult2_eq)
    then have "unat b = (unat b div 100 * 10 + unat b div 10 mod 10) * 10 + unat b mod 10"
      by (simp only: div_mult_mod_eq)
    ultimately show thesis
      by (intro that(3) [of "unat b div 100" "unat b div 10 mod 10" "unat b mod 10"]) simp_all
  qed
qed

lemma pton4_loop_dec:
  assumes "length octs < 4"
  shows "pton4_loop octs None (dec_u8 b @ s) = pton4_loop octs (Some (unat b)) s"
proof -
  have b: "unat b \<le> 255" by (rule unat_u8_le)
  show ?thesis
    by (cases b rule: dec_u8_cases)
      (use assms b in \<open>simp_all add: dec_digit_facts Let_def not_less\<close>)
qed

lemma inet_roundtrip: "inet_pton4 (inet_ntop4 a) = Some a"
proof -
  have "pton4_loop [] None (inet_ntop4 a) =
      Some [unat (byte_of 0 a), unat (byte_of 1 a), unat (byte_of 2 a), unat (byte_of 3 a)]"
    using pton4_loop_dec [of "[unat (byte_of 0 a), unat (byte_of 1 a), unat (byte_of 2 a)]" "byte_of 3 a" "[]"]
    by (simp add: inet_ntop4_def pton4_loop_dec dot_no_digit)
  then show ?thesis by (simp add: inet_pton4_def le32_bytes)
qed

lemma inet_ntop4_length: "length (inet_ntop4 a) \<le> 15"
proof -
  have "length (dec_u8 b) \<le> 3" for b by (simp add: dec_u8_def Let_def)
  then have "length (dec_u8 (byte_of 0 a)) + length (dec_u8 (byte_of 1 a)) +
      length (dec_u8 (byte_of 2 a)) + length (dec_u8 (byte_of 3 a)) \<le> 3 + 3 + 3 + 3"
    by (intro add_mono)
  then show ?thesis by (simp add: inet_ntop4_def)
qed

text \<open>
  C37. Printing a host-order IPv4 address into a buffer of at least 16 bytes always succeeds, and
  \<open>parse_ipv4_address\<close> reads the text back to the same address.
\<close>

theorem ipv4_text_roundtrip:
  assumes "16 \<le> n"
  shows "\<exists>t. ipv4_address_to_string a (Some buf) n = (0, Some t) \<and> length t < n \<and>
             parse_ipv4_address (Some t) (Some old) = (0, Some a)"
  using assms inet_ntop4_length [of "ntohl a"] inet_roundtrip [of "ntohl a"]
  by (auto simp: ipv4_address_to_string_def parse_ipv4_address_def INET_ADDRSTRLEN_def ntohl_ntohl Let_def)

theorem ipv4_text_roundtrip_witness:
  "\<exists>t. ipv4_address_to_string 0x0A000001 (Some []) 16 = (0, Some t) \<and> length t < 16 \<and>
       parse_ipv4_address (Some t) (Some 0) = (0, Some 0x0A000001)"
  by (rule ipv4_text_roundtrip) simp

text \<open>Masking the low bits off and comparing is comparing quotients.\<close>

lemma and_high_eq:
  fixes w x :: u32
  assumes "n < 32" and "unat x = k * 2 ^ n"
  shows "w AND NOT (mask n) = x \<longleftrightarrow> unat w div 2 ^ n = k"
proof -
  have "w AND NOT (mask n) = push_bit n (drop_bit n w)"
    by (rule bit_word_eqI) (auto simp: bit_simps)
  moreover have "unat (push_bit n (drop_bit n w)) = unat w div 2 ^ n * 2 ^ n"
  proof -
    have "unat w div 2 ^ n * 2 ^ n \<le> unat w" by (rule div_times_less_eq_dividend)
    also have w: "unat w < 2 ^ 32" using unsigned_less [of w, where ?'a = nat] by simp
    finally have "unat w div 2 ^ n * 2 ^ n < 2 ^ 32" .
    with w show ?thesis
      by (simp only: unsigned_push_bit_eq unsigned_drop_bit_eq)
        (simp add: take_bit_eq_mod push_bit_eq_mult drop_bit_eq_div)
  qed
  ultimately show ?thesis using assms(2) by (auto simp: word_unat_eq_iff)
qed

lemma digits_eq: "y < m \<Longrightarrow> x * m + y = k \<longleftrightarrow> x = k div m \<and> y = k mod m" for x y m k :: nat
  by auto

lemma high_masks:
  "0xFF000000 = NOT (mask 24 :: u32)" "0xFFF00000 = NOT (mask 20 :: u32)" "0xFFFF0000 = NOT (mask 16 :: u32)"
  by (simp_all add: mask_eq_exp_minus_1)

lemma is_private_ipv4_div:
  "is_private_ipv4 w \<longleftrightarrow> unat w div 2 ^ 24 = 10 \<or> unat w div 2 ^ 20 = 2753 \<or> unat w div 2 ^ 16 = 49320 \<or>
     unat w div 2 ^ 24 = 127 \<or> unat w div 2 ^ 16 = 43518"
proof -
  have "w AND 0xFF000000 = 0x0A000000 \<longleftrightarrow> unat w div 2 ^ 24 = 10"
    unfolding high_masks by (rule and_high_eq) simp_all
  moreover have "w AND 0xFFF00000 = 0xAC100000 \<longleftrightarrow> unat w div 2 ^ 20 = 2753"
    unfolding high_masks by (rule and_high_eq) simp_all
  moreover have "w AND 0xFFFF0000 = 0xC0A80000 \<longleftrightarrow> unat w div 2 ^ 16 = 49320"
    unfolding high_masks by (rule and_high_eq) simp_all
  moreover have "w AND 0xFF000000 = 0x7F000000 \<longleftrightarrow> unat w div 2 ^ 24 = 127"
    unfolding high_masks by (rule and_high_eq) simp_all
  moreover have "w AND 0xFFFF0000 = 0xA9FE0000 \<longleftrightarrow> unat w div 2 ^ 16 = 43518"
    unfolding high_masks by (rule and_high_eq) simp_all
  ultimately show ?thesis unfolding is_private_ipv4_def by argo
qed

lemma be32_quotients:
  "unat (be32 a b c d) div 2 ^ 24 = unat a"
  "unat (be32 a b c d) div 2 ^ 20 = unat a * 16 + unat b div 16"
  "unat (be32 a b c d) div 2 ^ 16 = unat a * 256 + unat b"
  using unat_u8_le [of a] unat_u8_le [of b] unat_u8_le [of c] unat_u8_le [of d]
  unfolding unat_be32 by simp_all

text \<open>
  \<open>is_private_ipv4\<close> accepts exactly the dotted quads of 10/8, 172.16/12, 192.168/16, the loopback
  127/8 and the link-local 169.254/16.
\<close>

theorem is_private_ipv4_octets:
  "is_private_ipv4 (be32 a b c d) \<longleftrightarrow>
     a = 10 \<or> (a = 172 \<and> 16 \<le> b \<and> b \<le> 31) \<or> (a = 192 \<and> b = 168) \<or> a = 127 \<or> (a = 169 \<and> b = 254)"
proof -
  have b: "unat b \<le> 255" by (rule unat_u8_le)
  then have "unat b div 16 = 1 \<longleftrightarrow> 16 \<le> unat b \<and> unat b \<le> 31" "unat b div 16 < 16" by auto
  then have "unat a * 16 + unat b div 16 = 2753 \<longleftrightarrow> unat a = 172 \<and> 16 \<le> unat b \<and> unat b \<le> 31"
    by (simp add: digits_eq)
  moreover have "unat a * 256 + unat b = 49320 \<longleftrightarrow> unat a = 192 \<and> unat b = 168"
    "unat a * 256 + unat b = 43518 \<longleftrightarrow> unat a = 169 \<and> unat b = 254"
    using b by (simp_all add: digits_eq)
  ultimately have "is_private_ipv4 (be32 a b c d) \<longleftrightarrow> unat a = 10 \<or>
      (unat a = 172 \<and> 16 \<le> unat b \<and> unat b \<le> 31) \<or> (unat a = 192 \<and> unat b = 168) \<or> unat a = 127 \<or>
      (unat a = 169 \<and> unat b = 254)"
    unfolding is_private_ipv4_div be32_quotients by simp
  then show ?thesis by (simp add: word_unat_eq_iff word_le_nat_alt)
qed

section \<open>Properties: the IP checksum\<close>

text \<open>The sum the loop computes, without the wrap-around.\<close>

fun word_sum :: "bytes \<Rightarrow> nat" where
  "word_sum (a # b # r) = unat a + 256 * unat b + word_sum r"
| "word_sum [a] = unat a"
| "word_sum [] = 0"

lemma word_sum_le: "word_sum h \<le> length h * 65535"
proof (induction h rule: word_sum.induct)
  case (1 a b r)
  then show ?case using unat_u8_le [of a] unat_u8_le [of b] by simp
qed (use unat_u8_le le_trans in \<open>auto intro: order_trans [OF unat_u8_le]\<close>)

lemma ip_sum_loop_eq:
  "i + n \<le> length h \<Longrightarrow> ip_sum_loop h i n s = Inr (s + of_nat (word_sum (take n (drop i h))))"
proof (induction h i n s rule: ip_sum_loop.induct)
  case (1 h i n s)
  then have "take (Suc (Suc n)) (drop i h) = h ! i # h ! (i + 1) # take n (drop (i + 2) h)"
    by (simp add: Cons_nth_drop_Suc [symmetric])
  moreover have "(ucast (le16 x y) :: u32) = of_nat (unat x + 256 * unat y)" for x y
    using unat_u8_le [of x] unat_u8_le [of y]
    by (simp add: word_unat_eq_iff unat_ucast16 unat_ucast8 le16_def unat_be16 unat_word_ariths)
  ultimately show ?case using 1 by (simp add: rd16le_Inr add.assoc)
next
  case (2 h i s)
  then have "take (Suc 0) (drop i h) = [h ! i]" by (simp add: Cons_nth_drop_Suc [symmetric])
  then show ?case using 2 by (simp add: rd_Inr)
qed simp

lemma word_sum_update:
  assumes "2 * k + 1 < length h" and "h ! (2 * k) = 0" and "h ! (2 * k + 1) = 0"
  shows "word_sum (h[2 * k := x, 2 * k + 1 := y]) = word_sum h + unat x + 256 * unat y"
  using assms
proof (induction k arbitrary: h)
  case 0
  then obtain r where "h = 0 # 0 # r" by (cases h; cases "tl h") auto
  then show ?case by simp
next
  case (Suc k)
  then obtain a b r where "h = a # b # r" by (cases h; cases "tl h") auto
  with Suc show ?case by simp
qed

lemma not_low16: "ucast (NOT s :: u32) = (NOT (ucast s) :: u16)"
  by (rule bit_word_eqI) (simp add: bit_simps)

lemma unat_not16: "unat (NOT w) = 65535 - unat (w :: u16)"
proof -
  have "NOT w = 65535 - w" by (simp add: not_eq_complement)
  then show ?thesis using unat_u16_le [of w] by (simp add: unat_sub_if')
qed

lemma checksum_value:
  assumes "length h \<le> 65535" and "length h = unat n"
  shows "\<exists>c. calculate_ip_checksum h n = Inr c \<and>
             unat c = 65535 - unat (fold16 (of_nat (word_sum h)))"
proof -
  let ?f = "fold16 (of_nat (word_sum h))"
  have "calculate_ip_checksum h n = Inr (NOT (ucast ?f))"
    using ip_sum_loop_eq [of 0 "length h" h 0] assms(2)
    by (simp add: calculate_ip_checksum_def not_low16)
  moreover have "unat (ucast ?f :: u16) = unat ?f"
    using fold16_unat [of "of_nat (word_sum h)"] by (simp add: unsigned_ucast_eq take_bit_nat_eq_self)
  then have "unat (NOT (ucast ?f) :: u16) = 65535 - unat ?f"
    by (simp only: unat_not16)
  ultimately show ?thesis by blast
qed

lemma checksum_zero_mod:
  assumes "length h \<le> 65535" and "length h = unat n" and "calculate_ip_checksum h n = Inr 0"
  shows "word_sum h mod 65535 = 0"
proof -
  have "unat (fold16 (of_nat (word_sum h))) = 65535"
    using checksum_value [OF assms(1,2)] assms(3) fold16_unat [of "of_nat (word_sum h)"] by auto
  moreover have "word_sum h < 2 ^ 32" using word_sum_le [of h] assms(1) by simp
  ultimately show ?thesis using carry.fold_mod [of "word_sum h"] by simp
qed

lemma word_sum_set:
  "2 * k < length h \<Longrightarrow> word_sum (h[2 * k := x]) + unat (h ! (2 * k)) = word_sum h + unat x"
proof (induction k arbitrary: h)
  case 0
  then show ?case by (cases h rule: word_sum.cases) auto
next
  case (Suc k)
  then show ?case by (cases h rule: word_sum.cases) auto
qed

text \<open>
  C36. The header checksum verifies: for a header of even length below 64 KiB whose checksum field is zero,
  storing the computed value into the field (bytes 10 and 11, as the host stores a \<open>uint16_t\<close>) makes
  \<open>calculate_ip_checksum\<close> of the header return 0, as RFC 1071 receivers require.
\<close>

theorem ip_checksum_verifies:
  assumes "even (length h)" and "12 \<le> length h" and "length h \<le> 65534" and "length h = unat n"
    and "h ! 10 = 0" and "h ! 11 = 0"
    and "calculate_ip_checksum h n = Inr c"
  shows "calculate_ip_checksum (h[10 := byte_of 0 c, 11 := byte_of 1 c]) n = Inr 0"
proof -
  let ?s = "word_sum h" and ?h = "h[10 := byte_of 0 c, 11 := byte_of 1 c]"
  have c: "unat c = 65535 - unat (fold16 (of_nat ?s))"
    using checksum_value [of h n] assms by auto
  have "unat c = unat (byte_of 0 c) + 256 * unat (byte_of 1 c)"
    using unat_be16 [of "byte_of 1 c" "byte_of 0 c"] le16_bytes [of c] by (simp add: le16_def)
  then have s: "word_sum ?h = ?s + (65535 - unat (fold16 (of_nat ?s)))"
    using word_sum_update [of 5 h] assms c by simp
  have "word_sum ?h \<le> 65534 * 65535"
    using word_sum_le [of ?h] assms(3) by (simp add: order_trans)
  then have f: "unat (fold16 (of_nat (word_sum ?h))) = 65535"
    unfolding s by (intro carry.fold_verifies) simp
  obtain c' where "calculate_ip_checksum ?h n = Inr c'" "unat c' = 0"
    using checksum_value [of ?h n] assms f by auto
  then show ?thesis by (simp add: unat_eq_zero)
qed

theorem ip_checksum_verifies_witness:
  "\<exists>c. calculate_ip_checksum [0x45, 0, 0, 20, 0, 0, 0, 0, 64, 6, 0, 0, 10, 0, 0, 1, 10, 0, 0, 2] 20 = Inr c \<and>
     calculate_ip_checksum ([0x45, 0, 0, 20, 0, 0, 0, 0, 64, 6, 0, 0, 10, 0, 0, 1, 10, 0, 0, 2]
       [10 := byte_of 0 c, 11 := byte_of 1 c]) 20 = Inr 0"
proof -
  let ?h = "[0x45, 0, 0, 20, 0, 0, 0, 0, 64, 6, 0, 0, 10, 0, 0, 1, 10, 0, 0, 2] :: bytes"
  obtain c where c: "calculate_ip_checksum ?h 20 = Inr c" using checksum_value [of ?h 20] by auto
  show ?thesis using c ip_checksum_verifies [OF _ _ _ _ _ _ c] by auto
qed

section \<open>Properties: interfaces\<close>

lemma route_loop_found:
  "fst (route_loop ls n i) = 0 \<longleftrightarrow> (\<exists>l \<in> set ls. \<exists>name. scan_route l = Some (name, 0))"
  by (induction ls) (auto split: option.splits)

lemma route_loop_first:
  "(\<forall>x \<in> set pre. \<forall>name. scan_route x \<noteq> Some (name, 0)) \<Longrightarrow>
   route_loop (pre @ ls) n i = route_loop ls n i"
  by (induction pre) (auto split: option.splits)

lemma route_loop_none:
  "(\<forall>x \<in> set ls. \<forall>name. scan_route x \<noteq> Some (name, 0)) \<Longrightarrow> route_loop ls n i = (-1, i)"
  using route_loop_first [of ls "[]" n i] by simp

text \<open>
  \<open>get_default_interface\<close> returns the interface of the first route with destination zero, cut to the
  buffer, and skips the header line and every other route; without such a route it fails and
  leaves the buffer alone.
\<close>

lemma default_interface_first:
  assumes "0 < n" and "\<forall>x \<in> set pre. \<forall>name. scan_route x \<noteq> Some (name, 0)"
  shows "get_default_interface (Some (header # pre)) (Some buf) n = (-1, Some buf)"
    and "scan_route l = Some (name, 0) \<Longrightarrow>
      get_default_interface (Some (header # pre @ l # post)) (Some buf) n = (0, Some (take (n - 1) name))"
  using assms by (simp_all add: get_default_interface_def route_loop_first route_loop_none)

end
