(* ===== verification/Turkey.thy ===== *)
theory Turkey
  imports Evasion Sni NetUtils "HOL-Library.Sublist"
begin

text \<open>
  \<open>src/evasion/turkey_specific.c\<close>: the techniques for Turkish providers.  The file includes \<open>goodbyedpi.h\<close> and
  not \<open>config.h\<close>, so the fragment sizes are the ones of lines 281 to 285 there.
\<close>

section \<open>Definitions\<close>

definition TURKEY_HTTP_FRAGMENT_SIZE :: u32 where "TURKEY_HTTP_FRAGMENT_SIZE = 2"
definition TURKEY_HTTPS_FRAGMENT_SIZE :: u32 where "TURKEY_HTTPS_FRAGMENT_SIZE = 2"
definition TURKEY_MAX_FRAGMENT_SIZE :: u32 where "TURKEY_MAX_FRAGMENT_SIZE = 5"
definition DEFAULT_HTTP_FRAGMENT_SIZE :: u32 where "DEFAULT_HTTP_FRAGMENT_SIZE = 40"
definition DEFAULT_HTTPS_FRAGMENT_SIZE :: u32 where "DEFAULT_HTTPS_FRAGMENT_SIZE = 40"

definition turkish_services :: "bytes list" where
  "turkish_services =
     [lit ''discord.com'', lit ''twitter.com'', lit ''youtube.com'', lit ''telegram.org'',
      lit ''facebook.com'', lit ''instagram.com'', lit ''reddit.com'', lit ''wikipedia.org'',
      lit ''netflix.com'', lit ''spotify.com'', lit ''steamcommunity.com'']"

text \<open>The copying loop of \<open>turkey_header_obfuscation\<close>; the condition reads \<open>hostname[i]\<close> before it compares
  \<open>i\<close> with \<open>space_pos = i + n\<close>.\<close>

fun obfuscate_loop :: "bytes \<Rightarrow> bytes \<Rightarrow> nat \<Rightarrow> nat \<Rightarrow> bytes cres" where
  "obfuscate_loop modified_host hostname i 0 = bindC (rd hostname i) (\<lambda>c. Inr modified_host)"
| "obfuscate_loop modified_host hostname i (Suc n) =
     bindC (rd hostname i) (\<lambda>c.
       if c = 0 then Inr modified_host
       else bindC (wr modified_host (6 + i) (if i mod 2 = 0 then toupper c else tolower c)) (\<lambda>m.
            obfuscate_loop m hostname (i + 1) n))"

text \<open>\<open>rnd\<close> is the value of \<open>rand ()\<close>, \<open>buf\<close> the uninitialised \<open>modified_host\<close>, which is dropped at the end.\<close>

definition turkey_header_obfuscation ::
  "nat \<Rightarrow> bytes \<Rightarrow> goodbyedpi_config_t \<Rightarrow> packet_t option \<Rightarrow> int cres" where
  "turkey_header_obfuscation rnd buf config packet =
     (case packet of None \<Rightarrow> Inr (-1)
      | Some p \<Rightarrow>
        bindC (packet_is_http packet) (\<lambda>http.
        if \<not> http then Inr (-1)
        else if \<not> cfg_host_mixedcase config \<and> \<not> cfg_additional_space config
        then bindC (deref (p_payload p)) (\<lambda>b.
             bindC (strstr b (lit ''Host:'')) (\<lambda>r. case r of
               None \<Rightarrow> Inr (-1)
             | Some off \<Rightarrow>
                 let host_header = drop off b in
                 bindC (strlen host_header) (\<lambda>host_len.
                 if 6 < host_len \<and> host_len < MAX_HOSTNAME_LEN - 10
                 then bindC (strncpy buf host_header 6) (\<lambda>m0.
                      let hostname = drop 6 host_header; space_pos = rnd mod 8 + 2 in
                      bindC (obfuscate_loop m0 hostname 0 space_pos) (\<lambda>m1.
                      bindC (wr m1 (6 + space_pos) 32) (\<lambda>m2.
                      bindC (rd hostname space_pos) (\<lambda>c.
                      bindC (wr m2 (6 + space_pos + 1) c) (\<lambda>m3.
                      bindC (strncpy (drop (6 + space_pos + 1) m3) (drop (space_pos + 1) hostname)
                               (MAX_HOSTNAME_LEN - 6 - space_pos - 2)) (\<lambda>m4. Inr 0))))))
                 else Inr (-1))))
        else Inr (-1)))"

definition turkey_tls_obfuscation :: "bytes option \<Rightarrow> packet_t option \<Rightarrow> int cres" where
  "turkey_tls_obfuscation block packet =
     (if packet = None \<or> \<not> packet_is_https packet then Inr (-1)
      else bindC (extract_sni_from_packet block packet) (\<lambda>extracted.
        bindC (case extracted of None \<Rightarrow> Inr (replicate MAX_HOSTNAME_LEN 0)
               | Some h \<Rightarrow> strncpy (replicate MAX_HOSTNAME_LEN 0) h (MAX_HOSTNAME_LEN - 1)) (\<lambda>hostname.
        bindC (rd hostname 0) (\<lambda>c. if c \<noteq> 0 then Inr 0 else Inr (-1)))))"

definition turkey_enhanced_fragmentation :: "packet_t option \<Rightarrow> int" where
  "turkey_enhanced_fragmentation packet =
     (case packet of None \<Rightarrow> -1
      | Some p \<Rightarrow>
          (let frag_size = (if packet_is_https packet then TURKEY_HTTPS_FRAGMENT_SIZE
                            else TURKEY_HTTP_FRAGMENT_SIZE)
           in evasion_fragment_packet packet frag_size))"

text \<open>\<open>for (i = 0; services[i]; i++) if (strstr (s, services[i])) return true\<close>.\<close>

fun any_service :: "bytes \<Rightarrow> bytes list \<Rightarrow> bool cres" where
  "any_service s [] = Inr False"
| "any_service s (x # xs) = bindC (strstr s x) (\<lambda>r. if r \<noteq> None then Inr True else any_service s xs)"

definition turkey_is_blocked_service :: "packet_t option \<Rightarrow> bool cres" where
  "turkey_is_blocked_service packet =
     (case packet of None \<Rightarrow> Inr False
      | Some p \<Rightarrow>
        (case p_payload p of None \<Rightarrow> Inr False
         | Some b \<Rightarrow>
             let copy_len = (if p_payload_len p < 511 then unat (p_payload_len p) else 511) in
             bindC (strncpy (replicate 512 0) b copy_len) (\<lambda>s.
             bindC (string_to_lower_loop s) (\<lambda>s'. any_service s' turkish_services))))"

definition turkey_ttl_manipulation :: "packet_t option \<Rightarrow> (int \<times> packet_t option) cres" where
  "turkey_ttl_manipulation packet =
     (case packet of None \<Rightarrow> Inr (-1, None)
      | Some p \<Rightarrow>
          (let original_ttl = p_ttl p;
               modified_ttl = (if 64 < original_ttl then 64 else if 32 < original_ttl then 32 else 1)
           in packet_set_ttl packet modified_ttl))"

text \<open>The loop over the fake services only logs.\<close>

definition turkey_generate_fake_service_traffic :: "packet_t option \<Rightarrow> int" where
  "turkey_generate_fake_service_traffic packet = (case packet of None \<Rightarrow> -1 | Some p \<Rightarrow> 0)"

definition turkey_apply_all_evasion ::
  "nat \<Rightarrow> bytes \<Rightarrow> bytes option \<Rightarrow> goodbyedpi_config_t \<Rightarrow> packet_t option \<Rightarrow> (int \<times> packet_t option) cres" where
  "turkey_apply_all_evasion rnd buf block config packet =
     (case packet of None \<Rightarrow> Inr (-1, None)
      | Some p \<Rightarrow>
          bindC (turkey_header_obfuscation rnd buf config packet) (\<lambda>r1.
          bindC (if packet_is_https packet then turkey_tls_obfuscation block packet else Inr (-1)) (\<lambda>r2.
          let r3 = evasion_fragment_packet packet TURKEY_MAX_FRAGMENT_SIZE in
          bindC (turkey_ttl_manipulation packet) (\<lambda>(r4, packet').
            Inr (0, packet')))))"

definition turkey_should_apply_techniques :: "packet_t option \<Rightarrow> bool cres" where
  "turkey_should_apply_techniques packet =
     (case packet of None \<Rightarrow> Inr False | Some p \<Rightarrow> turkey_is_blocked_service packet)"

definition turkey_get_optimal_fragment_size :: "packet_t option \<Rightarrow> u32 cres" where
  "turkey_get_optimal_fragment_size packet =
     (case packet of None \<Rightarrow> Inr TURKEY_MAX_FRAGMENT_SIZE
      | Some p \<Rightarrow>
        bindC (packet_is_http packet) (\<lambda>http.
          if http
          then bindC (turkey_is_blocked_service packet) (\<lambda>b.
                 Inr (if b then TURKEY_HTTP_FRAGMENT_SIZE else DEFAULT_HTTP_FRAGMENT_SIZE))
          else if packet_is_https packet
          then bindC (turkey_is_blocked_service packet) (\<lambda>b.
                 Inr (if b then TURKEY_HTTPS_FRAGMENT_SIZE else DEFAULT_HTTPS_FRAGMENT_SIZE))
          else Inr TURKEY_MAX_FRAGMENT_SIZE))"

section \<open>Properties: service detection\<close>

lemma cstring_take_prefix: "0 \<notin> set s \<Longrightarrow> \<forall>i<k. p ! i \<noteq> 0 \<Longrightarrow> k + length s \<le> length p \<Longrightarrow>
    take (length s) (drop k p) = s \<Longrightarrow> sublist s (cstring p)"
proof -
  assume s: "0 \<notin> set s" and k: "\<forall>i<k. p ! i \<noteq> 0" "k + length s \<le> length p" "take (length s) (drop k p) = s"
  have p: "p = take k p @ s @ drop (k + length s) p"
    using k(3) by (metis add.commute append_take_drop_id drop_drop)
  have z: "0 \<notin> set (take k p)" using k(1,2) by (auto simp: in_set_conv_nth)
  have "cstring p = cstring (take k p @ s @ drop (k + length s) p)" using arg_cong [OF p, of cstring] .
  also have "\<dots> = take k p @ s @ cstring (drop (k + length s) p)" by (simp only: cstring_append z s not_False_eq_True)
  finally show ?thesis by (metis sublist_appendI)
qed

lemma strstr_sublist:
  assumes "terminated p" and "0 \<notin> set s" and "s \<noteq> []"
  shows "\<exists>r. strstr p s = Inr r \<and> (r \<noteq> None \<longleftrightarrow> sublist s (cstring p))"
proof -
  obtain r where r: "strstr p s = Inr r" using strstr_terminated [OF assms(1,2)] by blast
  have "sublist s (cstring p)" if "r = Some k" for k
    using strstr_Some [of p s k] r that cstring_take_prefix [OF assms(2), of k p] by blast
  moreover have False if "r = None" "sublist s (cstring p)"
  proof -
    from that(2) obtain u v where c: "cstring p = u @ s @ v" by (auto simp: sublist_def)
    obtain q where "p = cstring p @ q" by (rule cstring_split)
    then have "p = u @ s @ v @ q" using c by (metis append.assoc)
    then have "drop (length u) p = s @ v @ q" by (metis append_eq_conv_conj)
    then have "prefix_at (drop (length u) p) s = Inr True" by (simp add: prefix_at_append)
    moreover have "length u < length (cstring p)" using c assms(3) by simp
    ultimately show False using strstr_None [of p s "length u"] r that(1) by simp
  qed
  ultimately show ?thesis using r by (cases r) auto
qed

lemma any_service_sublist:
  assumes "terminated p"
  shows "\<forall>x \<in> set xs. 0 \<notin> set x \<and> x \<noteq> [] \<Longrightarrow>
    any_service p xs = Inr (\<exists>x \<in> set xs. sublist x (cstring p))"
proof (induction xs)
  case (Cons x xs)
  then obtain r where "strstr p x = Inr r" "r \<noteq> None \<longleftrightarrow> sublist x (cstring p)"
    using strstr_sublist [OF assms, of x] by auto
  with Cons show ?case by simp
qed simp

lemma turkish_services_ok: "\<forall>x \<in> set turkish_services. 0 \<notin> set x \<and> x \<noteq> []"
  by (simp add: turkish_services_def lit_def)

lemma cstring_zeros: "cstring (replicate n 0) = []"
  by (cases n) (simp_all add: cstring_def)

lemma cstring_map_tolower: "cstring (map tolower s) = map tolower (cstring s)"
  by (induction s) (simp_all add: cstring_def)

lemma any_service_padded:
  assumes "0 \<notin> set t" and "0 < k"
  shows "any_service (map tolower t @ replicate k 0) turkish_services =
    Inr (\<exists>x \<in> set turkish_services. sublist x (map tolower t))"
proof -
  have "0 \<notin> set (map tolower t)" using assms(1) by auto
  then have "cstring (map tolower t @ replicate k 0) = map tolower t" by (simp add: cstring_append cstring_zeros)
  moreover have "terminated (map tolower t @ replicate k 0)" using assms(2) by (simp add: terminated_def)
  ultimately show ?thesis using any_service_sublist [OF _ turkish_services_ok] by metis
qed

text \<open>
  \<open>turkey_is_blocked_service\<close> never reads outside the packet, and it answers yes exactly when one of the
  eleven service names occurs, in any case, in the first 511 bytes of the payload before the
  first NUL.
\<close>

theorem blocked_service_iff:
  assumes "packet_wf p" and "p_payload p = Some b"
  shows "turkey_is_blocked_service (Some p) =
    Inr (\<exists>x \<in> set turkish_services. sublist x (map tolower (cstring (take 511 b))))"
proof -
  let ?n = "if p_payload_len p < 511 then unat (p_payload_len p) else 511"
  let ?s = "take ?n (cstring b)"
  have n: "length b = unat (p_payload_len p)" "?n \<le> 511" using assms by (auto simp: packet_wf_def word_less_nat_alt)
  have c: "?s = cstring (take 511 b)"
    using n cstring_length [of b] by (auto simp: cstring_take word_less_nat_alt)
  have z: "0 \<notin> set ?s" by (auto simp: cstring_def dest: in_set_takeD set_takeWhileD)
  have "?n \<le> length b" using n(1) by (simp add: word_less_nat_alt)
  then have "strncpy (replicate 512 0) b ?n =
      Inr (?s @ replicate (?n - length (cstring b)) 0 @ replicate (512 - ?n) 0)"
    using strncpy_within [of ?n b "replicate 512 0"] n(2) by simp
  moreover have "replicate (?n - length (cstring b)) 0 @ replicate (512 - ?n) 0 = (replicate (512 - length ?s) 0 :: bytes)"
    using n(2) by (simp flip: replicate_add)
  ultimately have cp: "strncpy (replicate 512 0) b ?n = Inr (?s @ replicate (512 - length ?s) 0)" by simp
  have "terminated (?s @ replicate (512 - length ?s) 0)" using n(2) by (auto simp: terminated_def)
  then have lo: "string_to_lower_loop (?s @ replicate (512 - length ?s) 0) =
      Inr (map tolower ?s @ replicate (512 - length ?s) 0)"
    using z by (simp add: string_to_lower_loop_terminated cstring_append cstring_zeros del: take_append)
  have "any_service (map tolower ?s @ replicate (512 - length ?s) 0) turkish_services =
      Inr (\<exists>x \<in> set turkish_services. sublist x (map tolower ?s))"
    by (rule any_service_padded [OF z]) (use n(2) in simp)
  then show ?thesis using assms(2) cp lo unfolding c [symmetric]
    by (simp add: turkey_is_blocked_service_def Let_def)
qed

theorem blocked_service_iff_witness:
  "turkey_is_blocked_service (Some (packet_zero\<lparr>p_payload := Some (lit ''GET Discord.com''), p_payload_len := 15\<rparr>)) =
   Inr True"
proof -
  have "sublist (lit ''discord.com'') (map tolower (lit ''GET Discord.com''))"
    unfolding sublist_def
    by (rule exI [of _ "[103, 101, 116, 32]"], rule exI [of _ "[]"]) (simp add: lit_def tolower_def)
  then show ?thesis
    using blocked_service_iff [of "packet_zero\<lparr>p_payload := Some (lit ''GET Discord.com''), p_payload_len := 15\<rparr>"
        "lit ''GET Discord.com''"]
    by (simp add: packet_wf_def packet_zero_def turkish_services_def cstring_def lit_def)
qed

section \<open>Properties: header obfuscation and TTL\<close>

text \<open>
  On an ordinary HTTP request (no NUL byte) that has a Host header, \<open>turkey_header_obfuscation\<close> runs
  \<open>strlen\<close> off the end of the payload, unless one of the two other Host techniques is enabled.
\<close>

theorem turkey_obfuscation_overread:
  assumes "p_payload p = Some b" and "0 \<notin> set b" and "packet_is_http (Some p) = Inr True"
    and "strstr b (lit ''Host:'') = Inr (Some off)"
    and "\<not> cfg_host_mixedcase config" and "\<not> cfg_additional_space config"
  shows "turkey_header_obfuscation rnd buf config (Some p) = Inl OutOfBounds"
proof -
  have "\<not> terminated (drop off b)" using assms(2) by (auto simp: terminated_def dest: in_set_dropD)
  then show ?thesis using assms by (simp add: turkey_header_obfuscation_def strlen_unterminated Let_def)
qed

theorem turkey_obfuscation_overread_witness:
  "turkey_header_obfuscation 3 (replicate 256 0) config_defaults
     (Some (packet_zero\<lparr>p_type := PACKET_IPV4_TCP_DATA, p_dst_port := 80,
        p_payload := Some (lit ''GET Host: a''), p_payload_len := 11\<rparr>)) = Inl OutOfBounds"
  by (rule turkey_obfuscation_overread [of _ "lit ''GET Host: a''" 4])
    (simp_all add: lit_def packet_zero_def packet_is_http_def packet_is_tcp_def http_methods_def
      config_defaults_def config_zero_def)

text \<open>
  Changing the TTL of a packet whose IPv4 header checksum was right makes it wrong: \<open>packet_set_ttl\<close> stores
  the TTL and does not update the checksum (a comment announces the update).
\<close>

theorem set_ttl_breaks_checksum:
  assumes "p_type p = PACKET_IPV4_TCP" and "p_raw_packet p = Some (hdr @ rest)"
    and "length hdr = unat n" and "20 \<le> length hdr" and "length hdr \<le> 60"
    and "calculate_ip_checksum hdr n = Inr 0" and "hdr ! 8 \<noteq> ttl"
  shows "\<exists>hdr' c. packet_set_ttl (Some p) ttl =
      Inr (0, Some (p\<lparr>p_ttl := ttl, p_raw_packet := Some (hdr' @ rest)\<rparr>)) \<and>
    length hdr' = length hdr \<and> calculate_ip_checksum hdr' n = Inr c \<and> c \<noteq> 0"
proof -
  let ?h = "hdr[8 := ttl]"
  have l: "length hdr \<le> 65535" "length ?h \<le> 65535" "length ?h = unat n" using assms(3,5) by simp_all
  obtain c where c: "calculate_ip_checksum ?h n = Inr c" using checksum_value [OF l(2,3)] by blast
  have "c \<noteq> 0"
  proof
    assume "c = 0"
    then have "word_sum ?h mod 65535 = 0" "word_sum hdr mod 65535 = 0"
      using checksum_zero_mod [OF l(2,3)] checksum_zero_mod [OF l(1) assms(3,6)] c by auto
    moreover have "word_sum ?h + unat (hdr ! 8) = word_sum hdr + unat ttl"
      using word_sum_set [of 4 hdr ttl] assms(4) by simp
    ultimately have "unat (hdr ! 8) mod 65535 = unat ttl mod 65535"
      by (metis add.left_neutral mod_add_left_eq mod_mod_trivial)
    then have "unat (hdr ! 8) = unat ttl" using unat_u8_le [of "hdr ! 8"] unat_u8_le [of ttl] by simp
    then show False using assms(7) by (simp add: word_unat_eq_iff)
  qed
  moreover have "(hdr @ rest)[8 := ttl] = ?h @ rest" using assms(4) by (simp add: list_update_append)
  then have "packet_set_ttl (Some p) ttl = Inr (0, Some (p\<lparr>p_ttl := ttl, p_raw_packet := Some (?h @ rest)\<rparr>))"
    using assms(1,2,4) by (simp add: packet_set_ttl_def wr_def Let_def)
  ultimately show ?thesis using c by (intro exI [of _ ?h] exI [of _ c]) simp
qed

theorem set_ttl_breaks_checksum_witness:
  "\<exists>hdr' c. packet_set_ttl (Some (packet_zero\<lparr>p_type := PACKET_IPV4_TCP,
       p_raw_packet := Some ([0, 0, 0, 0, 0, 0, 0, 0, 255, 255, 0, 0, 0, 0, 0, 0, 0, 0, 0, 0])\<rparr>)) 64 =
     Inr (0, Some (packet_zero\<lparr>p_type := PACKET_IPV4_TCP, p_ttl := 64, p_raw_packet := Some hdr'\<rparr>)) \<and>
   calculate_ip_checksum hdr' 20 = Inr c \<and> c \<noteq> 0"
proof -
  let ?h = "[0, 0, 0, 0, 0, 0, 0, 0, 255, 255, 0, 0, 0, 0, 0, 0, 0, 0, 0, 0] :: bytes"
  let ?p = "packet_zero\<lparr>p_type := PACKET_IPV4_TCP, p_raw_packet := Some ?h\<rparr>"
  have "word_sum ?h = 65535" by simp
  moreover have "fold16 65535 = 65535" by (simp add: fold16.simps drop_bit_eq_div)
  ultimately have "calculate_ip_checksum ?h 20 = Inr 0"
    using checksum_value [of ?h 20] by (auto simp: unat_eq_zero)
  then show ?thesis
    using set_ttl_breaks_checksum [of ?p ?h "[]" 20 64] by auto
qed

end
