(* ===== verification/Processor.thy ===== *)
theory Processor
  imports Evasion
begin

text \<open>
  \<open>src/core/packet_processor.c\<close>: the Host header edits and \<open>packet_process\<close>, the function that decides what
  happens to a packet.  The payload is edited in place in the packet's own copy.
\<close>

section \<open>Definitions\<close>

definition find_host_header :: "bytes option \<Rightarrow> size_t \<Rightarrow> nat option cres" where
  "find_host_header payload payload_len =
     (if payload = None \<or> payload_len < 6 then Inr None else stristr payload (Some (lit ''Host:'')))"

text \<open>\<open>while (*p && (*p == ' ' || *p == '\t')) p++\<close> and \<open>while (*p && *p != '\r' && *p != '\n') p++\<close>:
  how far the pointer moves.\<close>

fun skip_blanks :: "bytes \<Rightarrow> nat cres" where
  "skip_blanks [] = Inl OutOfBounds"
| "skip_blanks (c # cs) =
     (if c \<noteq> 0 \<and> (c = 32 \<or> c = 9) then bindC (skip_blanks cs) (\<lambda>n. Inr (Suc n)) else Inr 0)"

fun line_length :: "bytes \<Rightarrow> nat cres" where
  "line_length [] = Inl OutOfBounds"
| "line_length (c # cs) =
     (if c \<noteq> 0 \<and> c \<noteq> 13 \<and> c \<noteq> 10 then bindC (line_length cs) (\<lambda>n. Inr (Suc n)) else Inr 0)"

definition apply_host_mixedcase :: "bytes \<Rightarrow> size_t \<Rightarrow> (int \<times> bytes) cres" where
  "apply_host_mixedcase payload payload_len =
     bindC (find_host_header (Some payload) payload_len) (\<lambda>r. case r of
         None \<Rightarrow> Inr (-1, payload)
       | Some host_pos \<Rightarrow>
           bindC (skip_blanks (drop (host_pos + 5) payload)) (\<lambda>ws.
           let value_start = host_pos + 5 + ws in
           bindC (line_length (drop value_start payload)) (\<lambda>value_len.
             if 0 < value_len
             then bindC (edit_at value_start (\<lambda>s. bindC (mix_case (Some s) value_len) deref) payload) (\<lambda>b.
                    Inr (0, b))
             else Inr (-1, payload))))"

definition apply_host_removespace :: "bytes \<Rightarrow> size_t \<Rightarrow> (int \<times> bytes) cres" where
  "apply_host_removespace payload payload_len =
     bindC (find_host_header (Some payload) payload_len) (\<lambda>r. case r of
         None \<Rightarrow> Inr (-1, payload)
       | Some host_pos \<Rightarrow>
           let after_colon = host_pos + 5 in
           bindC (rd payload after_colon) (\<lambda>c.
             if c = 32
             then bindC (strlen (drop (after_colon + 1) payload)) (\<lambda>n.
                  bindC (slice payload (after_colon + 1) (n + 1)) (\<lambda>m.
                  bindC (blit payload after_colon m) (\<lambda>b. Inr (0, b))))
             else Inr (-1, payload)))"

definition apply_additional_space :: "bytes \<Rightarrow> size_t \<Rightarrow> (int \<times> bytes) cres" where
  "apply_additional_space payload payload_len =
     bindC (find_host_header (Some payload) payload_len) (\<lambda>r. case r of
         None \<Rightarrow> Inr (-1, payload)
       | Some host_pos \<Rightarrow>
           let insert_pos = host_pos + 5 in
           bindC (strlen (drop insert_pos payload)) (\<lambda>n.
             let remaining_len = n + 1 in
             if 0 < remaining_len
             then bindC (slice payload insert_pos remaining_len) (\<lambda>m.
                  bindC (blit payload (insert_pos + 1) m) (\<lambda>b.
                  bindC (wr b insert_pos 32) (\<lambda>b'. Inr (0, b'))))
             else Inr (-1, payload)))"

text \<open>One of the three \<open>if (config.x && packet->payload) if (apply_x (...) == 0) modified = 1\<close>.\<close>

definition host_edit ::
  "bool \<Rightarrow> (bytes \<Rightarrow> size_t \<Rightarrow> (int \<times> bytes) cres) \<Rightarrow> packet_t \<times> int \<Rightarrow> (packet_t \<times> int) cres" where
  "host_edit enabled f st =
     (case st of (p, modified) \<Rightarrow>
        if enabled \<and> p_payload p \<noteq> None
        then bindC (deref (p_payload p)) (\<lambda>b. bindC (f b (p_payload_len p)) (\<lambda>(rc, b').
               Inr (p\<lparr>p_payload := Some b'\<rparr>, if rc = 0 then 1 else modified)))
        else Inr (p, modified))"

definition process_http :: "goodbyedpi_config_t \<Rightarrow> packet_t \<Rightarrow> (packet_t \<times> int) cres" where
  "process_http config p =
     bindC (host_edit (cfg_host_mixedcase config) apply_host_mixedcase (p, 0)) (\<lambda>s1.
     bindC (host_edit (cfg_host_removespace config) apply_host_removespace s1) (\<lambda>s2.
     bindC (host_edit (cfg_additional_space config) apply_additional_space s2) (\<lambda>(q, modified).
       Inr (q, if 0 < cfg_http_fragment_size config \<and>
                  evasion_fragment_packet (Some q) (cfg_http_fragment_size config) = 0
               then 1 else modified))))"

definition process_https ::
  "(size_t \<Rightarrow> bool) \<Rightarrow> (int \<Rightarrow> nat \<Rightarrow> int) \<Rightarrow> goodbyedpi_config_t \<Rightarrow> packet_t \<Rightarrow> raw_state \<Rightarrow> (int \<times> raw_state) cres" where
  "process_https malloc send_result config p rs =
     (let m1 = (if 0 < cfg_https_fragment_size config \<and>
                   evasion_fragment_packet (Some p) (cfg_https_fragment_size config) = 0 then 1 else 0)
      in if cfg_fake_packet config
         then bindC (evasion_inject_fake_packet malloc send_result config (Some p) rs) (\<lambda>(rc, rs').
                Inr (if rc = 0 then 1 else m1, rs'))
         else Inr (m1, rs))"

definition packet_process ::
  "(size_t \<Rightarrow> bool) \<Rightarrow> (int \<Rightarrow> nat \<Rightarrow> int) \<Rightarrow> goodbyedpi_config_t \<Rightarrow> packet_t option \<Rightarrow> raw_state \<Rightarrow>
   (int \<times> packet_t option \<times> raw_state) cres" where
  "packet_process malloc send_result config packet rs =
     (case packet of None \<Rightarrow> Inr (-1, None, rs)
      | Some p \<Rightarrow>
          if 0 < cfg_max_payload_size config \<and> ucast (cfg_max_payload_size config) < p_payload_len p
          then Inr (0, packet, rs)
          else bindC (packet_is_http packet) (\<lambda>http.
            if http
            then bindC (process_http config p) (\<lambda>(q, modified). Inr (modified, Some q, rs))
            else if packet_is_https packet
            then bindC (process_https malloc send_result config p rs) (\<lambda>(modified, rs').
                   Inr (modified, packet, rs'))
            else Inr (0, packet, rs)))"

section \<open>Lemmas\<close>

lemma edit_at_Inr:
  "edit_at off f b = Inr b' \<longleftrightarrow> off \<le> length b \<and> (\<exists>r. f (drop off b) = Inr r \<and> b' = take off b @ r)"
  by (auto simp: edit_at_def bindC_eq_Inr)

lemma slice_blit_length: "slice b i n = Inr m \<Longrightarrow> blit b j m = Inr b' \<Longrightarrow> length b' = length b"
  by (auto simp: blit_eq_Inr)

text \<open>Every edit keeps the length of the payload.\<close>

lemma apply_host_mixedcase_length: "apply_host_mixedcase b n = Inr (rc, b') \<Longrightarrow> length b' = length b"
  by (auto simp: apply_host_mixedcase_def bindC_eq_Inr edit_at_Inr mix_case_deref Let_def
      dest!: mix_case_loop_length split: option.splits if_splits)

lemma apply_host_removespace_length: "apply_host_removespace b n = Inr (rc, b') \<Longrightarrow> length b' = length b"
  by (auto simp: apply_host_removespace_def bindC_eq_Inr Let_def dest!: blit_length
      split: option.splits if_splits)

lemma apply_additional_space_length: "apply_additional_space b n = Inr (rc, b') \<Longrightarrow> length b' = length b"
  by (auto simp: apply_additional_space_def bindC_eq_Inr wr_eq_Inr Let_def dest!: blit_length
      split: option.splits if_splits)

lemmas apply_lengths = apply_host_mixedcase_length apply_host_removespace_length apply_additional_space_length

text \<open>The frame of \<open>packet_process\<close>: everything but the contents of the payload stays.\<close>

definition payload_only :: "packet_t \<Rightarrow> packet_t \<Rightarrow> bool" where
  "payload_only p q \<longleftrightarrow>
     q = p\<lparr>p_payload := p_payload q\<rparr> \<and> map_option length (p_payload q) = map_option length (p_payload p)"

lemma payload_only_refl [simp]: "payload_only p p"
  by (simp add: payload_only_def)

lemma payload_only_trans: "payload_only p q \<Longrightarrow> payload_only q r \<Longrightarrow> payload_only p r"
  by (cases p; cases q; cases r) (simp add: payload_only_def)

lemma payload_only_wf: "payload_only p q \<Longrightarrow> packet_wf p \<Longrightarrow> packet_wf q"
  by (cases p; cases q) (auto simp: payload_only_def packet_wf_def block_wf_def split: option.splits)

lemma host_edit_frame:
  assumes "\<forall>b n rc b'. f b n = Inr (rc, b') \<longrightarrow> length b' = length b" and "m \<in> {0, 1}"
  shows "retC (host_edit e f (p, m)) (\<lambda>(q, m'). payload_only p q \<and> m' \<in> {0, 1})"
proof (cases "e \<and> p_payload p \<noteq> None")
  case True
  then obtain b where b: "p_payload p = Some b" by auto
  show ?thesis
    using True assms by (auto simp: host_edit_def b payload_only_def retC_iff bindC_eq_Inr)
next
  case False
  then show ?thesis using assms(2) by (simp add: host_edit_def)
qed

lemma process_http_frame:
  "retC (process_http config p) (\<lambda>(q, m). payload_only p q \<and> m \<in> {0, 1})"
proof -
  have f: "\<forall>b n rc b'. apply_host_mixedcase b n = Inr (rc, b') \<longrightarrow> length b' = length b"
    "\<forall>b n rc b'. apply_host_removespace b n = Inr (rc, b') \<longrightarrow> length b' = length b"
    "\<forall>b n rc b'. apply_additional_space b n = Inr (rc, b') \<longrightarrow> length b' = length b"
    by (blast intro: apply_lengths)+
  show ?thesis unfolding process_http_def retC_bind
    by (rule retC_mono [OF host_edit_frame [OF f(1)]], simp, clarify,
        rule retC_mono [OF host_edit_frame [OF f(2)]], assumption, clarify,
        rule retC_mono [OF host_edit_frame [OF f(3)]], assumption)
      (auto; metis payload_only_trans)+
qed

lemma process_https_range:
  "retC (process_https malloc send_result config p rs) (\<lambda>(m, rs'). m \<in> {0, 1})"
  by (auto simp: process_https_def Let_def retC_iff bindC_eq_Inr split: if_splits)

lemma packet_process_outcome:
  assumes "packet_process malloc send_result config (Some p) rs = Inr (rc, q, rs')"
  shows "\<exists>q'. q = Some q' \<and> payload_only p q' \<and> rc \<in> {0, 1}"
  using assms process_http_frame [of config p] process_https_range [of malloc send_result config p rs]
  by (auto simp: packet_process_def retC_iff bindC_eq_Inr split: if_splits)

text \<open>When the function returns: an HTTP payload has a NUL byte with at least one more byte behind it.\<close>

definition spare_nul :: "bytes \<Rightarrow> bool" where
  "spare_nul b \<longleftrightarrow> 0 \<in> set (butlast b)"

lemma spare_nul_strlen: "spare_nul b \<longleftrightarrow> (\<exists>n. strlen b = Inr n \<and> n + 1 < length b)"
proof
  assume "spare_nul b"
  then have "terminated (butlast b)" by (simp add: spare_nul_def terminated_def)
  then have "strlen (butlast b) = Inr (length (cstring (butlast b)))" by (rule strlen_terminated)
  then show "\<exists>n. strlen b = Inr n \<and> n + 1 < length b"
    unfolding strlen_eq_Inr by (auto simp: nth_butlast intro!: exI [of _ "length (cstring (butlast b))"])
next
  assume "\<exists>n. strlen b = Inr n \<and> n + 1 < length b"
  then obtain n where "n < length (butlast b)" "butlast b ! n = 0" by (auto simp: strlen_eq_Inr nth_butlast less_diff_conv)
  then show "spare_nul b" unfolding spare_nul_def by (metis nth_mem)
qed

lemma spare_nulI: "length b' = length b \<Longrightarrow> i + 1 < length b \<Longrightarrow> b' ! i = 0 \<Longrightarrow> spare_nul b'"
  unfolding spare_nul_def in_set_conv_nth by (intro exI [of _ i]) (simp add: nth_butlast)

lemma nth_middle: "length a = j \<Longrightarrow> i < length d \<Longrightarrow> (a @ d @ r) ! (j + i) = d ! i"
  by (auto simp: nth_append)

lemma find_host_header_defined: "terminated b \<Longrightarrow> \<exists>r. find_host_header (Some b) n = Inr r"
  using stristr_loop_strstr [of b "lit ''Host:''"] strstr_terminated [of "map tolower b" "map tolower (lit ''Host:'')"]
  by (auto simp: find_host_header_def stristr_def terminated_def lit_def tolower_def image_iff)

text \<open>The Host header lies before the first NUL byte.\<close>

lemma find_host_header_before:
  assumes "find_host_header (Some b) n = Inr (Some k)" "strlen b = Inr m"
  shows "k + 5 \<le> m"
proof (rule ccontr)
  assume m: "\<not> k + 5 \<le> m"
  have host5: "length (lit ''Host:'') = 5" by (simp add: lit_def)
  have s: "stristr_loop b (lit ''Host:'') = Inr (Some k)"
    using assms(1) by (auto simp: find_host_header_def stristr_def lit_def split: if_splits)
  have b: "k + 5 < length b" "map tolower (take 5 (drop k b)) = map tolower (lit ''Host:'')" "\<forall>i<k. b ! i \<noteq> 0"
    using stristr_loop_Some [OF s] unfolding host5 by simp_all
  have z: "m < length b" "b ! m = 0" using assms(2) by (simp_all add: strlen_eq_Inr)
  then have "k \<le> m" using b(3) by (meson not_less)
  then have "map tolower (take 5 (drop k b)) ! (m - k) = 0" using m b(1) z by simp
  moreover have "map tolower (take 5 (drop k b)) ! (m - k) \<in> set (map tolower (lit ''Host:''))"
    using m \<open>k \<le> m\<close> unfolding b(2) by (intro nth_mem) (simp add: lit_def)
  ultimately show False by (auto simp: lit_def tolower_def)
qed

lemma skip_blanks_safe: "terminated s \<Longrightarrow> \<exists>n. skip_blanks s = Inr n \<and> n \<le> length (cstring s)"
  by (induction s) (auto simp: cstring_def)

lemma line_length_safe: "terminated s \<Longrightarrow> \<exists>n. line_length s = Inr n \<and> n \<le> length (cstring s)"
  by (induction s) (auto simp: cstring_def)

lemma terminated_drop: "strlen b = Inr m \<Longrightarrow> i \<le> m \<Longrightarrow> strlen (drop i b) = Inr (m - i)"
  by (auto simp: strlen_eq_Inr)

lemma strlen_cstring: "strlen s = Inr n \<Longrightarrow> terminated s \<and> length (cstring s) = n"
  by (simp add: strlen_iff split: if_splits)

lemma apply_host_mixedcase_spare:
  assumes "spare_nul b" shows "\<exists>rc b'. apply_host_mixedcase b n = Inr (rc, b') \<and> spare_nul b'"
proof -
  obtain m where m: "strlen b = Inr m" "m + 1 < length b" using assms spare_nul_strlen by blast
  obtain r where r: "find_host_header (Some b) n = Inr r"
    using find_host_header_defined strlen_cstring [OF m(1)] by blast
  show ?thesis
  proof (cases r)
    case None
    then show ?thesis using assms r by (simp add: apply_host_mixedcase_def)
  next
    case (Some k)
    have k: "k + 5 \<le> m" using find_host_header_before r m(1) Some by blast
    obtain ws where ws: "skip_blanks (drop (k + 5) b) = Inr ws" "k + 5 + ws \<le> m"
      using skip_blanks_safe strlen_cstring [OF terminated_drop [OF m(1) k]] k by fastforce
    let ?s = "k + 5 + ws"
    obtain l where l: "line_length (drop ?s b) = Inr l" "?s + l \<le> m"
      using line_length_safe strlen_cstring [OF terminated_drop [OF m(1) ws(2)]] ws(2) by fastforce
    have fit: "l - 0 \<le> length (drop ?s b)" using l(2) m(2) by simp
    obtain v where v: "mix_case_loop 0 l (drop ?s b) = Inr v" "length v = length (drop ?s b)"
      using mix_case_loop_safe [of l 0 "drop ?s b"] fit by blast
    let ?b = "take ?s b @ v"
    have "map tolower ?b = map tolower b"
      using mix_case_loop_lower [OF v(1)] by (metis append_take_drop_id map_append)
    moreover have len: "length ?b = length b" using v(2) ws(2) m(2) by simp
    ultimately have "tolower (?b ! m) = tolower (b ! m)" using m(2) by (metis Suc_eq_plus1 Suc_lessD nth_map)
    then have "?b ! m = 0" using m(1) by (simp add: strlen_eq_Inr)
    then have "spare_nul ?b" using len m(2) by (intro spare_nulI [of _ b m])
    moreover have "edit_at ?s (\<lambda>s. bindC (mix_case (Some s) l) deref) b = Inr ?b" if "0 < l"
      unfolding edit_at_Inr mix_case_deref using that v(1) ws(2) m(2) by simp
    ultimately show ?thesis
      using assms r Some ws(1) l(1) by (simp add: apply_host_mixedcase_def Let_def)
  qed
qed

lemma apply_host_removespace_spare:
  assumes "spare_nul b" shows "\<exists>rc b'. apply_host_removespace b n = Inr (rc, b') \<and> spare_nul b'"
proof -
  obtain m where m: "strlen b = Inr m" "m + 1 < length b" using assms spare_nul_strlen by blast
  obtain r where r: "find_host_header (Some b) n = Inr r"
    using find_host_header_defined strlen_cstring [OF m(1)] by blast
  show ?thesis
  proof (cases "\<exists>k. r = Some k \<and> b ! (k + 5) = 32")
    case False
    then show ?thesis
      using assms r m find_host_header_before [of b n _ m]
      by (cases r) (fastforce simp: apply_host_removespace_def Let_def rd_Inr)+
  next
    case True
    then obtain k where k: "r = Some k" "b ! (k + 5) = 32" by blast
    have le: "k + 5 \<le> m" using find_host_header_before r m(1) k(1) by blast
    have "k + 5 \<noteq> m" using k(2) m(1) by (auto simp: strlen_eq_Inr)
    then have lt: "k + 6 \<le> m" using le by simp
    let ?d = "take (m - (k + 6) + 1) (drop (k + 6) b)"
    let ?b = "take (k + 5) b @ ?d @ drop (k + 5 + length ?d) b"
    have d: "length ?d = m - (k + 6) + 1" "?d ! (m - (k + 6)) = 0"
      using m lt by (auto simp: strlen_eq_Inr)
    have pre: "length (take (k + 5) b) = k + 5" and i: "m - 1 = k + 5 + (m - (k + 6))" using lt m(2) by simp_all
    have "?b ! (m - 1) = ?d ! (m - (k + 6))" unfolding i by (rule nth_middle [OF pre]) (simp only: d(1))
    then have "spare_nul ?b" using d lt m(2) by (intro spare_nulI [of _ b "m - 1"]) auto
    moreover have "apply_host_removespace b n = Inr (0, ?b)"
      using r k lt m terminated_drop [OF m(1), of "k + 6"]
      by (simp add: apply_host_removespace_def Let_def rd_Inr slice_Inr blit_def add.commute [of 6 k])
    ultimately show ?thesis by blast
  qed
qed

lemma apply_additional_space_spare:
  assumes "spare_nul b" shows "\<exists>rc b'. apply_additional_space b n = Inr (rc, b')"
proof -
  obtain m where m: "strlen b = Inr m" "m + 1 < length b" using assms spare_nul_strlen by blast
  obtain r where r: "find_host_header (Some b) n = Inr r"
    using find_host_header_defined strlen_cstring [OF m(1)] by blast
  show ?thesis
  proof (cases r)
    case None
    then show ?thesis using r by (simp add: apply_additional_space_def)
  next
    case (Some k)
    have "k + 5 \<le> m" using find_host_header_before r m(1) Some by blast
    then show ?thesis
      using r Some m terminated_drop [OF m(1), of "k + 5"]
      by (simp add: apply_additional_space_def Let_def slice_Inr blit_def wr_Inr)
  qed
qed

lemma host_edit_defined:
  assumes "\<And>b n. spare_nul b \<Longrightarrow> \<exists>rc b'. f b n = Inr (rc, b') \<and> P b'"
    and "\<And>b. p_payload p = Some b \<Longrightarrow> spare_nul b" "\<And>b. spare_nul b \<Longrightarrow> P b"
  shows "\<exists>q m'. host_edit e f (p, m) = Inr (q, m') \<and> (\<forall>b. p_payload q = Some b \<longrightarrow> P b)"
proof (cases "p_payload p")
  case None
  then show ?thesis by (simp add: host_edit_def)
next
  case (Some b)
  then obtain rc b' where "f b (p_payload_len p) = Inr (rc, b')" "P b'" using assms(1,2) by blast
  then show ?thesis using Some assms(2,3) by (simp add: host_edit_def)
qed

lemma process_http_defined:
  assumes "\<And>b. p_payload p = Some b \<Longrightarrow> spare_nul b" shows "\<exists>q m. process_http config p = Inr (q, m)"
proof -
  obtain p1 m1 where 1: "host_edit (cfg_host_mixedcase config) apply_host_mixedcase (p, 0) = Inr (p1, m1)"
    "\<And>b. p_payload p1 = Some b \<Longrightarrow> spare_nul b"
    using host_edit_defined [of apply_host_mixedcase spare_nul p] apply_host_mixedcase_spare assms by metis
  obtain p2 m2 where 2: "host_edit (cfg_host_removespace config) apply_host_removespace (p1, m1) = Inr (p2, m2)"
    "\<And>b. p_payload p2 = Some b \<Longrightarrow> spare_nul b"
    using host_edit_defined [of apply_host_removespace spare_nul p1] apply_host_removespace_spare 1(2) by metis
  obtain p3 m3 where "host_edit (cfg_additional_space config) apply_additional_space (p2, m2) = Inr (p3, m3)"
    using host_edit_defined [of apply_additional_space "\<lambda>_. True" p2] apply_additional_space_spare 2(2) by metis
  then show ?thesis using 1(1) 2(1) by (simp add: process_http_def)
qed

definition processable :: "packet_t \<Rightarrow> bool" where
  "processable p \<longleftrightarrow> packet_wf p \<and> (p_headers p = None \<longrightarrow> p_headers_len p = 0) \<and>
     (case p_payload p of None \<Rightarrow> True | Some b \<Rightarrow> p_dst_port p \<noteq> 80 \<or> spare_nul b)"

lemma inject_defined:
  assumes "processable p"
  shows "\<exists>rc rs'. evasion_inject_fake_packet malloc send_result config (Some p) rs = Inr (rc, rs')"
proof -
  have "\<exists>h. copy_headers p = Inr h \<and> length h = unat (p_headers_len p)"
    using assms copy_headers_wf [of p]
    by (cases "p_headers p") (auto simp: processable_def copy_headers_def packet_wf_def)
  then obtain h where h: "copy_headers p = Inr h" "length h = unat (p_headers_len p)" by blast
  have dns: "unat (p_headers_len p + 64) \<le> length (h @ fake_dns)"
    using h(2) by (simp add: fake_dns_def unat_word_ariths)
  have send: "\<exists>rc rs'. send_raw_packet send_result d len v rs = Inr (rc, rs')" if "unat len \<le> length d" for d len v
    using that by (simp add: send_raw_packet_def Let_def slice_Inr)
  show ?thesis
    using send [of "p_headers_len p" h "p_is_ipv6 p"] send [OF dns, of "p_is_ipv6 p"] h
    by (auto simp: evasion_inject_fake_packet_def create_fake_reset_packet_def create_fake_dns_response_def Let_def)
qed

lemma packet_process_defined:
  assumes "processable p"
  shows "\<exists>rc q rs'. packet_process malloc send_result config (Some p) rs = Inr (rc, q, rs')"
proof -
  have any: "\<exists>r. any_prefix b ss = Inr r" if "terminated b" "\<forall>s\<in>set ss. 0 \<notin> set s" for b ss
    using that by (induction ss) (auto simp: prefix_at_terminated)
  have trm: "terminated b" if "spare_nul b" for b
    using that in_set_butlastD by (fastforce simp: spare_nul_def terminated_def)
  have http: "\<exists>r. packet_is_http (Some p) = Inr r \<and> (r \<longrightarrow> (\<forall>b. p_payload p = Some b \<longrightarrow> spare_nul b))"
  proof (cases "packet_is_tcp (Some p) \<and> p_dst_port p = 80 \<and> 3 \<le> p_payload_len p")
    case True
    then show ?thesis
      using assms any [OF trm, of _ http_methods]
      by (auto simp: packet_is_http_def processable_def http_methods_def lit_def split: option.split)
  qed (auto simp: packet_is_http_def split: option.split)
  then obtain h where h: "packet_is_http (Some p) = Inr h" "h \<Longrightarrow> p_payload p = Some b \<Longrightarrow> spare_nul b" for b by blast
  obtain rc rs' where i: "evasion_inject_fake_packet malloc send_result config (Some p) rs = Inr (rc, rs')"
    using inject_defined [OF assms] by blast
  have s: "\<exists>m rs'. process_https malloc send_result config p rs = Inr (m, rs')"
    by (simp add: process_https_def i Let_def)
  show ?thesis
  proof (cases h)
    case True
    then obtain q m where "process_http config p = Inr (q, m)" using process_http_defined [of p config] h(2) by blast
    then show ?thesis using True h(1) by (simp add: packet_process_def)
  next
    case False
    then show ?thesis using s h(1) by (auto simp: packet_process_def)
  qed
qed

text \<open>
  C17. \<open>packet_process\<close>, when it does not leave the payload buffer, returns 0 or 1 and touches nothing of the packet but
  the contents of the payload: length, headers, the raw packet that is re-injected, addresses and type stay, and a
  well-formed packet stays well formed.  It does return on every well-formed packet that has its headers, except
  possibly for a payload sent to port 80 that has no NUL byte before its last byte, for which the Host edits may
  run out of the buffer.
\<close>

theorem packet_process_frame:
  "case packet_process malloc send_result config (Some p) rs of
     Inl f \<Rightarrow> \<not> processable p
   | Inr (rc, packet, rs') \<Rightarrow>
       rc \<in> {0, 1} \<and>
       (\<exists>q. packet = Some q \<and> payload_only p q \<and> p_raw_packet q = p_raw_packet p \<and> (packet_wf p \<longrightarrow> packet_wf q))"
proof (cases "packet_process malloc send_result config (Some p) rs")
  case (Inl f)
  then show ?thesis using packet_process_defined [of p malloc send_result config rs] by auto
next
  case (Inr x)
  obtain rc packet rs' where x: "x = (rc, packet, rs')" by (cases x)
  obtain q where q: "packet = Some q" "payload_only p q" "rc \<in> {0, 1}"
    using packet_process_outcome Inr unfolding x by blast
  have "p_raw_packet q = p_raw_packet p" using q(2) by (cases p; cases q) (simp add: payload_only_def)
  then show ?thesis using Inr x q payload_only_wf by simp
qed

text \<open>A request with a Host header, as a C string with spare room, and what becomes of it.\<close>

definition sample_request :: packet_t where
  "sample_request = packet_zero\<lparr>p_type := PACKET_IPV4_TCP, p_dst_port := 80, p_payload_len := 27,
     p_payload := Some (lit ''GET / HTTP/1.1 Host: a.tr'' @ [0, 0])\<rparr>"

theorem packet_process_frame_witness:
  "case packet_process (\<lambda>n. True) (\<lambda>fd k. int k) (config_defaults\<lparr>cfg_host_mixedcase := True, cfg_host_removespace := True\<rparr>)
          (Some sample_request) raw_state0 of
     Inl f \<Rightarrow> False
   | Inr (rc, packet, rs') \<Rightarrow> rc \<in> {0, 1} \<and> map_option p_headers packet = Some None \<and>
       map_option p_payload_len packet = Some 27 \<and> map_option packet_wf packet = Some True"
proof -
  have p: "processable sample_request"
    by (simp add: processable_def sample_request_def packet_zero_def packet_wf_def spare_nul_def butlast_append lit_def)
  have q: "p_headers q = p_headers p \<and> p_payload_len q = p_payload_len p" if "payload_only p q" for p q
    using that by (cases p; cases q) (simp add: payload_only_def)
  show ?thesis
    using packet_process_frame [where malloc = "\<lambda>n. True" and send_result = "\<lambda>fd k. int k" and p = sample_request
        and config = "config_defaults\<lparr>cfg_host_mixedcase := True, cfg_host_removespace := True\<rparr>" and rs = raw_state0] p
    by (auto simp: processable_def sample_request_def packet_zero_def dest: q split: sum.splits)
qed

section \<open>Properties: the Host edits\<close>

lemma skip_blanks_exact:
  "set ws \<subseteq> {32, 9} \<Longrightarrow> c \<notin> {32, 9} \<Longrightarrow> skip_blanks (ws @ c # q) = Inr (length ws)"
  by (induction ws) auto

lemma line_length_exact:
  "\<forall>c \<in> set v. c \<notin> {0, 13, 10} \<Longrightarrow> e \<in> {0, 13, 10} \<Longrightarrow> line_length (v @ e # q) = Inr (length v)"
  by (induction v) auto

text \<open>
  C18. \<open>apply_host_mixedcase\<close> is safe on a request whose Host line is terminated, and it rewrites exactly the
  Host value: blanks, the rest of the request and the length stay, letters alternate lower and upper
  case from the first character, so the name is the same for a case-insensitive reader.
\<close>

theorem host_mixedcase_exact:
  assumes "find_host_header (Some b) n = Inr (Some k)"
    and "b = pre @ ws @ v @ e # rest" and "length pre = k + 5"
    and "set ws \<subseteq> {32, 9}" and "\<forall>c \<in> set v. c \<notin> {0, 13, 10}" and "e \<in> {0, 13, 10}"
    and "v \<noteq> []" and "hd v \<notin> {32, 9}"
  shows "\<exists>b'. apply_host_mixedcase b n = Inr (0, b') \<and>
     b' = pre @ ws @ map2 mix_char [0..<length v] v @ e # rest \<and> map tolower b' = map tolower b"
proof -
  obtain c v' where v: "v = c # v'" using assms(7) by (cases v) auto
  let ?s = "k + 5 + length ws"
  have d: "drop (k + 5) b = ws @ c # v' @ e # rest" "drop ?s b = v @ e # rest" "take ?s b = pre @ ws"
    using assms(2,3) v by simp_all
  have s: "skip_blanks (drop (k + 5) b) = Inr (length ws)"
    unfolding d using assms(4,8) v by (intro skip_blanks_exact) simp_all
  have l: "line_length (drop ?s b) = Inr (length v)"
    unfolding d using assms(5,6) by (rule line_length_exact)
  have "0 \<notin> set v" using assms(5) by auto
  then have m: "mix_case_loop 0 (length v) (v @ e # rest) = Inr (map2 mix_char [0..<length v] v @ e # rest)"
    by (intro mix_case_loop_exact) simp_all
  have "edit_at ?s (\<lambda>s. bindC (mix_case (Some s) (length v)) deref) b =
      Inr (pre @ ws @ map2 mix_char [0..<length v] v @ e # rest)"
    unfolding edit_at_Inr mix_case_deref d using m assms(2,3,7) by simp
  moreover have "map tolower (map2 mix_char [0..<length v] v) = map tolower v"
    using mix_case_loop_lower [OF m] by simp
  ultimately show ?thesis
    using assms(1,2,7) s l by (simp add: apply_host_mixedcase_def Let_def)
qed

theorem host_mixedcase_exact_witness:
  "apply_host_mixedcase (lit ''GET / HTTP/1.1 HOST: discord.com'' @ [13, 10]) 34 =
     Inr (0, lit ''GET / HTTP/1.1 HOST: dIsCoRd.cOm'' @ [13, 10])"
proof -
  have f: "find_host_header (Some (lit ''GET / HTTP/1.1 HOST: discord.com'' @ [13, 10])) 34 = Inr (Some 15)"
    by (simp add: find_host_header_def stristr_def lit_def tolower_def)
  have "lit ''GET / HTTP/1.1 HOST: discord.com'' @ [13, 10] =
      lit ''GET / HTTP/1.1 HOST:'' @ [32] @ lit ''discord.com'' @ 13 # [10]" by (simp add: lit_def)
  from host_mixedcase_exact [OF f this]
  show ?thesis by (simp add: lit_def mix_char_def tolower_def toupper_def upt_rec)
qed

lemma strlen_drop_free: "0 \<notin> set b \<Longrightarrow> strlen (drop k b) = Inl OutOfBounds"
  by (rule strlen_unterminated) (auto simp: terminated_def dest: in_set_dropD)

text \<open>
  On a payload without NUL byte (every ordinary request) that has a Host header, the additional space
  edit always runs past the payload, and the space removal does so whenever there is a space to
  remove: both measure the payload with \<open>strlen\<close>.
\<close>

theorem space_edits_overread:
  assumes "0 \<notin> set b" and "find_host_header (Some b) n = Inr (Some k)"
  shows "apply_additional_space b n = Inl OutOfBounds \<and>
    apply_host_removespace b n = (if b ! (k + 5) = 32 then Inl OutOfBounds else Inr (-1, b))"
proof -
  have "k + 5 < length b"
    using assms(2) stristr_loop_Some [of b "lit ''Host:''" k]
    by (auto simp: find_host_header_def stristr_def lit_def split: if_splits)
  then show ?thesis
    using assms by (simp add: apply_additional_space_def apply_host_removespace_def rd_Inr strlen_drop_free Let_def)
qed

theorem space_edits_overread_witness:
  "apply_additional_space (lit ''GET / HTTP/1.1 Host: a.tr'') 25 = Inl OutOfBounds"
  using space_edits_overread [of "lit ''GET / HTTP/1.1 Host: a.tr''" 25 15]
  by (simp add: find_host_header_def stristr_def lit_def tolower_def)

lemma packet_process_https_default:
  assumes "packet_is_https (Some p)" and "p_raw_packet p \<noteq> None" and "unat (p_payload_len p) \<le> 1200"
  shows "packet_process malloc send_result config_defaults (Some p) rs = Inr (1, Some p, rs)"
proof -
  have "p_dst_port p = 443" using assms(1) by (simp add: packet_is_https_def)
  then have "packet_is_http (Some p) = Inr False" by (simp add: packet_is_http_def split: option.split)
  moreover have "\<not> (1200 < p_payload_len p)" using assms(3) by (simp add: word_less_nat_alt)
  ultimately show ?thesis
    using assms by (simp add: packet_process_def process_https_def evasion_fragment_packet_def
        config_defaults_def config_zero_def)
qed

text \<open>
  With the built-in configuration every TCP packet to port 443 of at most 1200 payload bytes is reported
  as modified although nothing of it changes.
\<close>

theorem https_reported_modified:
  assumes "packet_is_https (Some p)" and "p_raw_packet p \<noteq> None" and "unat (p_payload_len p) \<le> 1200"
  shows "packet_process malloc send_result config_defaults (Some p) rs = Inr (1, Some p, rs)"
  by (rule packet_process_https_default [OF assms])

theorem https_reported_modified_witness:
  "packet_process (\<lambda>n. True) (\<lambda>fd k. int k) config_defaults
     (Some (packet_zero\<lparr>p_type := PACKET_IPV4_TCP, p_dst_port := 443, p_raw_packet := Some []\<rparr>)) raw_state0 =
   Inr (1, Some (packet_zero\<lparr>p_type := PACKET_IPV4_TCP, p_dst_port := 443, p_raw_packet := Some []\<rparr>), raw_state0)"
  by (rule https_reported_modified) (simp_all add: packet_is_https_def packet_is_tcp_def packet_zero_def)

end
