(* ===== verification/Netfilter.thy ===== *)
theory Netfilter
  imports Prelude
begin

text \<open>
  \<open>src/capture/netfilter_capture.c\<close> and \<open>src/include/netfilter_capture.h\<close>: the wrapper around
  libnetfilter_queue.  The library is a parameter: \<open>nfq_api\<close> holds the queries the sources make of a
  queue message of type \<open>'nfa\<close> and what \<open>nfq_set_verdict\<close> answers; the outcomes of the calls that set a
  queue up are the fields of \<open>nfq_open_env\<close>.  The state records the verdicts given to the kernel.
\<close>

section \<open>State\<close>

record 'nfa nfq_api =
  nfq_get_msg_packet_hdr :: "'nfa \<Rightarrow> u32 option"  \<comment> \<open>\<open>packet_id\<close> of the header, in network order\<close>
  nfq_get_payload :: "'nfa \<Rightarrow> int \<times> bytes option"
  nfq_get_indev :: "'nfa \<Rightarrow> u32"
  nfq_get_outdev :: "'nfa \<Rightarrow> u32"
  nfq_get_packet_hw :: "'nfa \<Rightarrow> (bytes \<times> u16) option"  \<comment> \<open>\<open>hw_addr\<close> and \<open>hw_addrlen\<close>\<close>
  nfq_set_verdict_rc :: "u32 \<Rightarrow> int \<Rightarrow> bytes \<Rightarrow> int"

text \<open>What the library promises of \<open>nfq_get_payload\<close>: the data with its length, or -1 and no data.
  A queue message carries at most 0xffff bytes, the range the code asks for.\<close>

definition payload_ok :: "'nfa nfq_api \<Rightarrow> bool" where
  "payload_ok api \<longleftrightarrow> (\<forall>m. case nfq_get_payload api m of
       (n, Some b) \<Rightarrow> n = int (length b) \<and> length b \<le> 65535
     | (n, None) \<Rightarrow> n = -1)"

record verdict =
  vd_id :: u32
  vd_verdict :: int
  vd_data :: bytes

record netfilter_context_t =
  nc_nfq_handle :: bool  \<comment> \<open>pointer not NULL\<close>
  nc_queue_handle :: bool
  nc_fd :: int
  nc_queue_num :: u16
  nc_initialized :: bool
  nc_buffer_len :: nat

text \<open>The context together with what exists in the kernel: the library handle, the queue bound to it, and
  the verdicts given.\<close>

record nf_state =
  nf_ctx :: netfilter_context_t
  nf_handle_open :: bool
  nf_queue_exists :: bool
  nf_callback_set :: bool
  nf_verdicts :: "verdict list"

definition NF_ACCEPT :: int where "NF_ACCEPT = 1"

definition ctx_zero :: netfilter_context_t where
  "ctx_zero = \<lparr>nc_nfq_handle = False, nc_queue_handle = False, nc_fd = 0, nc_queue_num = 0,
               nc_initialized = False, nc_buffer_len = 0\<rparr>"

section \<open>Setting a queue up\<close>

record nfq_open_env =
  oe_open :: bool
  oe_unbind4 :: bool
  oe_unbind6 :: bool
  oe_bind4 :: bool
  oe_bind6 :: bool
  oe_create :: bool
  oe_mode :: bool
  oe_fd :: int

definition nfq_close :: "nf_state \<Rightarrow> nf_state" where
  "nfq_close s = s\<lparr>nf_handle_open := False\<rparr>"

definition nfq_destroy_queue :: "nf_state \<Rightarrow> nf_state" where
  "nfq_destroy_queue s = s\<lparr>nf_queue_exists := False\<rparr>"

definition upd_ctx :: "(netfilter_context_t \<Rightarrow> netfilter_context_t) \<Rightarrow> nf_state \<Rightarrow> nf_state" where
  "upd_ctx f s = s\<lparr>nf_ctx := f (nf_ctx s)\<rparr>"

definition netfilter_init :: "nfq_open_env \<Rightarrow> u16 \<Rightarrow> nf_state \<Rightarrow> int \<times> nf_state" where
  "netfilter_init oe queue_num s =
     (let s0 = s\<lparr>nf_ctx := ctx_zero\<lparr>nc_queue_num := queue_num\<rparr>\<rparr> in
      if \<not> oe_open oe then (-1, s0)
      else (let s1 = (upd_ctx (nc_nfq_handle_update (\<lambda>_. True)) s0)\<lparr>nf_handle_open := True\<rparr> in
      if \<not> oe_unbind4 oe then (-1, nfq_close s1)
      else if \<not> oe_unbind6 oe then (-1, nfq_close s1)
      else if \<not> oe_bind4 oe then (-1, nfq_close s1)
      else if \<not> oe_bind6 oe then (-1, nfq_close s1)
      else if \<not> oe_create oe then (-1, nfq_close s1)
      else (let s2 = (upd_ctx (nc_queue_handle_update (\<lambda>_. True)) s1)\<lparr>nf_queue_exists := True\<rparr> in
      if \<not> oe_mode oe then (-1, nfq_close (nfq_destroy_queue s2))
      else (let s3 = upd_ctx (nc_fd_update (\<lambda>_. oe_fd oe)) s2 in
      if oe_fd oe < 0 then (-1, nfq_close (nfq_destroy_queue s3))
      else (0, upd_ctx (nc_initialized_update (\<lambda>_. True)) (s3\<lparr>nf_callback_set := True\<rparr>))))))"

definition netfilter_cleanup :: "nf_state \<Rightarrow> int \<times> nf_state" where
  "netfilter_cleanup s =
     (if \<not> nc_initialized (nf_ctx s) then (-1, s)
      else (let s1 = (if nc_queue_handle (nf_ctx s) then nfq_destroy_queue s else s);
                s2 = (if nc_nfq_handle (nf_ctx s1) then nfq_close s1 else s1)
            in (0, upd_ctx (nc_initialized_update (\<lambda>_. False)) s2)))"

section \<open>Packets and verdicts\<close>

definition nfq_set_verdict :: "'nfa nfq_api \<Rightarrow> u32 \<Rightarrow> int \<Rightarrow> bytes \<Rightarrow> nf_state \<Rightarrow> int \<times> nf_state" where
  "nfq_set_verdict api packet_id v data s =
     (let rc = nfq_set_verdict_rc api packet_id v data in
      (rc, if rc < 0 then s
           else s\<lparr>nf_verdicts := nf_verdicts s @ [\<lparr>vd_id = packet_id, vd_verdict = v, vd_data = data\<rparr>]\<rparr>))"

definition netfilter_send_verdict ::
  "'nfa nfq_api \<Rightarrow> u32 \<Rightarrow> int \<Rightarrow> bytes \<Rightarrow> size_t \<Rightarrow> nf_state \<Rightarrow> (int \<times> nf_state) cres" where
  "netfilter_send_verdict api packet_id v data data_len s =
     (if \<not> nc_initialized (nf_ctx s) then Inr (-1, s)
      else bindC (slice data 0 (unat data_len)) (\<lambda>d.
        let (rc, s') = nfq_set_verdict api packet_id v d s in
        Inr (if rc < 0 then -1 else 0, s')))"

text \<open>\<open>*packet_len = nfq_get_payload (...)\<close>: the \<open>int\<close> is stored into a \<open>uint32_t\<close>.\<close>

definition netfilter_get_packet_data :: "'nfa nfq_api \<Rightarrow> 'nfa option \<Rightarrow> int \<times> bytes option \<times> u32" where
  "netfilter_get_packet_data api nfa =
     (case nfa of None \<Rightarrow> (-1, None, 0)
      | Some m \<Rightarrow>
          (case nfq_get_payload api m of (n, d) \<Rightarrow>
             (let packet_len = word_of_int n in (if 0 < packet_len then 0 else -1, d, packet_len))))"

text \<open>\<open>packet_id\<close> is the caller's variable, \<open>None\<close> while it is uninitialised.  The other outputs are written
  only when the caller asks for them.\<close>

record packet_meta =
  md_packet_id :: "u32 option"
  md_in_dev :: "u32 option"
  md_out_dev :: "u32 option"
  md_hw_addr :: "bytes option"
  md_hw_addrlen :: "u16 option"

definition netfilter_get_packet_metadata ::
  "'nfa nfq_api \<Rightarrow> 'nfa option \<Rightarrow> bool \<times> bool \<times> bool \<times> bool \<Rightarrow> packet_meta \<Rightarrow> int \<times> packet_meta" where
  "netfilter_get_packet_metadata api nfa wanted md =
     (case (nfa, wanted) of
        (None, _) \<Rightarrow> (-1, md)
      | (Some m, (in_dev, out_dev, hw_addr, hw_addrlen)) \<Rightarrow>
          (0, case nfq_get_msg_packet_hdr api m of
                None \<Rightarrow> md
              | Some i \<Rightarrow>
                  (let md1 = md\<lparr>md_packet_id := Some (ntohl i)\<rparr>;
                       md2 = (if in_dev then md1\<lparr>md_in_dev := Some (nfq_get_indev api m)\<rparr> else md1);
                       md3 = (if out_dev then md2\<lparr>md_out_dev := Some (nfq_get_outdev api m)\<rparr> else md2)
                   in case nfq_get_packet_hw api m of
                        None \<Rightarrow> md3
                      | Some (a, l) \<Rightarrow>
                          if hw_addr
                          then (let md4 = md3\<lparr>md_hw_addr := Some (take 8 a)\<rparr>
                                in if hw_addrlen then md4\<lparr>md_hw_addrlen := Some (ntohs l)\<rparr> else md4)
                          else md3)))"

text \<open>The queue callback.  The state \<open>'s\<close> is the caller's; \<open>get\<close> and \<open>put\<close> reach the part of this component in
  it.  \<open>callback\<close> is \<open>g_packet_callback\<close>.\<close>

definition netfilter_callback ::
  "'nfa nfq_api \<Rightarrow> ('s \<Rightarrow> nf_state) \<Rightarrow> (nf_state \<Rightarrow> 's \<Rightarrow> 's) \<Rightarrow> ('nfa \<Rightarrow> 's \<Rightarrow> (int \<times> 's) cres) option \<Rightarrow>
   'nfa \<Rightarrow> 's \<Rightarrow> (int \<times> 's) cres" where
  "netfilter_callback api get put callback nfa s =
     (let packet_id = (case nfq_get_msg_packet_hdr api nfa of None \<Rightarrow> 0 | Some i \<Rightarrow> ntohl i);
          packet_len = (word_of_int (fst (nfq_get_payload api nfa)) :: u32);
          accept = (let (rc, n) = nfq_set_verdict api packet_id NF_ACCEPT [] (get s) in Inr (rc, put n s))
      in if packet_len = 0 then accept
         else (case callback of Some cb \<Rightarrow> cb nfa s | None \<Rightarrow> accept))"

text \<open>One call of \<open>recv\<close>: an error, no data, or a buffer of \<open>len\<close> bytes which \<open>nfq_handle_packet\<close> takes apart
  into the messages \<open>msgs\<close>, calling the callback on each in turn, and for which it returns \<open>rc\<close>.\<close>

datatype 'nfa recv_outcome = RecvFailed | RecvAgain | RecvData nat "'nfa list" int

fun handle_messages :: "('nfa \<Rightarrow> 's \<Rightarrow> (int \<times> 's) cres) \<Rightarrow> 'nfa list \<Rightarrow> 's \<Rightarrow> 's cres" where
  "handle_messages cb [] s = Inr s"
| "handle_messages cb (m # ms) s = bindC (cb m s) (\<lambda>(rc, s'). handle_messages cb ms s')"

definition netfilter_receive_packet ::
  "('s \<Rightarrow> nf_state) \<Rightarrow> (nf_state \<Rightarrow> 's \<Rightarrow> 's) \<Rightarrow> ('nfa \<Rightarrow> 's \<Rightarrow> (int \<times> 's) cres) \<Rightarrow> 'nfa recv_outcome \<Rightarrow> 's \<Rightarrow>
   (int \<times> 's) cres" where
  "netfilter_receive_packet get put cb r s =
     (if \<not> nc_initialized (nf_ctx (get s)) then Inr (-1, s)
      else (case r of
          RecvFailed \<Rightarrow> Inr (-1, s)
        | RecvAgain \<Rightarrow> Inr (0, s)
        | RecvData len msgs rc \<Rightarrow>
            (let s1 = put (upd_ctx (nc_buffer_len_update (\<lambda>_. len)) (get s)) s in
             bindC (handle_messages cb msgs s1) (\<lambda>s2.
               Inr (if rc < 0 then -1 else int len, s2)))))"

section \<open>Properties\<close>

text \<open>Exactly the resources the context records are held.\<close>

definition nf_wf :: "nf_state \<Rightarrow> bool" where
  "nf_wf s \<longleftrightarrow>
     (nf_handle_open s \<longleftrightarrow> nc_initialized (nf_ctx s)) \<and> (nf_queue_exists s \<longleftrightarrow> nc_initialized (nf_ctx s)) \<and>
     (nc_initialized (nf_ctx s) \<longrightarrow>
        nc_nfq_handle (nf_ctx s) \<and> nc_queue_handle (nf_ctx s) \<and> 0 \<le> nc_fd (nf_ctx s) \<and> nf_callback_set s)"

lemmas nf_simps = nfq_close_def nfq_destroy_queue_def upd_ctx_def ctx_zero_def nf_wf_def

text \<open>
  C23. \<open>netfilter_init\<close> is all or nothing: it succeeds exactly when every library call does, then the handle
  and the queue exist and the context is usable; on any failure whatever was opened is closed
  again.  \<open>netfilter_cleanup\<close> releases both exactly once.
\<close>

theorem netfilter_init_atomic:
  assumes "\<not> nf_handle_open s" and "\<not> nf_queue_exists s" and "netfilter_init oe q s = (rc, s1)"
  shows "nf_wf s1 \<and> (rc = 0 \<longleftrightarrow> nc_initialized (nf_ctx s1)) \<and>
    (rc = 0 \<longleftrightarrow> oe_open oe \<and> oe_unbind4 oe \<and> oe_unbind6 oe \<and> oe_bind4 oe \<and> oe_bind6 oe \<and>
                oe_create oe \<and> oe_mode oe \<and> 0 \<le> oe_fd oe) \<and>
    (rc = 0 \<longrightarrow> (\<exists>s2. netfilter_cleanup s1 = (0, s2) \<and> \<not> nf_handle_open s2 \<and> \<not> nf_queue_exists s2 \<and>
                    fst (netfilter_cleanup s2) = -1))"
  using assms by (auto simp: netfilter_init_def netfilter_cleanup_def nf_simps Let_def split: if_splits)

definition nf_state0 :: nf_state where
  "nf_state0 = \<lparr>nf_ctx = ctx_zero, nf_handle_open = False, nf_queue_exists = False,
                nf_callback_set = False, nf_verdicts = []\<rparr>"

definition oe_fine :: nfq_open_env where
  "oe_fine = \<lparr>oe_open = True, oe_unbind4 = True, oe_unbind6 = True, oe_bind4 = True, oe_bind6 = True,
              oe_create = True, oe_mode = True, oe_fd = 3\<rparr>"

theorem netfilter_init_atomic_witness:
  "fst (netfilter_init oe_fine 0 nf_state0) = 0 \<and>
   nf_wf (snd (netfilter_init (oe_fine\<lparr>oe_mode := False\<rparr>) 0 nf_state0))"
  using netfilter_init_atomic [of nf_state0 oe_fine 0 "fst (netfilter_init oe_fine 0 nf_state0)" "snd (netfilter_init oe_fine 0 nf_state0)"]
    netfilter_init_atomic [of nf_state0 "oe_fine\<lparr>oe_mode := False\<rparr>" 0
      "fst (netfilter_init (oe_fine\<lparr>oe_mode := False\<rparr>) 0 nf_state0)"
      "snd (netfilter_init (oe_fine\<lparr>oe_mode := False\<rparr>) 0 nf_state0)"]
  by (simp add: nf_state0_def oe_fine_def)

end
