(* ===== verification/Callback.thy ===== *)
theory Callback
  imports Processor Netfilter
begin

text \<open>
  \<open>src/main.c\<close>, \<open>packet_process_callback\<close>: what happens to one packet of the queue, with the statistics
  counters and the verdict.  The callback reads the message, parses a copy of its bytes,
  processes the copy and may give a verdict.
\<close>

section \<open>State and definitions\<close>

record app_state =
  ap_nf :: nf_state
  ap_raw :: raw_state
  packets_processed :: u64
  packets_modified :: u64
  bytes_processed :: u64
  ap_lost :: nat  \<comment> \<open>heap blocks that no pointer leads to any more\<close>

text \<open>What the callback gets from the outside: the queue library, the allocator, \<open>send\<close> and the
  configuration.\<close>

record 'nfa cb_env =
  ce_api :: "'nfa nfq_api"
  ce_parse_malloc :: malloc_env
  ce_malloc :: "size_t \<Rightarrow> bool"
  ce_send :: "int \<Rightarrow> nat \<Rightarrow> int"
  ce_config :: goodbyedpi_config_t

definition md_uninit :: packet_meta where
  "md_uninit = \<lparr>md_packet_id = None, md_in_dev = None, md_out_dev = None, md_hw_addr = None, md_hw_addrlen = None\<rparr>"

text \<open>The use of \<open>packet_id\<close>: reading it while it is uninitialised is a fault.\<close>

definition read_init :: "'a option \<Rightarrow> 'a cres" where
  "read_init x = (case x of None \<Rightarrow> Inl UninitRead | Some v \<Rightarrow> Inr v)"

lemma read_init_simps [simp]: "read_init None = Inl UninitRead" "read_init (Some v) = Inr v"
  by (simp_all add: read_init_def)

definition count_packet :: "u32 \<Rightarrow> app_state \<Rightarrow> app_state" where
  "count_packet packet_len s =
     s\<lparr>packets_processed := packets_processed s + 1, bytes_processed := bytes_processed s + ucast packet_len\<rparr>"

text \<open>The local \<open>packet\<close> goes out of scope: the blocks that it still owns are lost.\<close>

definition packet_blocks :: "packet_t \<Rightarrow> nat" where
  "packet_blocks p =
     (if p_payload p = None then 0 else 1) + (if p_headers p = None then 0 else 1) +
     (if p_raw_packet p = None then 0 else 1)"

definition leave_scope :: "packet_t option \<Rightarrow> app_state \<Rightarrow> app_state" where
  "leave_scope packet s = s\<lparr>ap_lost := ap_lost s + (case packet of None \<Rightarrow> 0 | Some p \<Rightarrow> packet_blocks p)\<rparr>"

text \<open>The part after \<open>packet_process\<close>: \<open>rc\<close> is its result.  \<open>packet_free\<close> is always called.\<close>

definition conclude_packet ::
  "'nfa cb_env \<Rightarrow> u32 \<Rightarrow> int \<Rightarrow> packet_t option \<Rightarrow> app_state \<Rightarrow> (int \<times> app_state) cres" where
  "conclude_packet env packet_id rc packet s =
     bindC
       (if rc = 0
      then (let s1 = s\<lparr>packets_modified := packets_modified s + 1\<rparr> in
            bindC (deref packet) (\<lambda>p.
            case p_raw_packet p of
              None \<Rightarrow> Inr (NF_ACCEPT, s1)
            | Some raw \<Rightarrow>
                if 0 < p_raw_packet_len p
                then bindC (netfilter_send_verdict (ce_api env) packet_id NF_ACCEPT raw (p_raw_packet_len p)
                              (ap_nf s1)) (\<lambda>(v, n). Inr (v, s1\<lparr>ap_nf := n\<rparr>))
                else Inr (NF_ACCEPT, s1)))
      else Inr (NF_ACCEPT, s))
       (\<lambda>(verdict, s2). Inr (verdict, leave_scope (packet_free packet) s2))"

definition packet_process_callback :: "'nfa cb_env \<Rightarrow> 'nfa \<Rightarrow> app_state \<Rightarrow> (int \<times> app_state) cres" where
  "packet_process_callback env nfa s =
     (case netfilter_get_packet_metadata (ce_api env) (Some nfa) (False, False, False, False) md_uninit of
        (mrc, md) \<Rightarrow>
          if mrc < 0 then Inr (NF_ACCEPT, s)
          else (case netfilter_get_packet_data (ce_api env) (Some nfa) of
            (drc, packet_data, packet_len) \<Rightarrow>
              if drc < 0 then Inr (NF_ACCEPT, s)
              else (let s1 = count_packet packet_len s in
                bindC (packet_parse (ce_parse_malloc env) packet_data (ucast packet_len) (Some packet_zero))
                  (\<lambda>(prc, packet).
                if prc < 0 then Inr (NF_ACCEPT, leave_scope packet s1)
                else bindC (read_init (md_packet_id md)) (\<lambda>packet_id.
                     bindC (packet_process (ce_malloc env) (ce_send env) (ce_config env)
                              (map_option (\<lambda>p. p\<lparr>p_nfqueue_id := packet_id\<rparr>) packet) (ap_raw s1))
                       (\<lambda>(rc, packet', rs). conclude_packet env packet_id rc packet' (s1\<lparr>ap_raw := rs\<rparr>)))))))"

section \<open>No block is lost\<close>

lemma leave_freed [simp]: "leave_scope (packet_free packet) s = s"
  by (cases packet) (simp_all add: leave_scope_def packet_free_def packet_init_def packet_blocks_def packet_zero_def Let_def)

lemma leave_zero [simp]: "leave_scope (Some packet_zero) s = s"
  by (simp add: leave_scope_def packet_blocks_def packet_zero_def)

text \<open>A parser that fails has not allocated anything.\<close>

lemma packet_parse_ipv4_fails:
  assumes "packet_parse_ipv4 malloc (Some d) n p = Inr (rc, q)" "rc < 0" "packet_blocks p = 0"
  shows "packet_blocks q = 0"
  using assms
  by (auto simp: packet_parse_ipv4_def parse_ipv4_tcp_def parse_ipv4_udp_def ipv4_store_def Let_def bindC_eq_Inr
      packet_blocks_def packet_zero_def split: if_splits)

lemma packet_parse_fails:
  assumes "packet_parse malloc data n (Some packet_zero) = Inr (rc, q)" "rc < 0"
  shows "leave_scope q s = s"
proof -
  have z: "packet_blocks packet_zero = 0" by (simp add: packet_blocks_def packet_zero_def)
  have "case q of None \<Rightarrow> True | Some p \<Rightarrow> packet_blocks p = 0"
    using assms z
    by (auto simp: packet_parse_def packet_parse_ipv6_def Let_def bindC_eq_Inr dest: packet_parse_ipv4_fails [OF _ _ z]
        split: option.splits if_splits)
  then show ?thesis by (auto simp: leave_scope_def split: option.splits)
qed

section \<open>The verdict is the packet as it came\<close>

text \<open>What the parser stores as the raw packet is the datagram.\<close>

definition raw_is :: "bytes \<Rightarrow> packet_t \<Rightarrow> bool" where
  "raw_is d p \<longleftrightarrow> (p_raw_packet p = None \<or> p_raw_packet p = Some d) \<and> p_raw_packet_len p = of_nat (length d)"

lemma retC_malloc_copy_all:
  assumes "length d = unat n" and "\<And>r. r = None \<or> r = Some d \<Longrightarrow> P r"
  shows "retC (malloc_copy malloc k d 0 n) P"
  using assms by (auto simp: malloc_copy_def wp)

definition parsed_raw :: "bytes \<Rightarrow> int \<times> packet_t \<Rightarrow> bool" where
  "parsed_raw d r \<longleftrightarrow> fst r \<in> {0, -1} \<and> (fst r = 0 \<longrightarrow> raw_is d (snd r))"

lemma ipv4_store_raw:
  assumes "length d = unat n"
  shows "retC (ipv4_store malloc d n ihl proto p) (parsed_raw d)"
proof -
  have n: "n = of_nat (length d)" using assms by simp
  show ?thesis
    unfolding ipv4_store_def retC_bind
  proof (rule retC_malloc_copy_all [OF assms])
    fix raw assume r: "raw = None \<or> raw = Some d"
    have "retC (malloc_copy malloc 2 d 0 k) (\<lambda>x. retC (Inr (0, p\<lparr>p_raw_packet_len := n, p_raw_packet := raw,
         p_headers_len := k, p_headers := x\<rparr>)) (parsed_raw d))" for k
      using r n by (intro retC_malloc_copy) (auto simp: parsed_raw_def raw_is_def)
    then show "retC (ipv4_headers_len d ihl proto) (\<lambda>hl. retC (malloc_copy malloc 2 d 0 (of_nat hl)) (\<lambda>hdrs.
        retC (Inr (0, p\<lparr>p_raw_packet_len := n, p_raw_packet := raw, p_headers_len := of_nat hl,
          p_headers := hdrs\<rparr>)) (parsed_raw d)))"
      by (auto simp: retC_iff)
  qed
qed

lemma packet_parse_ipv4_raw:
  assumes "length d = unat n"
  shows "retC (packet_parse_ipv4 malloc (Some d) n p) (parsed_raw d)"
  unfolding packet_parse_ipv4_def Let_def option.case retC_bind retC_if
  using ipv4_store_raw [OF assms, of malloc]
  by (auto simp: parsed_raw_def retC_iff split: prod.split if_splits)

lemma packet_parse_ipv6_raw:
  assumes "length d = unat n"
  shows "retC (packet_parse_ipv6 malloc d n p) (parsed_raw d)"
proof -
  have n: "n = of_nat (length d)" using assms by simp
  show ?thesis unfolding packet_parse_ipv6_def retC_bind
    by (rule retC_malloc_copy_all [OF assms]) (auto simp: parsed_raw_def raw_is_def n)
qed

lemma packet_parse_raw:
  assumes "length d = unat n" and "packet_parse malloc (Some d) n (Some p0) = Inr (rc, q)" and "\<not> rc < 0"
  shows "\<exists>p. q = Some p \<and> raw_is d p"
  using assms(2,3) packet_parse_ipv4_raw [OF assms(1), of malloc p0] packet_parse_ipv6_raw [OF assms(1), of malloc p0]
  by (auto simp: packet_parse_def Let_def bindC_eq_Inr parsed_raw_def retC_iff split: if_splits)

lemma payload_only_raw: "payload_only p q \<Longrightarrow> raw_is d p \<Longrightarrow> raw_is d q"
  by (cases p; cases q) (simp add: payload_only_def raw_is_def)

text \<open>The id of a message, and whether it is counted: a message whose payload has length 0 is not.\<close>

definition packet_id_of :: "'nfa nfq_api \<Rightarrow> 'nfa \<Rightarrow> u32" where
  "packet_id_of api m = (case nfq_get_msg_packet_hdr api m of None \<Rightarrow> 0 | Some i \<Rightarrow> ntohl i)"

definition counted :: "'nfa nfq_api \<Rightarrow> 'nfa \<Rightarrow> bool" where
  "counted api m \<longleftrightarrow> snd (nfq_get_payload api m) \<noteq> Some []"

text \<open>A verdict on the message: it accepts the packet of that id with the bytes the message carried.\<close>

definition verdict_on :: "'nfa nfq_api \<Rightarrow> 'nfa \<Rightarrow> verdict \<Rightarrow> bool" where
  "verdict_on api m v \<longleftrightarrow> vd_id v = packet_id_of api m \<and> vd_verdict v = NF_ACCEPT \<and> snd (nfq_get_payload api m) = Some (vd_data v)"

text \<open>How one callback may change the state: \<^term>\<open>modified\<close> tells whether the packet is counted as modified, \<^term>\<open>vs\<close> the verdicts
  given, none or one.\<close>

definition callback_effect :: "'nfa nfq_api \<Rightarrow> 'nfa \<Rightarrow> bool \<Rightarrow> verdict list \<Rightarrow> app_state \<Rightarrow> app_state \<Rightarrow> bool" where
  "callback_effect api m modified vs s s' \<longleftrightarrow>
     packets_processed s' = packets_processed s + (if counted api m then 1 else 0) \<and>
     bytes_processed s' = bytes_processed s + ucast (word_of_int (fst (nfq_get_payload api m)) :: u32) \<and>
     packets_modified s' = packets_modified s + (if modified then 1 else 0) \<and>
     ap_lost s' = ap_lost s \<and> ap_nf s' = (ap_nf s)\<lparr>nf_verdicts := nf_verdicts (ap_nf s) @ vs\<rparr> \<and>
     (modified \<longrightarrow> counted api m) \<and> length vs \<le> 1 \<and> (\<forall>v \<in> set vs. verdict_on api m v) \<and> (vs \<noteq> [] \<and> counted api m \<longrightarrow> modified)"

text \<open>\<open>packet_process\<close> accepts the packet, that is, returns 0 for what \<open>packet_parse\<close> makes of the message.\<close>

definition process_accepts :: "'nfa cb_env \<Rightarrow> 'nfa \<Rightarrow> app_state \<Rightarrow> bool" where
  "process_accepts env m s \<longleftrightarrow>
     (case nfq_get_payload (ce_api env) m of (n, data) \<Rightarrow>
        case packet_parse (ce_parse_malloc env) data (ucast (word_of_int n :: u32)) (Some packet_zero) of
          Inl e \<Rightarrow> False
        | Inr (prc, packet) \<Rightarrow> \<not> prc < 0 \<and>
            (case packet_process (ce_malloc env) (ce_send env) (ce_config env)
                    (map_option (\<lambda>p. p\<lparr>p_nfqueue_id := packet_id_of (ce_api env) m\<rparr>) packet) (ap_raw s) of
               Inl e \<Rightarrow> False | Inr (rc, packet', rs) \<Rightarrow> rc = 0))"

lemma send_verdict_effect:
  assumes "netfilter_send_verdict api i v d (of_nat (length d)) n = Inr (r, n')" and "length d < 2 ^ 64"
  shows "n' = n \<or> n' = n\<lparr>nf_verdicts := nf_verdicts n @ [\<lparr>vd_id = i, vd_verdict = v, vd_data = d\<rparr>]\<rparr>"
  using assms by (auto simp: netfilter_send_verdict_def nfq_set_verdict_def slice_def unat_size Let_def split: if_splits)

lemma conclude_packet_effect:
  assumes "conclude_packet env i rc (Some p) s = Inr (v, s')" and "raw_is d p" and "length d < 2 ^ 64"
  shows "\<exists>vs. vs \<in> {[], [\<lparr>vd_id = i, vd_verdict = NF_ACCEPT, vd_data = d\<rparr>]} \<and> (vs \<noteq> [] \<longrightarrow> rc = 0) \<and>
    s' = s\<lparr>packets_modified := packets_modified s + (if rc = 0 then 1 else 0),
           ap_nf := (ap_nf s)\<lparr>nf_verdicts := nf_verdicts (ap_nf s) @ vs\<rparr>\<rparr>"
proof (cases "rc = 0 \<and> p_raw_packet p = Some d \<and> 0 < p_raw_packet_len p")
  case True
  then obtain n where n: "n = ap_nf s \<or> n = (ap_nf s)\<lparr>nf_verdicts := nf_verdicts (ap_nf s) @
      [\<lparr>vd_id = i, vd_verdict = NF_ACCEPT, vd_data = d\<rparr>]\<rparr>" "s' = s\<lparr>packets_modified := packets_modified s + 1, ap_nf := n\<rparr>"
    using assms by (auto simp: conclude_packet_def Let_def bindC_eq_Inr raw_is_def dest!: send_verdict_effect)
  from n(1) show ?thesis
  proof
    assume "n = ap_nf s"
    then show ?thesis using n(2) True by (intro exI [of _ "[]"]) simp
  qed (use n(2) True in \<open>intro exI [of _ "[\<lparr>vd_id = i, vd_verdict = NF_ACCEPT, vd_data = d\<rparr>]"], simp\<close>)
next
  case False
  then show ?thesis
    using assms by (auto simp: conclude_packet_def Let_def raw_is_def split: if_splits intro!: exI [of _ "[]"])
qed

text \<open>The callback on a message that is not empty, and on an empty one.\<close>

lemma callback_eq:
  assumes "nfq_get_payload (ce_api env) m = (n, data)"
  shows "packet_process_callback env m s =
    (let len = word_of_int n :: u32; s1 = count_packet len s in
     if len = 0 then Inr (NF_ACCEPT, s)
     else bindC (packet_parse (ce_parse_malloc env) data (ucast len) (Some packet_zero)) (\<lambda>(prc, packet).
       if prc < 0 then Inr (NF_ACCEPT, leave_scope packet s1)
       else bindC (read_init (map_option ntohl (nfq_get_msg_packet_hdr (ce_api env) m))) (\<lambda>packet_id.
            bindC (packet_process (ce_malloc env) (ce_send env) (ce_config env)
                     (map_option (\<lambda>p. p\<lparr>p_nfqueue_id := packet_id\<rparr>) packet) (ap_raw s1))
              (\<lambda>(rc, packet', rs). conclude_packet env packet_id rc packet' (s1\<lparr>ap_raw := rs\<rparr>)))))"
proof -
  have md: "netfilter_get_packet_metadata (ce_api env) (Some m) (False, False, False, False) md_uninit =
      (0, md_uninit\<lparr>md_packet_id := map_option ntohl (nfq_get_msg_packet_hdr (ce_api env) m)\<rparr>)"
    by (auto simp: netfilter_get_packet_metadata_def md_uninit_def Let_def split: option.splits)
  show ?thesis
    by (simp add: packet_process_callback_def md netfilter_get_packet_data_def assms Let_def word_gt_0 cong: if_cong)
qed

lemma payload_len:
  assumes "payload_ok api" "nfq_get_payload api m = (n, data)"
  shows "(word_of_int n :: u32) = 0 \<longleftrightarrow> \<not> counted api m"
    and "data = Some d \<Longrightarrow> unat (ucast (word_of_int n :: u32) :: size_t) = length d \<and> length d \<le> 65535"
proof -
  have p: "case data of None \<Rightarrow> n = -1 | Some b \<Rightarrow> n = int (length b) \<and> length b \<le> 65535"
    using assms unfolding payload_ok_def by (metis (no_types, lifting) case_prod_conv option.case_eq_if)
  then show "data = Some d \<Longrightarrow> unat (ucast (word_of_int n :: u32) :: size_t) = length d \<and> length d \<le> 65535"
    by (simp add: unsigned_ucast_eq take_bit_nat_eq_self unat_of_nat)
  show "(word_of_int n :: u32) = 0 \<longleftrightarrow> \<not> counted api m"
  proof (cases data)
    case (Some b)
    then have "(word_of_int n :: u32) = of_nat (length b)" "length b \<le> 65535" using p by simp_all
    then have "(word_of_int n :: u32) = 0 \<longleftrightarrow> b = []" by (simp add: word_unat_eq_iff unat_of_nat take_bit_nat_eq_self)
    then show ?thesis using assms(2) Some by (simp add: counted_def)
  qed (use p assms(2) in \<open>simp add: counted_def\<close>)
qed

lemma callback_outcome:
  assumes "payload_ok (ce_api env)" and "packet_process_callback env m s = Inr (v, s')"
  shows "\<exists>vs. callback_effect (ce_api env) m (counted (ce_api env) m \<and> process_accepts env m s) vs s s'"
proof -
  let ?api = "ce_api env"
  obtain n data where pl: "nfq_get_payload ?api m = (n, data)" by force
  let ?len = "word_of_int n :: u32"
  note len = payload_len [OF assms(1) pl] and eq = callback_eq [OF pl, of s]
  show ?thesis
  proof (cases "counted ?api m")
    case False
    then have "?len = 0" "s' = s" using len(1) assms(2) by (simp_all add: eq Let_def)
    then show ?thesis using False pl by (intro exI [of _ "[]"]) (simp add: callback_effect_def)
  next
    case c: True
    then have nz: "?len \<noteq> 0" using len(1) by simp
    obtain prc packet where pp: "packet_parse (ce_parse_malloc env) data (ucast ?len) (Some packet_zero) = Inr (prc, packet)"
      using assms(2) nz by (auto simp: eq Let_def bindC_eq_Inr)
    show ?thesis
    proof (cases "prc < 0")
      case True
      then have "s' = count_packet ?len s" using assms(2) nz pp packet_parse_fails [OF pp True] by (simp add: eq Let_def)
      moreover have "\<not> process_accepts env m s" using pl pp True by (simp add: process_accepts_def)
      ultimately show ?thesis
        using c pl by (intro exI [of _ "[]"]) (simp add: callback_effect_def count_packet_def)
    next
      case ok: False
      obtain d where d: "data = Some d" using pp ok by (cases data) (auto simp: packet_parse_def)
      obtain p where p: "packet = Some p" "raw_is d p" using packet_parse_raw [of d "ucast ?len"] len(2) [OF d] pp ok d by metis
      obtain i rc packet' rs where i: "nfq_get_msg_packet_hdr ?api m = Some i" and
        pr: "packet_process (ce_malloc env) (ce_send env) (ce_config env)
          (Some (p\<lparr>p_nfqueue_id := ntohl i\<rparr>)) (ap_raw s) = Inr (rc, packet', rs)" and
        co: "conclude_packet env (ntohl i) rc packet' ((count_packet ?len s)\<lparr>ap_raw := rs\<rparr>) = Inr (v, s')"
        using assms(2) nz pp ok p(1)
        by (cases "nfq_get_msg_packet_hdr ?api m") (auto simp: eq Let_def bindC_eq_Inr count_packet_def)
      have id: "packet_id_of ?api m = ntohl i" by (simp add: packet_id_of_def i)
      have acc: "process_accepts env m s \<longleftrightarrow> rc = 0" using pl pp ok p(1) pr by (simp add: process_accepts_def id)
      obtain p' where p': "packet' = Some p'" "payload_only (p\<lparr>p_nfqueue_id := ntohl i\<rparr>) p'"
        using packet_process_outcome pr by blast
      then have "raw_is d p'" using payload_only_raw [OF p'(2)] p(2) by (simp add: raw_is_def)
      then obtain vs where vs: "vs \<in> {[], [\<lparr>vd_id = ntohl i, vd_verdict = NF_ACCEPT, vd_data = d\<rparr>]}" "vs \<noteq> [] \<longrightarrow> rc = 0"
        "s' = (count_packet ?len s)\<lparr>ap_raw := rs, packets_modified := packets_modified s + (if rc = 0 then 1 else 0),
           ap_nf := (ap_nf s)\<lparr>nf_verdicts := nf_verdicts (ap_nf s) @ vs\<rparr>\<rparr>"
        using conclude_packet_effect [of env "ntohl i" rc p' "(count_packet ?len s)\<lparr>ap_raw := rs\<rparr>" v s' d] co p'(1) len(2) [OF d]
        by (auto simp: count_packet_def)
      have "\<forall>v \<in> set vs. verdict_on ?api m v" using vs(1) pl d by (auto simp: verdict_on_def id)
      then show ?thesis
        using vs c acc pl by (intro exI [of _ vs]) (auto simp: callback_effect_def count_packet_def)
    qed
  qed
qed


text \<open>A queue library whose messages are pairs of a packet id and the datagram.\<close>

definition plain_api :: "(u32 \<times> bytes) nfq_api" where
  "plain_api = \<lparr>nfq_get_msg_packet_hdr = (\<lambda>m. Some (ntohl (fst m))),
     nfq_get_payload = (\<lambda>m. if length (snd m) \<le> 65535 then (int (length (snd m)), Some (snd m)) else (-1, None)),
     nfq_get_indev = (\<lambda>m. 0), nfq_get_outdev = (\<lambda>m. 0), nfq_get_packet_hw = (\<lambda>m. None),
     nfq_set_verdict_rc = (\<lambda>i v d. 1)\<rparr>"

definition plain_env :: "(u32 \<times> bytes) cb_env" where
  "plain_env = \<lparr>ce_api = plain_api, ce_parse_malloc = (\<lambda>k n. unat n < 2 ^ 63), ce_malloc = (\<lambda>n. True),
     ce_send = (\<lambda>fd k. int k), ce_config = config_defaults\<rparr>"

definition app_state0 :: app_state where
  "app_state0 = \<lparr>ap_nf = snd (netfilter_init oe_fine 0 nf_state0), ap_raw = raw_state0,
     packets_processed = 0, packets_modified = 0, bytes_processed = 0, ap_lost = 0\<rparr>"

lemma plain_payload_ok: "payload_ok (ce_api plain_env)"
  by (simp add: payload_ok_def plain_env_def plain_api_def)

section \<open>Packets without a verdict\<close>

lemma metadata_id_only:
  "netfilter_get_packet_metadata api (Some m) (False, False, False, False) md =
     (0, case nfq_get_msg_packet_hdr api m of None \<Rightarrow> md | Some i \<Rightarrow> md\<lparr>md_packet_id := Some (ntohl i)\<rparr>)"
  by (auto simp: netfilter_get_packet_metadata_def Let_def split: option.splits)

text \<open>
  C6. With the built-in configuration an ordinary HTTPS segment (IPv4, TCP to port 443, at most 1200 bytes
  of payload) never gets a verdict: \<open>packet_process\<close> returns 1 for it, and the callback sends a
  verdict only for 0.  The kernel keeps the packet queued, so the connection stalls.
\<close>

theorem callback_https_stuck:
  assumes "nfq_get_payload (ce_api env) nfa = (int (length d), Some d)"
    and "nfq_get_msg_packet_hdr (ce_api env) nfa = Some i"
    and "is_ipv4 d IPPROTO_TCP" and "tcp_fits d"
    and "be16 (d ! (ipv4_ihl d + 2)) (d ! (ipv4_ihl d + 3)) = 443"
    and "length d - (ipv4_ihl d + tcp_doff d) \<le> 1200"
    and "malloc_ample (ce_parse_malloc env)" and "ce_config env = config_defaults"
  shows "packet_process_callback env nfa s = Inr (NF_ACCEPT, count_packet (of_nat (length d)) s)"
proof -
  have n: "0 < length d" "length d < 65536" using assms(3) by (auto simp: is_ipv4_def)
  have l: "(word_of_int (int (length d)) :: u32) = of_nat (length d)" by simp
  have c: "(ucast (of_nat (length d) :: u32) :: size_t) = of_nat (length d)"
    using n by (simp add: word_unat_eq_iff unsigned_ucast_eq take_bit_nat_eq_self unat_of_nat)
  have z: "0 < (of_nat (length d) :: u32)" using n by (simp add: word_less_nat_alt unat_of_nat)
  obtain q h where q: "packet_parse (ce_parse_malloc env) (Some d) (of_nat (length d)) (Some packet_zero) = Inr (0, Some q)"
    and r: "p_raw_packet q = Some d" and h: "d = h @ (case p_payload q of None \<Rightarrow> [] | Some b \<Rightarrow> b)"
      "length h = ipv4_ihl d + tcp_doff d" and t: "p_type q = (if length h < length d then PACKET_IPV4_TCP_DATA else PACKET_IPV4_TCP)"
    and dp: "p_dst_port q = 443" and w: "packet_wf q"
    using packet_parse_tcp_result [OF assms(3,4,7), of packet_zero] assms(5) by auto
  have len: "unat (p_payload_len q) \<le> 1200"
  proof (cases "p_payload q")
    case (Some b)
    then have "length b \<le> 1200" using h assms(6) by (metis diff_add_inverse length_append option.case(2))
    then show ?thesis using w Some by (simp add: packet_wf_def)
  qed (use w in \<open>simp add: packet_wf_def\<close>)
  let ?q = "q\<lparr>p_nfqueue_id := ntohl i\<rparr>"
  have "packet_process (ce_malloc env) (ce_send env) config_defaults (Some ?q) rs = Inr (1, Some ?q, rs)" for rs
    using t dp r len by (intro packet_process_https_default) (simp_all add: packet_is_https_def packet_is_tcp_def)
  then show ?thesis
    using assms(1,2,8) q z
    by (simp add: packet_process_callback_def metadata_id_only netfilter_get_packet_data_def
        md_uninit_def l c conclude_packet_def count_packet_def Let_def)
qed

text \<open>A TCP SYN-like datagram to port 443.\<close>

definition https_sample :: bytes where
  "https_sample = [0x45, 0, 0, 40, 0, 0, 0, 0, 64, 6, 0, 0, 10, 0, 0, 1, 10, 0, 0, 2,
     0x30, 0x39, 0x01, 0xBB, 0, 0, 0, 1, 0, 0, 0, 0, 0x50, 2, 0, 0, 0, 0, 0, 0]"

lemma https_sample_facts:
  "is_ipv4 https_sample IPPROTO_TCP" "tcp_fits https_sample" "ipv4_ihl https_sample = 20"
  "tcp_doff https_sample = 20" "length https_sample = 40"
  by (simp_all add: https_sample_def is_ipv4_def tcp_fits_def ipv4_ihl_def tcp_doff_def IPPROTO_TCP_def drop_bit_eq_div)

theorem callback_https_stuck_witness:
  "packet_process_callback plain_env (7, https_sample) app_state0 =
   Inr (NF_ACCEPT, count_packet 40 app_state0)"
proof -
  have "be16 (https_sample ! 22) (https_sample ! 23) = 443" by (simp add: https_sample_def be16_def)
  then show ?thesis
    using callback_https_stuck [of plain_env "(7, https_sample)" https_sample "ntohl 7" app_state0]
    by (simp add: https_sample_facts plain_env_def plain_api_def malloc_ample_def)
qed

text \<open>An IPv4 datagram that is neither TCP nor UDP passes through and is accepted as it is.\<close>

definition icmp_sample :: bytes where
  "icmp_sample = [0x45, 0, 0, 20, 0, 0, 0, 0, 64, 1, 0, 0, 10, 0, 0, 1, 10, 0, 0, 2]"

definition icmp_verdict :: "app_state \<Rightarrow> app_state" where
  "icmp_verdict s = (count_packet 20 s)\<lparr>packets_modified := packets_modified s + 1,
     ap_nf := (ap_nf s)\<lparr>nf_verdicts := nf_verdicts (ap_nf s) @ [\<lparr>vd_id = 7, vd_verdict = NF_ACCEPT, vd_data = icmp_sample\<rparr>]\<rparr>\<rparr>"

lemma callback_icmp:
  assumes "nc_initialized (nf_ctx (ap_nf s))"
  shows "packet_process_callback plain_env (7, icmp_sample) s = Inr (0, icmp_verdict s)"
proof -
  obtain q where q: "packet_parse (\<lambda>k n. unat n < 2 ^ 63) (Some icmp_sample) 20 (Some packet_zero) = Inr (0, Some q)"
      "p_raw_packet q = Some icmp_sample" "p_raw_packet_len q = 20" "p_type q = PACKET_UNKNOWN" "p_payload_len q = 0"
    by (simp add: icmp_sample_def packet_parse_def packet_parse_ipv4_def rd_def rd32le_def drop_bit_eq_div
        IPPROTO_TCP_def IPPROTO_UDP_def ipv4_store_def malloc_copy_def slice_def ipv4_headers_len_def Let_def
        packet_zero_def)
  let ?q = "q\<lparr>p_nfqueue_id := 7\<rparr>"
  have "packet_process (\<lambda>n. True) (\<lambda>fd k. int k) config_defaults (Some ?q) rs = Inr (0, Some ?q, rs)" for rs
    using q by (simp add: packet_process_def packet_is_http_def packet_is_https_def packet_is_tcp_def
        config_defaults_def config_zero_def)
  moreover have "length icmp_sample = 20" by (simp add: icmp_sample_def)
  ultimately show ?thesis
    using q assms
    by (simp add: packet_process_callback_def metadata_id_only netfilter_get_packet_data_def plain_env_def plain_api_def
        md_uninit_def ntohl_ntohl conclude_packet_def netfilter_send_verdict_def nfq_set_verdict_def
        slice_def icmp_verdict_def count_packet_def Let_def)
qed


end
