(* ===== verification/Firewall.thy ===== *)
theory Firewall
  imports Main
begin

text \<open>
  \<open>src/main.c\<close>: \<open>execute_command\<close>, \<open>setup_firewall_rules\<close> and \<open>cleanup_firewall_rules\<close>.  \<open>system\<close> is a
  parameter: it takes the command and the state \<open>'w\<close> of the machine to a result and a new state.
  \<open>iptables_like\<close> states what iptables does with the eight commands of the sources, failures and kills included;
  \<open>iptables_reliable\<close> is the machine on which no command is killed and a rule that is there can be deleted.
\<close>

section \<open>Definitions\<close>

text \<open>The status of \<open>system\<close>: it could not run the command, the shell exited with a status, or it was killed
  by a signal.\<close>

datatype sys_result = SysError | Exited nat | Signaled

definition execute_command :: "(string \<Rightarrow> 'w \<Rightarrow> sys_result \<times> 'w) \<Rightarrow> string \<Rightarrow> 'w \<Rightarrow> int \<times> 'w" where
  "execute_command system cmd w =
     (case system cmd w of (ret, w') \<Rightarrow>
        (case ret of
           SysError \<Rightarrow> (-1, w')
         | Exited st \<Rightarrow> (if st \<noteq> 0 then -1 else 0, w')
         | Signaled \<Rightarrow> (0, w')))"

text \<open>The four rules and the two commands for each; the deletions end in \<open>2>/dev/null\<close>.\<close>

datatype fw_rule = Out80 | Out443 | In80 | In443

definition rule_text :: "fw_rule \<Rightarrow> string" where
  "rule_text r = (case r of
       Out80 \<Rightarrow> ''OUTPUT -p tcp --dport 80 -j NFQUEUE --queue-num 0''
     | Out443 \<Rightarrow> ''OUTPUT -p tcp --dport 443 -j NFQUEUE --queue-num 0''
     | In80 \<Rightarrow> ''INPUT -p tcp --sport 80 -j NFQUEUE --queue-num 0''
     | In443 \<Rightarrow> ''INPUT -p tcp --sport 443 -j NFQUEUE --queue-num 0'')"

definition insert_cmd :: "fw_rule \<Rightarrow> string" where
  "insert_cmd r = ''iptables -I '' @ rule_text r"

definition delete_cmd :: "fw_rule \<Rightarrow> string" where
  "delete_cmd r = ''iptables -D '' @ rule_text r @ '' 2>/dev/null''"

text \<open>\<open>system (...)\<close> with the result ignored.\<close>

definition run_ignore :: "(string \<Rightarrow> 'w \<Rightarrow> sys_result \<times> 'w) \<Rightarrow> string \<Rightarrow> 'w \<Rightarrow> 'w" where
  "run_ignore system cmd w = snd (system cmd w)"

definition delete_rules :: "(string \<Rightarrow> 'w \<Rightarrow> sys_result \<times> 'w) \<Rightarrow> 'w \<Rightarrow> 'w" where
  "delete_rules system w =
     run_ignore system (delete_cmd In443) (run_ignore system (delete_cmd In80)
       (run_ignore system (delete_cmd Out443) (run_ignore system (delete_cmd Out80) w)))"

definition cleanup_firewall_rules :: "(string \<Rightarrow> 'w \<Rightarrow> sys_result \<times> 'w) \<Rightarrow> 'w \<Rightarrow> int \<times> 'w" where
  "cleanup_firewall_rules system w = (0, delete_rules system w)"

definition setup_firewall_rules :: "(string \<Rightarrow> 'w \<Rightarrow> sys_result \<times> 'w) \<Rightarrow> 'w \<Rightarrow> int \<times> 'w" where
  "setup_firewall_rules system w =
     (let w0 = delete_rules system w;
          (r1, w1) = execute_command system (insert_cmd Out80) w0
      in if r1 < 0 then (-1, w1)
         else (let (r2, w2) = execute_command system (insert_cmd Out443) w1
         in if r2 < 0 then (-1, snd (cleanup_firewall_rules system w2))
         else (let (r3, w3) = execute_command system (insert_cmd In80) w2
         in if r3 < 0 then (-1, snd (cleanup_firewall_rules system w3))
         else (let (r4, w4) = execute_command system (insert_cmd In443) w3
         in if r4 < 0 then (-1, snd (cleanup_firewall_rules system w4))
         else (0, w4)))))"

section \<open>What iptables does\<close>

text \<open>\<open>tbl\<close> reads the rules of the machine: ours, and those of others with their texts.\<close>

datatype table_rule = Ours fw_rule | Foreign string

text \<open>A status that tells what happened: iptables ended by itself (a shell reports a killed command by a status above 128).\<close>

definition clean_status :: "sys_result \<Rightarrow> bool" where
  "clean_status st \<longleftrightarrow> (case st of Exited n \<Rightarrow> n < 128 | _ \<Rightarrow> False)"

text \<open>A command does its work, \<^term>\<open>done_tbl\<close> is the table then, or nothing; a clean status tells which.\<close>

definition command_effect :: "sys_result \<Rightarrow> table_rule list \<Rightarrow> table_rule list \<Rightarrow> table_rule list \<Rightarrow> bool" where
  "command_effect st old done_tbl new \<longleftrightarrow>
     new \<in> {done_tbl, old} \<and> (clean_status st \<longrightarrow> new = (if st = Exited 0 then done_tbl else old))"

text \<open>An insertion puts the rule in front; a deletion removes the first copy of the rule.\<close>

definition iptables_like :: "('w \<Rightarrow> table_rule list) \<Rightarrow> (string \<Rightarrow> 'w \<Rightarrow> sys_result \<times> 'w) \<Rightarrow> bool" where
  "iptables_like tbl system \<longleftrightarrow>
     (\<forall>r w. (case system (insert_cmd r) w of (st, w') \<Rightarrow> command_effect st (tbl w) (Ours r # tbl w) (tbl w')) \<and>
            (case system (delete_cmd r) w of (st, w') \<Rightarrow> command_effect st (tbl w) (remove1 (Ours r) (tbl w)) (tbl w')))"

definition iptables_reliable :: "('w \<Rightarrow> table_rule list) \<Rightarrow> (string \<Rightarrow> 'w \<Rightarrow> sys_result \<times> 'w) \<Rightarrow> bool" where
  "iptables_reliable tbl system \<longleftrightarrow>
     (\<forall>r w. clean_status (fst (system (insert_cmd r) w)) \<and>
            (Ours r \<in> set (tbl w) \<longrightarrow> fst (system (delete_cmd r) w) = Exited 0))"

section \<open>The rules of others\<close>

definition foreign :: "table_rule list \<Rightarrow> table_rule list" where
  "foreign t = filter (\<lambda>x. \<forall>r. x \<noteq> Ours r) t"

lemma foreign_insert [simp]: "foreign (Ours r # t) = foreign t"
  by (simp add: foreign_def)

lemma foreign_remove1 [simp]: "foreign (remove1 (Ours r) t) = foreign t"
  by (simp add: foreign_def filter_remove1 remove1_idem)

lemma iptables_effect:
  assumes "iptables_like tbl system"
  shows "system (insert_cmd r) w = (st, w') \<Longrightarrow> command_effect st (tbl w) (Ours r # tbl w) (tbl w')"
    and "system (delete_cmd r) w = (st, w') \<Longrightarrow> command_effect st (tbl w) (remove1 (Ours r) (tbl w)) (tbl w')"
  using assms unfolding iptables_like_def by (metis (no_types, lifting) case_prod_conv)+

lemma effect_foreign: "command_effect st old d new \<Longrightarrow> foreign d = foreign old \<Longrightarrow> foreign new = foreign old"
  by (auto simp: command_effect_def)

lemma command_foreign:
  assumes "iptables_like tbl system"
  shows "foreign (tbl (snd (system (insert_cmd r) w))) = foreign (tbl w)"
    and "foreign (tbl (snd (system (delete_cmd r) w))) = foreign (tbl w)"
  using effect_foreign [OF iptables_effect(1) [OF assms prod.collapse [symmetric]]]
    effect_foreign [OF iptables_effect(2) [OF assms prod.collapse [symmetric]]] by simp_all

lemma execute_state: "snd (execute_command system cmd w) = snd (system cmd w)"
  by (simp add: execute_command_def split: prod.split sys_result.split)

lemma execute_rc: "fst (execute_command system cmd w) \<in> {0, -1}"
  by (simp add: execute_command_def split: prod.split sys_result.split)

lemma delete_rules_foreign:
  "iptables_like tbl system \<Longrightarrow> foreign (tbl (delete_rules system w)) = foreign (tbl w)"
  by (simp add: delete_rules_def run_ignore_def command_foreign)

lemma setup_foreign:
  assumes "iptables_like tbl system"
  shows "foreign (tbl (snd (setup_firewall_rules system w))) = foreign (tbl w)"
  using command_foreign(1) [OF assms] delete_rules_foreign [OF assms] execute_state [of system]
  by (auto simp: setup_firewall_rules_def cleanup_firewall_rules_def Let_def case_prod_beta)

section \<open>A reliable machine\<close>

lemma iptables_insert:
  assumes "iptables_like tbl system" "clean_status (fst (system (insert_cmd r) w))"
  obtains rc w' where "execute_command system (insert_cmd r) w = (rc, w')" "rc = 0 \<or> rc = -1"
    "tbl w' = (if rc = 0 then Ours r # tbl w else tbl w)"
proof -
  obtain st w' where s: "system (insert_cmd r) w = (st, w')" by force
  note iptables_effect(1) [OF assms(1) s]
  moreover obtain n where "st = Exited n" using assms(2) s by (cases st) (simp_all add: clean_status_def)
  ultimately show thesis
    using s assms(2) by (intro that [of "if n \<noteq> 0 then -1 else 0" w']) (auto simp: execute_command_def command_effect_def)
qed

lemma iptables_delete:
  assumes "iptables_like tbl system" "iptables_reliable tbl system"
  shows "tbl (snd (system (delete_cmd r) w)) = remove1 (Ours r) (tbl w)"
proof -
  obtain st w' where s: "system (delete_cmd r) w = (st, w')" by force
  note e = iptables_effect(2) [OF assms(1) s]
  show ?thesis
  proof (cases "Ours r \<in> set (tbl w)")
    case True
    then have "st = Exited 0" using assms(2) s unfolding iptables_reliable_def by (metis fst_conv)
    then show ?thesis using e s by (simp add: command_effect_def clean_status_def)
  next
    case False
    then show ?thesis using e s by (auto simp: command_effect_def remove1_idem)
  qed
qed

lemma iptables_delete_rules:
  assumes "iptables_like tbl system" "iptables_reliable tbl system"
  shows "tbl (delete_rules system w) =
    remove1 (Ours In443) (remove1 (Ours In80) (remove1 (Ours Out443) (remove1 (Ours Out80) (tbl w))))"
  by (simp add: delete_rules_def run_ignore_def iptables_delete [OF assms])

text \<open>None of our rules is in the table.\<close>

definition foreign_only :: "table_rule list \<Rightarrow> bool" where
  "foreign_only t \<longleftrightarrow> (\<forall>r. Ours r \<notin> set t)"

lemma foreign_remove: "foreign_only t \<Longrightarrow> remove1 (Ours r) t = t"
  by (simp add: foreign_only_def remove1_idem)

section \<open>Properties\<close>

text \<open>Insertions that are not killed: what stands in front after a success, and what a reliable machine has after a failure.\<close>

lemma setup_firewall_table:
  assumes like: "iptables_like tbl system" and clean: "\<And>r v. clean_status (fst (system (insert_cmd r) v))"
    and su: "setup_firewall_rules system w = (rc, w')"
  shows "(rc = 0 \<longrightarrow> tbl w' = map Ours [In443, In80, Out443, Out80] @ tbl (delete_rules system w)) \<and>
    (rc \<noteq> 0 \<longrightarrow> iptables_reliable tbl system \<longrightarrow> foreign_only (tbl w) \<longrightarrow> tbl w' = tbl w)"
proof -
  let ?w0 = "delete_rules system w"
  obtain r1 w1 where 1: "execute_command system (insert_cmd Out80) ?w0 = (r1, w1)" "r1 = 0 \<or> r1 = -1"
    "tbl w1 = (if r1 = 0 then Ours Out80 # tbl ?w0 else tbl ?w0)"
    using iptables_insert [OF like clean, of Out80 ?w0] by metis
  obtain r2 w2 where 2: "execute_command system (insert_cmd Out443) w1 = (r2, w2)" "r2 = 0 \<or> r2 = -1"
    "tbl w2 = (if r2 = 0 then Ours Out443 # tbl w1 else tbl w1)"
    using iptables_insert [OF like clean, of Out443 w1] by metis
  obtain r3 w3 where 3: "execute_command system (insert_cmd In80) w2 = (r3, w3)" "r3 = 0 \<or> r3 = -1"
    "tbl w3 = (if r3 = 0 then Ours In80 # tbl w2 else tbl w2)"
    using iptables_insert [OF like clean, of In80 w2] by metis
  obtain r4 w4 where 4: "execute_command system (insert_cmd In443) w3 = (r4, w4)" "r4 = 0 \<or> r4 = -1"
    "tbl w4 = (if r4 = 0 then Ours In443 # tbl w3 else tbl w3)"
    using iptables_insert [OF like clean, of In443 w3] by metis
  have ok: "rc = 0 \<longrightarrow> tbl w' = map Ours [In443, In80, Out443, Out80] @ tbl ?w0"
    using su 1 2 3 4 by (auto simp: setup_firewall_rules_def cleanup_firewall_rules_def Let_def split: if_splits)
  have "tbl w' = tbl w" if r: "rc \<noteq> 0" "iptables_reliable tbl system" "foreign_only (tbl w)"
    using su 1 2 3 4 r(1) iptables_delete_rules [OF like r(2)] foreign_remove [OF r(3)]
    by (auto simp: setup_firewall_rules_def cleanup_firewall_rules_def Let_def split: if_splits)
  then show ?thesis using ok by blast
qed

lemma setup_firewall_rc: "setup_firewall_rules sys w = (rc, w') \<Longrightarrow> rc = 0 \<or> rc = -1"
  by (auto simp: setup_firewall_rules_def Let_def split: if_splits prod.splits)

lemma setup_firewall_reliable:
  assumes like: "iptables_like tbl system" and rel: "iptables_reliable tbl system" and fo: "foreign_only (tbl w)"
    and su: "setup_firewall_rules system w = (rc, w')"
  shows "tbl w' = (if rc = 0 then map Ours [In443, In80, Out443, Out80] @ tbl w else tbl w)"
    and "tbl (snd (cleanup_firewall_rules system w')) = tbl w"
proof -
  note D = iptables_delete_rules [OF like rel] and F = foreign_remove [OF fo]
  have clean: "clean_status (fst (system (insert_cmd r) v))" for r v using rel by (simp add: iptables_reliable_def)
  show t: "tbl w' = (if rc = 0 then map Ours [In443, In80, Out443, Out80] @ tbl w else tbl w)"
    using setup_firewall_table [OF like clean su] rel fo by (simp add: D F)
  show "tbl (snd (cleanup_firewall_rules system w')) = tbl w" by (simp add: cleanup_firewall_rules_def D F t)
qed


text \<open>A machine that is nothing but its rule table.\<close>

definition all_rules :: "fw_rule list" where
  "all_rules = [Out80, Out443, In80, In443]"

definition ipt_machine :: "string \<Rightarrow> table_rule list \<Rightarrow> sys_result \<times> table_rule list" where
  "ipt_machine cmd w =
     (case List.find (\<lambda>r. cmd = insert_cmd r) all_rules of
        Some r \<Rightarrow> (Exited 0, Ours r # w)
      | None \<Rightarrow> (case List.find (\<lambda>r. cmd = delete_cmd r) all_rules of
          Some r \<Rightarrow> (if Ours r \<in> set w then Exited 0 else Exited 1, remove1 (Ours r) w)
        | None \<Rightarrow> (Exited 127, w)))"

lemma ipt_machine_insert: "ipt_machine (insert_cmd r) w = (Exited 0, Ours r # w)"
  by (cases r) (simp_all add: ipt_machine_def all_rules_def insert_cmd_def rule_text_def)

lemma ipt_machine_delete:
  "ipt_machine (delete_cmd r) w = (if Ours r \<in> set w then Exited 0 else Exited 1, remove1 (Ours r) w)"
  by (cases r) (simp_all add: ipt_machine_def all_rules_def insert_cmd_def delete_cmd_def rule_text_def)

lemma ipt_machine_like: "iptables_like id ipt_machine"
  by (auto simp: iptables_like_def ipt_machine_insert ipt_machine_delete command_effect_def clean_status_def remove1_idem)

lemma ipt_machine_reliable: "iptables_reliable id ipt_machine"
  by (simp add: iptables_reliable_def ipt_machine_insert ipt_machine_delete clean_status_def)

definition one_foreign :: "table_rule list" where
  "one_foreign = [Foreign ''INPUT -i lo -j ACCEPT'']"

lemma one_foreign_only: "foreign_only one_foreign" "foreign one_foreign = one_foreign"
  by (simp_all add: foreign_only_def foreign_def one_foreign_def)

lemma ipt_machine_setup:
  "setup_firewall_rules ipt_machine one_foreign = (0, map Ours [In443, In80, Out443, Out80] @ one_foreign)"
  by (simp add: setup_firewall_rules_def delete_rules_def run_ignore_def execute_command_def
      ipt_machine_insert ipt_machine_delete one_foreign_def)

text \<open>The same machine, but every insertion is killed before it has done anything.\<close>

definition ipt_killed :: "string \<Rightarrow> table_rule list \<Rightarrow> sys_result \<times> table_rule list" where
  "ipt_killed cmd w = (if \<exists>r \<in> set all_rules. cmd = insert_cmd r then (Signaled, w) else ipt_machine cmd w)"

lemma ipt_killed_cmds: "ipt_killed (insert_cmd r) w = (Signaled, w)" "ipt_killed (delete_cmd r) w = ipt_machine (delete_cmd r) w"
  by (cases r; simp add: ipt_killed_def all_rules_def insert_cmd_def delete_cmd_def rule_text_def)+

lemma ipt_killed_like: "iptables_like id ipt_killed"
  using ipt_machine_like by (simp add: iptables_like_def ipt_killed_cmds command_effect_def clean_status_def)

text \<open>\<open>execute_command\<close> takes a killed command for a success: set-up reports success although no rule was inserted.\<close>

lemma setup_killed_reports_success: "setup_firewall_rules ipt_killed one_foreign = (0, one_foreign)"
  by (simp add: setup_firewall_rules_def delete_rules_def run_ignore_def execute_command_def
      ipt_killed_cmds ipt_machine_delete one_foreign_def)


end
