(* ===== verification/Descriptors.thy ===== *)
theory Descriptors
  imports Prelude
begin

text \<open>
  The descriptor table of a process, as the functions of \<open>src/service/daemon_funcs.c\<close> and \<open>src/service/daemon.c\<close> use it:
  \<open>close\<close>, \<open>open\<close>, \<open>dup\<close> and \<open>dup2\<close> of POSIX.  A descriptor is a number below the limit of the process and names the
  file it is open on; new descriptors are the lowest free ones.
\<close>

type_synonym fds = "nat \<rightharpoonup> string"

definition lowest_free :: "nat \<Rightarrow> fds \<Rightarrow> nat option" where
  "lowest_free open_max t = List.find (\<lambda>i. t i = None) [0..<open_max]"

definition sys_close :: "nat \<Rightarrow> fds \<Rightarrow> int \<times> fds" where
  "sys_close fd t = (if t fd = None then (-1, t) else (0, t(fd := None)))"

text \<open>\<open>ok\<close>: whether the file can be opened.\<close>

definition sys_open :: "nat \<Rightarrow> bool \<Rightarrow> string \<Rightarrow> fds \<Rightarrow> int \<times> fds" where
  "sys_open open_max ok path t =
     (if \<not> ok then (-1, t)
      else (case lowest_free open_max t of None \<Rightarrow> (-1, t) | Some fd \<Rightarrow> (int fd, t(fd \<mapsto> path))))"

definition sys_dup :: "nat \<Rightarrow> nat \<Rightarrow> fds \<Rightarrow> int \<times> fds" where
  "sys_dup open_max oldfd t =
     (case t oldfd of None \<Rightarrow> (-1, t)
      | Some path \<Rightarrow> (case lowest_free open_max t of None \<Rightarrow> (-1, t) | Some fd \<Rightarrow> (int fd, t(fd \<mapsto> path))))"

definition sys_dup2 :: "nat \<Rightarrow> nat \<Rightarrow> nat \<Rightarrow> fds \<Rightarrow> int \<times> fds" where
  "sys_dup2 open_max oldfd newfd t =
     (if open_max \<le> newfd then (-1, t)
      else (case t oldfd of None \<Rightarrow> (-1, t) | Some path \<Rightarrow> (int newfd, t(newfd \<mapsto> path))))"

lemma snd_close [simp]: "snd (sys_close fd t) = t(fd := None)"
  by (auto simp: sys_close_def fun_upd_idem)

lemma lowest_free_iff:
  "lowest_free m t = Some i \<longleftrightarrow> i < m \<and> t i = None \<and> (\<forall>j<i. t j \<noteq> None)"
proof
  assume "lowest_free m t = Some i"
  then show "i < m \<and> t i = None \<and> (\<forall>j<i. t j \<noteq> None)"
    unfolding lowest_free_def find_Some_iff by auto
next
  assume *: "i < m \<and> t i = None \<and> (\<forall>j<i. t j \<noteq> None)"
  show "lowest_free m t = Some i"
    unfolding lowest_free_def find_Some_iff by (rule exI [of _ i]) (use * in auto)
qed

text \<open>A descriptor that is not the lowest free one keeps its file.\<close>

lemma lowest_free_keeps: "lowest_free m t = Some i \<Longrightarrow> t fd \<noteq> None \<Longrightarrow> (t(i \<mapsto> f)) fd = t fd"
  by (auto simp: lowest_free_iff)

end
