(* ===== verification/Service.thy ===== *)
theory Service
  imports Config Descriptors
begin

text \<open>
  \<open>src/service/daemon_funcs.c\<close>, \<open>src/service/privileges.c\<close> and \<open>src/service/systemd.c\<close>: the process around the
  packet loop.  The outcomes of the system calls are arguments; files are a map from paths to the
  number written into them (only PID files are written).  The log output of these functions is left out.
\<close>

section \<open>Daemon functions\<close>

record process =
  pr_pid :: int
  pr_running :: bool
  pr_files :: "string \<rightharpoonup> int"
  pr_session_leader :: bool
  pr_fds :: fds
  pr_open_max :: nat  \<comment> \<open>limit of the descriptors\<close>
  pr_handlers :: "int set"  \<comment> \<open>signals whose handler is installed\<close>

definition SIGINT :: int where "SIGINT = 2"
definition SIGTERM :: int where "SIGTERM = 15"

definition signal_handler :: "int \<Rightarrow> process \<Rightarrow> process" where
  "signal_handler sig p =
     (if sig = SIGINT then p\<lparr>pr_running := False\<rparr>
      else if sig = SIGTERM then p\<lparr>pr_running := False\<rparr>
      else p)"

text \<open>\<open>ok sig\<close>: whether \<open>sigaction (sig, ...)\<close> succeeds.\<close>

definition install_signal_handlers :: "(int \<Rightarrow> bool) \<Rightarrow> process \<Rightarrow> int \<times> process" where
  "install_signal_handlers ok p =
     (if \<not> ok SIGINT then (-1, p)
      else (let p1 = p\<lparr>pr_handlers := insert SIGINT (pr_handlers p)\<rparr> in
            if \<not> ok SIGTERM then (-1, p1)
            else (0, p1\<lparr>pr_handlers := insert SIGTERM (pr_handlers p1)\<rparr>)))"

datatype fork_result = ForkFailed | ForkParent | ForkChild int

text \<open>The standard descriptors are closed, \<open>/dev/null\<close> is opened and duplicated twice; none of the results
  is tested.  \<open>open_ok\<close>: whether \<open>/dev/null\<close> can be opened.\<close>

definition redirect_std :: "bool \<Rightarrow> process \<Rightarrow> process" where
  "redirect_std open_ok p =
     (let t1 = snd (sys_close 0 (pr_fds p));
          t2 = snd (sys_close 1 t1);
          t3 = snd (sys_close 2 t2);
          t4 = snd (sys_open (pr_open_max p) open_ok ''/dev/null'' t3);
          t5 = snd (sys_dup (pr_open_max p) 0 t4);
          t6 = snd (sys_dup (pr_open_max p) 0 t5)
      in p\<lparr>pr_fds := t6\<rparr>)"

text \<open>\<open>daemonize\<close> returns in the child only: the parent exits in it, \<open>None\<close> here.\<close>

definition daemonize :: "fork_result \<Rightarrow> bool \<Rightarrow> bool \<Rightarrow> process \<Rightarrow> (int \<times> process) option" where
  "daemonize f setsid_ok open_ok p =
     (case f of
        ForkFailed \<Rightarrow> Some (-1, p)
      | ForkParent \<Rightarrow> None
      | ForkChild pid \<Rightarrow>
          (let p1 = p\<lparr>pr_pid := pid\<rparr> in
           if \<not> setsid_ok then Some (-1, p1)
           else Some (0, redirect_std open_ok (p1\<lparr>pr_session_leader := True\<rparr>))))"

definition create_pid_file :: "bool \<Rightarrow> string \<Rightarrow> process \<Rightarrow> int \<times> process" where
  "create_pid_file fopen_ok pidfile p =
     (if \<not> fopen_ok then (-1, p) else (0, p\<lparr>pr_files := (pr_files p)(pidfile \<mapsto> pr_pid p)\<rparr>))"

text \<open>\<open>unlink_ok\<close>: whether the file, if it is there, can be unlinked.\<close>

definition remove_pid_file :: "bool \<Rightarrow> string \<Rightarrow> process \<Rightarrow> int \<times> process" where
  "remove_pid_file unlink_ok pidfile p =
     (if unlink_ok \<and> pr_files p pidfile \<noteq> None then (0, p\<lparr>pr_files := (pr_files p)(pidfile := None)\<rparr>) else (-1, p))"

definition is_running :: "process \<Rightarrow> bool" where
  "is_running p = pr_running p"

definition stop_running :: "process \<Rightarrow> process" where
  "stop_running p = p\<lparr>pr_running := False\<rparr>"

section \<open>Privileges\<close>

text \<open>Real, effective and saved ids of the process, its supplementary groups, and \<open>original_privs\<close>.\<close>

record privileges =
  pv_ruid :: int
  pv_euid :: int
  pv_suid :: int
  pv_rgid :: int
  pv_egid :: int
  pv_sgid :: int
  pv_groups :: "int list"
  pv_saved_uid :: int
  pv_saved_gid :: int
  pv_dropped :: bool

definition setup_privileges :: "privileges \<Rightarrow> int \<times> privileges" where
  "setup_privileges v = (0, v\<lparr>pv_saved_uid := pv_ruid v, pv_saved_gid := pv_rgid v, pv_dropped := False\<rparr>)"

definition is_running_as_root :: "privileges \<Rightarrow> bool" where
  "is_running_as_root v \<longleftrightarrow> pv_euid v = 0"

text \<open>The system calls of POSIX: a privileged process changes all three ids, another one only its effective id, to the
  real or the saved one.  \<open>ok\<close> is false when the call fails for another reason.\<close>

definition sys_setgroups0 :: "bool \<Rightarrow> privileges \<Rightarrow> int \<times> privileges" where
  "sys_setgroups0 ok v = (if ok \<and> pv_euid v = 0 then (0, v\<lparr>pv_groups := []\<rparr>) else (-1, v))"

definition sys_setgid :: "bool \<Rightarrow> int \<Rightarrow> privileges \<Rightarrow> int \<times> privileges" where
  "sys_setgid ok g v =
     (if \<not> ok then (-1, v)
      else if pv_euid v = 0 then (0, v\<lparr>pv_rgid := g, pv_egid := g, pv_sgid := g\<rparr>)
      else if g = pv_rgid v \<or> g = pv_sgid v then (0, v\<lparr>pv_egid := g\<rparr>)
      else (-1, v))"

definition sys_setuid :: "bool \<Rightarrow> int \<Rightarrow> privileges \<Rightarrow> int \<times> privileges" where
  "sys_setuid ok u v =
     (if \<not> ok then (-1, v)
      else if pv_euid v = 0 then (0, v\<lparr>pv_ruid := u, pv_euid := u, pv_suid := u\<rparr>)
      else if u = pv_ruid v \<or> u = pv_suid v then (0, v\<lparr>pv_euid := u\<rparr>)
      else (-1, v))"

record priv_env =
  pe_getpwnam :: "string \<Rightarrow> (int \<times> int) option"  \<comment> \<open>uid and gid of a user\<close>
  pe_setgroups_ok :: bool
  pe_setgid_ok :: bool
  pe_setuid_ok :: bool

text \<open>Groups, then gid, then uid.\<close>

definition switch_user :: "priv_env \<Rightarrow> int \<times> int \<Rightarrow> privileges \<Rightarrow> int \<times> privileges" where
  "switch_user pe pw v =
     (case sys_setgroups0 (pe_setgroups_ok pe) v of (rc1, v1) \<Rightarrow>
        if rc1 \<noteq> 0 then (-1, v1)
        else (case sys_setgid (pe_setgid_ok pe) (snd pw) v1 of (rc2, v2) \<Rightarrow>
          if rc2 \<noteq> 0 then (-1, v2)
          else (case sys_setuid (pe_setuid_ok pe) (fst pw) v2 of (rc3, v3) \<Rightarrow>
            if rc3 \<noteq> 0 then (-1, v3) else (0, v3\<lparr>pv_dropped := True\<rparr>))))"

definition drop_privileges :: "priv_env \<Rightarrow> string option \<Rightarrow> privileges \<Rightarrow> int \<times> privileges" where
  "drop_privileges pe username v =
     (if pv_dropped v then (0, v)
      else if \<not> is_running_as_root v then (0, v)
      else (case username of
          Some u \<Rightarrow>
            if 0 < length u
            then (case pe_getpwnam pe u of None \<Rightarrow> (-1, v) | Some pw \<Rightarrow> switch_user pe pw v)
            else (case pe_getpwnam pe ''nobody'' of None \<Rightarrow> (0, v) | Some pw \<Rightarrow> switch_user pe pw v)
        | None \<Rightarrow> (case pe_getpwnam pe ''nobody'' of None \<Rightarrow> (0, v) | Some pw \<Rightarrow> switch_user pe pw v)))"

definition restore_privileges :: "privileges \<Rightarrow> int" where
  "restore_privileges v = (if \<not> pv_dropped v then 0 else -1)"

text \<open>What \<open>socket\<close> and \<open>access\<close> answer; \<open>dirname\<close> of the C library is an argument.\<close>

record access_env =
  ae_socket4 :: bool
  ae_socket6 :: bool
  ae_access :: "string \<Rightarrow> int \<Rightarrow> bool"  \<comment> \<open>\<open>access\<close> returns 0\<close>
  ae_dirname :: "string \<Rightarrow> string"
  ae_strdup_ok :: bool

definition has_network_capabilities :: "access_env \<Rightarrow> bool" where
  "has_network_capabilities ae = (if \<not> ae_socket4 ae then False else if \<not> ae_socket6 ae then False else True)"

definition has_firewall_capabilities :: "privileges \<Rightarrow> bool" where
  "has_firewall_capabilities v = is_running_as_root v"

text \<open>A null pointer is left alone.\<close>

definition get_privilege_info ::
  "int option \<Rightarrow> int option \<Rightarrow> bool option \<Rightarrow> privileges \<Rightarrow> int option \<times> int option \<times> bool option" where
  "get_privilege_info uid gid is_privileged v =
     (map_option (\<lambda>_. pv_ruid v) uid, map_option (\<lambda>_. pv_rgid v) gid,
      map_option (\<lambda>_. is_running_as_root v) is_privileged)"

definition W_OK :: int where "W_OK = 2"

definition can_access_file :: "access_env \<Rightarrow> string \<Rightarrow> int \<Rightarrow> bool" where
  "can_access_file ae filename mode = ae_access ae filename mode"

definition can_write_pid_file :: "access_env \<Rightarrow> string option \<Rightarrow> bool" where
  "can_write_pid_file ae pid_file =
     (case pid_file of None \<Rightarrow> False
      | Some f \<Rightarrow> if \<not> ae_strdup_ok ae then False else can_access_file ae (ae_dirname ae f) W_OK)"

definition can_write_log_file :: "access_env \<Rightarrow> string option \<Rightarrow> bool" where
  "can_write_log_file ae log_file =
     (case log_file of None \<Rightarrow> False
      | Some f \<Rightarrow>
          if can_access_file ae f W_OK then True
          else if \<not> ae_strdup_ok ae then False else can_access_file ae (ae_dirname ae f) W_OK)"

definition validate_privileges :: "access_env \<Rightarrow> goodbyedpi_config_t \<Rightarrow> int" where
  "validate_privileges ae config =
     (let i1 = (if \<not> has_network_capabilities ae then 1 else 0 :: int);
          i2 = (if cfg_pid_file config \<noteq> [] \<and> \<not> can_write_pid_file ae (Some (cfg_pid_file config)) then i1 + 1 else i1);
          i3 = (if cfg_log_file config \<noteq> [] \<and> \<not> can_write_log_file ae (Some (cfg_log_file config)) then i2 + 1 else i2)
      in if 0 < i3 then -1 else 0)"

section \<open>Systemd\<close>

text \<open>\<open>enabled\<close> is \<open>ENABLE_SYSTEMD\<close>; the state is the list of messages given to \<open>sd_notify\<close> and the journal
  entries, \<open>getenv\<close> an argument.\<close>

record systemd_state =
  sd_notified :: "string list"
  sd_journal :: "(int \<times> string) list"

definition sd_notify :: "string \<Rightarrow> systemd_state \<Rightarrow> systemd_state" where
  "sd_notify msg s = s\<lparr>sd_notified := sd_notified s @ [msg]\<rparr>"

definition systemd_init :: "bool \<Rightarrow> systemd_state \<Rightarrow> int \<times> systemd_state" where
  "systemd_init enabled s = (if enabled then (0, sd_notify ''READY=1'' s) else (-1, s))"

definition systemd_cleanup :: "bool \<Rightarrow> systemd_state \<Rightarrow> int \<times> systemd_state" where
  "systemd_cleanup enabled s = (if enabled then (0, sd_notify ''STOPPING=1'' s) else (-1, s))"

text \<open>\<open>snprintf\<close> into 256 bytes keeps 255 characters.\<close>

definition systemd_notify_status :: "bool \<Rightarrow> string option \<Rightarrow> systemd_state \<Rightarrow> int \<times> systemd_state" where
  "systemd_notify_status enabled status s =
     (if enabled
      then (case status of None \<Rightarrow> (-1, s) | Some t \<Rightarrow> (0, sd_notify (take 255 (''STATUS='' @ t)) s))
      else (-1, s))"

definition systemd_notify_ready :: "bool \<Rightarrow> systemd_state \<Rightarrow> int \<times> systemd_state" where
  "systemd_notify_ready enabled s = (if enabled then (0, sd_notify ''READY=1'' s) else (-1, s))"

definition systemd_notify_stopping :: "bool \<Rightarrow> systemd_state \<Rightarrow> int \<times> systemd_state" where
  "systemd_notify_stopping enabled s = (if enabled then (0, sd_notify ''STOPPING=1'' s) else (-1, s))"

text \<open>The eight levels map to the syslog priority of the same number, every other value to \<open>LOG_INFO\<close>.\<close>

definition systemd_log_message :: "bool \<Rightarrow> int \<Rightarrow> string option \<Rightarrow> systemd_state \<Rightarrow> int \<times> systemd_state" where
  "systemd_log_message enabled priority message s =
     (if enabled
      then (case message of None \<Rightarrow> (-1, s)
            | Some m \<Rightarrow> (0, s\<lparr>sd_journal := sd_journal s @ [(if 0 \<le> priority \<and> priority \<le> 7 then priority else 6, m)]\<rparr>))
      else (-1, s))"

definition systemd_is_active :: "bool \<Rightarrow> (string \<Rightarrow> string option) \<Rightarrow> bool" where
  "systemd_is_active enabled getenv = (if enabled then getenv ''WATCHDOG_USEC'' \<noteq> None else False)"

text \<open>\<open>atoi\<close>: \<open>strtol\<close> truncated to \<open>int\<close>.\<close>

definition systemd_get_watchdog_timeout :: "bool \<Rightarrow> (string \<Rightarrow> string option) \<Rightarrow> int" where
  "systemd_get_watchdog_timeout enabled getenv =
     (if enabled then (case getenv ''WATCHDOG_USEC'' of None \<Rightarrow> 0 | Some v \<Rightarrow> sint (atoi_uint v)) else 0)"

definition systemd_watchdog_ping :: "bool \<Rightarrow> systemd_state \<Rightarrow> int \<times> systemd_state" where
  "systemd_watchdog_ping enabled s = (if enabled then (0, sd_notify ''WATCHDOG=1'' s) else (-1, s))"

definition systemd_setup_watchdog :: "bool \<Rightarrow> (string \<Rightarrow> string option) \<Rightarrow> int" where
  "systemd_setup_watchdog enabled getenv =
     (if enabled then (if 0 < systemd_get_watchdog_timeout enabled getenv then 0 else -1) else -1)"

definition systemd_is_available :: "bool \<Rightarrow> bool" where
  "systemd_is_available enabled = (if enabled then True else False)"

definition systemd_get_unit_name :: "bool \<Rightarrow> (string \<Rightarrow> string option) \<Rightarrow> string option" where
  "systemd_get_unit_name enabled getenv = (if enabled then getenv ''SYSTEMD_UNIT'' else None)"

definition systemd_get_service_name :: "bool \<Rightarrow> (string \<Rightarrow> string option) \<Rightarrow> string option" where
  "systemd_get_service_name enabled getenv = (if enabled then getenv ''SYSTEMD_SERVICE'' else None)"

definition systemd_setup_socket_activation :: "bool \<Rightarrow> int" where
  "systemd_setup_socket_activation enabled = (if enabled then -1 else -1)"

section \<open>Properties\<close>

lemma switch_user_cases:
  assumes "switch_user pe pw v = (rc, v1)" "pv_euid v = 0"
  shows "(rc = 0 \<longrightarrow> v1 = v\<lparr>pv_ruid := fst pw, pv_euid := fst pw, pv_suid := fst pw,
            pv_rgid := snd pw, pv_egid := snd pw, pv_sgid := snd pw, pv_groups := [], pv_dropped := True\<rparr>) \<and>
     (rc \<noteq> 0 \<longrightarrow> rc = -1 \<and> pv_euid v1 = 0 \<and> pv_dropped v1 = pv_dropped v)"
  using assms
  by (auto simp: switch_user_def sys_setgroups0_def sys_setgid_def sys_setuid_def split: if_splits)

text \<open>The user that the call asks for.\<close>

definition drop_target :: "string option \<Rightarrow> string" where
  "drop_target user = (case user of None \<Rightarrow> ''nobody'' | Some u \<Rightarrow> if u = [] then ''nobody'' else u)"

lemma drop_privileges_eq:
  assumes "pv_euid v = 0" "\<not> pv_dropped v"
  shows "drop_privileges pe user v =
    (case pe_getpwnam pe (drop_target user) of
       None \<Rightarrow> (if user = None \<or> user = Some [] then 0 else -1, v)
     | Some pw \<Rightarrow> switch_user pe pw v)"
  using assms by (auto simp: drop_privileges_def drop_target_def is_running_as_root_def split: option.split)

text \<open>
  C38. Dropping privileges from root is marked as done only when the groups are empty and all real, effective and saved
  ids have been changed to those of the requested user, or of \<open>nobody\<close> when none is named; then the call has returned 0, no
  later \<open>setuid\<close> gets root back unless that user is root, and a second call or \<open>restore_privileges\<close> changes
  nothing.  Otherwise the process is still root and the call has returned -1, with one exception: when no user is named and there is
  no account \<open>nobody\<close>, it returns 0 and has changed nothing.
\<close>

theorem drop_privileges_complete:
  assumes "pv_euid v = 0" and "\<not> pv_dropped v" and "drop_privileges pe user v = (rc, v1)"
  shows "(pv_dropped v1 \<longrightarrow> rc = 0 \<and> pv_groups v1 = [] \<and>
      (\<exists>u g. pe_getpwnam pe (drop_target user) = Some (u, g) \<and> pv_ruid v1 = u \<and> pv_euid v1 = u \<and> pv_suid v1 = u \<and>
         pv_rgid v1 = g \<and> pv_egid v1 = g \<and> pv_sgid v1 = g \<and> (u \<noteq> 0 \<longrightarrow> sys_setuid ok 0 v1 = (-1, v1))) \<and>
      drop_privileges pe user2 v1 = (0, v1) \<and> restore_privileges v1 = -1) \<and>
    (\<not> pv_dropped v1 \<longrightarrow> pv_euid v1 = 0 \<and>
       (rc = -1 \<or> rc = 0 \<and> v1 = v \<and> (user = None \<or> user = Some []) \<and> pe_getpwnam pe ''nobody'' = None))"
proof (cases "pe_getpwnam pe (drop_target user)")
  case None
  then show ?thesis using assms drop_privileges_eq [OF assms(1,2), of pe user] by (auto simp: drop_target_def split: if_splits)
next
  case (Some pw)
  obtain u g where pw: "pw = (u, g)" by fastforce
  have "switch_user pe (u, g) v = (rc, v1)" using drop_privileges_eq [OF assms(1,2), of pe user] assms(3) Some pw by simp
  note sw = switch_user_cases [OF this assms(1)]
  show ?thesis
  proof (cases "pv_dropped v1")
    case True
    have "drop_privileges pe user2 v1 = (0, v1)" "restore_privileges v1 = -1"
      using True by (simp_all add: drop_privileges_def restore_privileges_def)
    moreover have "rc = 0" using sw True assms(2) by auto
    moreover have "u \<noteq> 0 \<longrightarrow> sys_setuid ok 0 v1 = (-1, v1)" using sw \<open>rc = 0\<close> by (simp add: sys_setuid_def)
    ultimately show ?thesis using sw True Some pw by simp
  next
    case False
    then show ?thesis using sw by auto
  qed
qed

definition root0 :: privileges where
  "root0 = \<lparr>pv_ruid = 0, pv_euid = 0, pv_suid = 0, pv_rgid = 0, pv_egid = 0, pv_sgid = 0, pv_groups = [0],
            pv_saved_uid = 0, pv_saved_gid = 0, pv_dropped = False\<rparr>"

definition pe_fine :: priv_env where
  "pe_fine = \<lparr>pe_getpwnam = (\<lambda>u. if u = ''daemon'' then Some (1, 2) else if u = ''nobody'' then Some (65534, 65534) else None),
              pe_setgroups_ok = True, pe_setgid_ok = True, pe_setuid_ok = True\<rparr>"

theorem drop_privileges_complete_witness:
  "\<exists>v1. drop_privileges pe_fine (Some ''daemon'') root0 = (0, v1) \<and> pv_euid v1 = 1 \<and> pv_sgid v1 = 2 \<and> pv_groups v1 = [] \<and>
     sys_setuid True 0 v1 = (-1, v1) \<and> restore_privileges v1 = -1"
proof -
  define v1 where "v1 = snd (drop_privileges pe_fine (Some ''daemon'') root0)"
  have e: "drop_privileges pe_fine (Some ''daemon'') root0 = (0, v1)" and d: "pv_dropped v1"
    by (simp_all add: v1_def drop_privileges_def is_running_as_root_def switch_user_def sys_setgroups0_def sys_setgid_def
        sys_setuid_def root0_def pe_fine_def)
  have "pv_euid root0 = 0" "\<not> pv_dropped root0" by (simp_all add: root0_def)
  from drop_privileges_complete [OF this e, of True] e d show ?thesis by (auto simp: pe_fine_def drop_target_def)
qed

lemma redirect_std_simps [simp]:
  "pr_pid (redirect_std ok p) = pr_pid p" "pr_files (redirect_std ok p) = pr_files p"
  "pr_running (redirect_std ok p) = pr_running p" "pr_session_leader (redirect_std ok p) = pr_session_leader p"
  "pr_handlers (redirect_std ok p) = pr_handlers p" "pr_open_max (redirect_std ok p) = pr_open_max p"
  by (simp_all add: redirect_std_def Let_def)

lemma redirect_std_fds:
  assumes "3 \<le> pr_open_max p"
  shows "pr_fds (redirect_std True p) fd = (if fd < 3 then Some ''/dev/null'' else pr_fds p fd)"
proof -
  let ?n = "''/dev/null''" and ?m = "pr_open_max p"
  define t where "t = (pr_fds p)(0 := None, Suc 0 := None, 2 := None)"
  have t: "t 0 = None" "t (Suc 0) = None" "t 2 = None" by (simp_all add: t_def)
  have l0: "lowest_free ?m t = Some 0" using assms t by (auto simp: lowest_free_iff)
  have l1: "lowest_free ?m (t(0 \<mapsto> ?n)) = Some (Suc 0)" using assms t by (auto simp: lowest_free_iff)
  have l2: "lowest_free ?m (t(0 \<mapsto> ?n, Suc 0 \<mapsto> ?n)) = Some 2"
    using assms t by (auto simp: lowest_free_iff less_Suc_eq numeral_2_eq_2)
  have "pr_fds (redirect_std True p) = t(0 \<mapsto> ?n, Suc 0 \<mapsto> ?n, 2 \<mapsto> ?n)"
    by (simp add: redirect_std_def Let_def flip: t_def) (simp add: sys_open_def sys_dup_def l0 l1 l2)
  moreover have "fd < 3 \<longleftrightarrow> fd = 0 \<or> fd = 1 \<or> fd = 2" by auto
  ultimately show ?thesis by (auto simp: t_def)
qed

text \<open>
  In daemon mode the PID file is written before the fork, so it holds the number of the process that exits
  and not the one of the daemon; the daemon leads its own session, its standard descriptors are
  \<open>/dev/null\<close>, and every other descriptor, such as that of the log file, is kept.
\<close>

theorem daemon_pid_file_stale:
  assumes "create_pid_file True path p = (0, p1)" and "daemonize (ForkChild child) True True p1 = Some (0, p2)"
    and "child \<noteq> pr_pid p" and "3 \<le> pr_open_max p"
  shows "pr_pid p2 = child \<and> pr_files p2 path = Some (pr_pid p) \<and> pr_files p2 path \<noteq> Some (pr_pid p2) \<and>
    pr_session_leader p2 \<and> (\<forall>fd. pr_fds p2 fd = (if fd < 3 then Some ''/dev/null'' else pr_fds p fd))"
  using assms redirect_std_fds by (auto simp: create_pid_file_def daemonize_def Let_def)

definition process0 :: process where
  "process0 = \<lparr>pr_pid = 100, pr_running = True, pr_files = Map.empty, pr_session_leader = False,
               pr_fds = [0 \<mapsto> ''/dev/tty'', 1 \<mapsto> ''/dev/tty'', 2 \<mapsto> ''/dev/tty''], pr_open_max = 1024, pr_handlers = {}\<rparr>"

theorem daemon_pid_file_stale_witness:
  "\<exists>p2. daemonize (ForkChild 101) True True (snd (create_pid_file True ''/run/g.pid'' process0)) = Some (0, p2) \<and>
     pr_pid p2 = 101 \<and> pr_files p2 ''/run/g.pid'' = Some 100 \<and> pr_fds p2 2 = Some ''/dev/null''"
proof -
  define p1 where "p1 = snd (create_pid_file True ''/run/g.pid'' process0)"
  have c: "create_pid_file True ''/run/g.pid'' process0 = (0, p1)" by (simp add: p1_def create_pid_file_def)
  have d: "daemonize (ForkChild 101) True True p1 =
      Some (0, redirect_std True (p1\<lparr>pr_pid := 101, pr_session_leader := True\<rparr>))"
    by (simp add: daemonize_def)
  from daemon_pid_file_stale [OF c d] d show ?thesis by (simp add: p1_def process0_def)
qed

text \<open>Creating and removing the file are inverse on a path that was free; only the two handled signals stop
  the loop.\<close>

lemma pid_file_roundtrip:
  "pr_files p path = None \<Longrightarrow> create_pid_file True path p = (0, p1) \<Longrightarrow> remove_pid_file True path p1 = (0, p)"
  by (auto simp: create_pid_file_def remove_pid_file_def fun_upd_idem)

lemma signal_stops: "is_running (signal_handler sig p) \<longleftrightarrow> is_running p \<and> sig \<notin> {SIGINT, SIGTERM}"
  by (auto simp: signal_handler_def is_running_def SIGINT_def SIGTERM_def)

end
