(* ===== verification/Logging.thy ===== *)
theory Logging
  imports Prelude
begin

text \<open>
  \<open>src/core/logging.c\<close> and \<open>src/include/logging.h\<close>: the global logging configuration and where each
  message goes.  The texts are formatted by the C library, so a message is given as its formatted
  string; what is written where is recorded in the order of the writes.
\<close>

section \<open>State\<close>

datatype log_sink = Syslog | LogFile | Stderr

record logging_config_t =
  lg_level :: int
  lg_use_syslog :: bool
  lg_use_file :: bool
  lg_log_file :: string
  lg_log_fp :: bool  \<comment> \<open>whether \<open>log_fp\<close> is an open stream (not NULL)\<close>
  lg_debug_enabled :: bool
  lg_out :: "(log_sink \<times> int \<times> string) list"  \<comment> \<open>what has been written, newest last\<close>

definition LOG_LEVEL_ERR :: int where "LOG_LEVEL_ERR = 3"
definition LOG_LEVEL_WARNING :: int where "LOG_LEVEL_WARNING = 4"
definition LOG_LEVEL_NOTICE :: int where "LOG_LEVEL_NOTICE = 5"
definition LOG_LEVEL_INFO :: int where "LOG_LEVEL_INFO = 6"
definition LOG_LEVEL_DEBUG :: int where "LOG_LEVEL_DEBUG = 7"

definition logging_config0 :: logging_config_t where
  "logging_config0 =
     \<lparr>lg_level = LOG_LEVEL_INFO, lg_use_syslog = False, lg_use_file = False, lg_log_file = [],
      lg_log_fp = False, lg_debug_enabled = False, lg_out = []\<rparr>"

section \<open>Operations\<close>

definition log_message :: "int \<Rightarrow> string \<Rightarrow> logging_config_t \<Rightarrow> logging_config_t cres" where
  "log_message priority msg lg =
     (if lg_level lg < priority then Inr lg
      else if lg_use_syslog lg then Inr (lg\<lparr>lg_out := lg_out lg @ [(Syslog, priority, msg)]\<rparr>)
      else if lg_use_file lg
      then (if lg_log_fp lg then Inr (lg\<lparr>lg_out := lg_out lg @ [(LogFile, priority, msg)]\<rparr>)
            else Inl NullDeref)
      else Inr (lg\<lparr>lg_out := lg_out lg @ [(Stderr, priority, msg)]\<rparr>))"

text \<open>The macros \<open>log_error\<close>, \<open>log_info\<close> and \<open>log_debug\<close>.\<close>

definition log_error :: "string \<Rightarrow> logging_config_t \<Rightarrow> logging_config_t cres" where
  "log_error msg = log_message LOG_LEVEL_ERR (''ERROR: '' @ msg)"

definition log_info :: "string \<Rightarrow> logging_config_t \<Rightarrow> logging_config_t cres" where
  "log_info msg = log_message LOG_LEVEL_INFO (''INFO: '' @ msg)"

definition log_debug :: "string \<Rightarrow> logging_config_t \<Rightarrow> logging_config_t cres" where
  "log_debug msg lg =
     (if lg_debug_enabled lg then log_message LOG_LEVEL_DEBUG (''DEBUG: '' @ msg) lg else Inr lg)"

text \<open>\<open>fopen_ok\<close>: whether \<open>fopen (log_file, "a")\<close> succeeds.\<close>

definition logging_init ::
  "bool \<Rightarrow> int \<Rightarrow> bool \<Rightarrow> string option \<Rightarrow> logging_config_t \<Rightarrow> (int \<times> logging_config_t) cres" where
  "logging_init fopen_ok level use_syslog log_file lg =
     (let lg1 = lg\<lparr>lg_level := level, lg_use_syslog := use_syslog,
                   lg_debug_enabled := (LOG_LEVEL_DEBUG \<le> level)\<rparr>;
          opened = (case log_file of None \<Rightarrow> (True, lg1)
             | Some f \<Rightarrow> if f = [] then (True, lg1)
                        else (fopen_ok, lg1\<lparr>lg_log_file := take 255 f, lg_use_file := True,
                                             lg_log_fp := fopen_ok\<rparr>))
      in if fst opened
         then bindC (log_info ''Logging system initialized'' (snd opened)) (\<lambda>lg2. Inr (0, lg2))
         else Inr (-1, snd opened))"

definition logging_cleanup :: "logging_config_t \<Rightarrow> logging_config_t" where
  "logging_cleanup lg = (if lg_use_file lg \<and> lg_log_fp lg then lg\<lparr>lg_log_fp := False\<rparr> else lg)"

definition logging_set_level :: "int \<Rightarrow> logging_config_t \<Rightarrow> logging_config_t" where
  "logging_set_level level lg = lg\<lparr>lg_level := level, lg_debug_enabled := (LOG_LEVEL_DEBUG \<le> level)\<rparr>"

definition logging_set_debug :: "bool \<Rightarrow> logging_config_t \<Rightarrow> logging_config_t" where
  "logging_set_debug enable lg = lg\<lparr>lg_debug_enabled := enable\<rparr>"

definition log_error_func :: "string \<Rightarrow> logging_config_t \<Rightarrow> logging_config_t cres" where
  "log_error_func msg = log_message LOG_LEVEL_ERR (''ERROR: '' @ take 1023 msg)"

definition log_info_func :: "string \<Rightarrow> logging_config_t \<Rightarrow> logging_config_t cres" where
  "log_info_func msg = log_message LOG_LEVEL_INFO (''INFO: '' @ take 1023 msg)"

definition log_debug_func :: "string \<Rightarrow> logging_config_t \<Rightarrow> logging_config_t cres" where
  "log_debug_func msg lg =
     (if \<not> lg_debug_enabled lg then Inr lg
      else log_message LOG_LEVEL_DEBUG (''DEBUG: '' @ take 1023 msg) lg)"

definition packet_stats_text :: "u64 \<Rightarrow> u64 \<Rightarrow> u64 \<Rightarrow> string" where
  "packet_stats_text packets_processed packets_modified bytes_processed =
     ''STATS: processed='' @ dec_word packets_processed @ '', modified='' @ dec_word packets_modified @
     '', bytes='' @ dec_word bytes_processed"

definition log_packet_stats :: "u64 \<Rightarrow> u64 \<Rightarrow> u64 \<Rightarrow> logging_config_t \<Rightarrow> logging_config_t cres" where
  "log_packet_stats packets_processed packets_modified bytes_processed =
     log_info (packet_stats_text packets_processed packets_modified bytes_processed)"

section \<open>Properties\<close>

text \<open>The stream a message needs is there.\<close>

definition log_ready :: "logging_config_t \<Rightarrow> bool" where
  "log_ready lg \<longleftrightarrow> lg_use_syslog lg \<or> \<not> lg_use_file lg \<or> lg_log_fp lg"

definition log_target :: "logging_config_t \<Rightarrow> log_sink" where
  "log_target lg = (if lg_use_syslog lg then Syslog else if lg_use_file lg then LogFile else Stderr)"

lemma log_ready0: "log_ready logging_config0"
  by (simp add: log_ready_def logging_config0_def)

lemma log_message_ready:
  "log_ready lg \<Longrightarrow>
   log_message p m lg =
     Inr (if p \<le> lg_level lg then lg\<lparr>lg_out := lg_out lg @ [(log_target lg, p, m)]\<rparr> else lg)"
  by (auto simp: log_message_def log_ready_def log_target_def)

lemma log_ready_out [simp]: "log_ready (lg\<lparr>lg_out := x\<rparr>) = log_ready lg"
  by (simp add: log_ready_def)

lemma logging_cleanup_ready:
  "log_ready (logging_cleanup lg) \<longleftrightarrow> lg_use_syslog lg \<or> \<not> lg_use_file lg"
  by (auto simp: log_ready_def logging_cleanup_def)

lemma logging_init_state:
  assumes "logging_init ok level sys file lg = Inr (0, lg1)" and "\<not> lg_use_file lg"
  shows "log_ready lg1" and "lg_level lg1 = level" and "lg_debug_enabled lg1 = (LOG_LEVEL_DEBUG \<le> level)"
    and "lg_use_syslog lg1 = sys"
proof -
  let ?lg0 = "lg\<lparr>lg_level := level, lg_use_syslog := sys, lg_debug_enabled := (LOG_LEVEL_DEBUG \<le> level)\<rparr>"
  obtain lg2 where i: "log_info ''Logging system initialized'' lg2 = Inr lg1" and r: "log_ready lg2"
    and l: "lg_level lg2 = level" "lg_debug_enabled lg2 = (LOG_LEVEL_DEBUG \<le> level)" "lg_use_syslog lg2 = sys"
  proof (cases "file = None \<or> file = Some []")
    case True
    with assms show ?thesis
      by (intro that [of ?lg0]) (auto simp: logging_init_def Let_def bindC_eq_Inr log_ready_def)
  next
    case False
    then obtain f where "file = Some f" "f \<noteq> []" by auto
    moreover from this assms(1) have "ok"
      by (simp add: logging_init_def Let_def split: if_splits)
    ultimately show ?thesis using assms
      by (intro that [of "?lg0\<lparr>lg_log_file := take 255 f, lg_use_file := True, lg_log_fp := True\<rparr>"])
        (simp_all add: logging_init_def Let_def bindC_eq_Inr log_ready_def)
  qed
  show "log_ready lg1" "lg_level lg1 = level" "lg_debug_enabled lg1 = (LOG_LEVEL_DEBUG \<le> level)"
    "lg_use_syslog lg1 = sys"
    using i r l by (auto simp: log_info_def log_message_ready split: if_splits)
qed

text \<open>
  After \<open>logging_init\<close> succeeds on the initial state every message of sufficient priority is
  written exactly once, to the sink the configuration names, messages above the level are dropped,
  and the debug flag agrees with the level.
\<close>

theorem logging_init_ready:
  assumes "logging_init ok level sys file logging_config0 = Inr (0, lg1)"
  shows "log_message p m lg1 =
      Inr (if p \<le> level then lg1\<lparr>lg_out := lg_out lg1 @ [(log_target lg1, p, m)]\<rparr> else lg1) \<and>
    (lg_debug_enabled lg1 \<longleftrightarrow> 7 \<le> level)"
proof -
  have "\<not> lg_use_file logging_config0" by (simp add: logging_config0_def)
  note s = logging_init_state [OF assms this]
  from log_message_ready [OF s(1)] s show ?thesis by (simp add: LOG_LEVEL_DEBUG_def)
qed

theorem logging_init_ready_witness:
  "\<exists>lg1. logging_init True 7 False (Some ''/tmp/g.log'') logging_config0 = Inr (0, lg1) \<and>
     log_message 3 ''ERROR: x'' lg1 =
       Inr (lg1\<lparr>lg_out := [(LogFile, 6, ''INFO: Logging system initialized''), (LogFile, 3, ''ERROR: x'')]\<rparr>)"
proof -
  define lg1 where "lg1 = \<lparr>lg_level = 7, lg_use_syslog = False, lg_use_file = True,
    lg_log_file = ''/tmp/g.log'', lg_log_fp = True, lg_debug_enabled = True,
    lg_out = [(LogFile, 6, ''INFO: Logging system initialized'')]\<rparr>"
  have h: "logging_init True 7 False (Some ''/tmp/g.log'') logging_config0 = Inr (0, lg1)"
    by (simp add: lg1_def logging_init_def logging_config0_def Let_def log_info_def log_message_def
        LOG_LEVEL_INFO_def LOG_LEVEL_DEBUG_def)
  from h show ?thesis using logging_init_ready [OF h, of 3 "''ERROR: x''"]
    by (simp add: lg1_def log_target_def)
qed

text \<open>
  \<open>logging_cleanup\<close> closes the stream but leaves \<open>use_file\<close> set, so a later message that passes the
  level test dereferences the null stream when logging goes to a file and not to syslog.  Every
  other later message is harmless.
\<close>

theorem log_after_cleanup:
  "log_message p m (logging_cleanup lg) = Inl NullDeref \<longleftrightarrow>
     p \<le> lg_level lg \<and> \<not> lg_use_syslog lg \<and> lg_use_file lg"
  by (auto simp: log_message_def logging_cleanup_def)

end
