(* ===== verification/Reports.thy ===== *)
theory Reports
  imports NetUtils Service Logging
begin

text \<open>
  What the program reports through its log: \<open>config_print\<close> (\<open>src/core/config.c\<close>), \<open>print_packet_info\<close>
  (\<open>src/capture/packet_utils.c\<close>), \<open>log_privilege_status\<close> (\<open>src/service/privileges.c\<close>), \<open>netfilter_print_error\<close>
  (\<open>src/capture/netfilter_capture.c\<close>) and the function that loads the defaults into the global configuration.  The texts are
  those of the source with the conversions of \<open>printf\<close> carried out.
\<close>

section \<open>Reports of several lines\<close>

fun log_infos :: "string list \<Rightarrow> logging_config_t \<Rightarrow> logging_config_t cres" where
  "log_infos [] lg = Inr lg"
| "log_infos (m # ms) lg = bindC (log_info m lg) (log_infos ms)"

lemma log_infos_ready:
  "log_ready lg \<Longrightarrow> log_infos ms lg =
     Inr (lg\<lparr>lg_out := lg_out lg @
       (if LOG_LEVEL_INFO \<le> lg_level lg then map (\<lambda>m. (log_target lg, LOG_LEVEL_INFO, ''INFO: '' @ m)) ms else [])\<rparr>)"
proof (induction ms arbitrary: lg)
  case (Cons m ms)
  have t: "log_target (lg\<lparr>lg_out := x\<rparr>) = log_target lg" for x by (simp add: log_target_def)
  show ?case using Cons by (simp add: log_info_def log_message_ready t)
qed simp

section \<open>The configuration\<close>

definition config_load_defaults :: "goodbyedpi_config_t \<Rightarrow> int \<times> goodbyedpi_config_t option" where
  "config_load_defaults config = config_init (Some config)"

definition yes_no :: "bool \<Rightarrow> string" where
  "yes_no b = (if b then ''yes'' else ''no'')"

definition config_lines :: "goodbyedpi_config_t \<Rightarrow> string list" where
  "config_lines config =
     [''=== GoodbyeDPI Configuration ==='',
      ''Fragmentation: HTTP='' @ dec_word (cfg_http_fragment_size config) @
        '', HTTPS='' @ dec_word (cfg_https_fragment_size config),
      ''Native fragmentation: '' @ yes_no (cfg_native_fragmentation config),
      ''Reverse fragmentation: '' @ yes_no (cfg_reverse_fragmentation config),
      ''Host mixed case: '' @ yes_no (cfg_host_mixedcase config),
      ''Additional space: '' @ yes_no (cfg_additional_space config),
      ''Host remove space: '' @ yes_no (cfg_host_removespace config),
      ''Wrong checksum: '' @ yes_no (cfg_wrong_checksum config),
      ''Wrong sequence: '' @ yes_no (cfg_wrong_sequence config),
      ''Auto TTL: '' @ yes_no (cfg_auto_ttl config),
      ''Fake packet: '' @ yes_no (cfg_fake_packet config),
      ''Block QUIC: '' @ yes_no (cfg_block_quic config),
      ''Debug mode: '' @ yes_no (cfg_debug_mode config),
      ''Daemon mode: '' @ yes_no (cfg_daemon_mode config),
      ''Max payload size: '' @ dec_word (cfg_max_payload_size config)] @
     (if cfg_dns_redirect_ipv4 config
      then [''DNS IPv4 redirection: '' @ cfg_dns_server_v4 config @ '':'' @ dec_word (cfg_dns_port_v4 config)] else []) @
     (if cfg_dns_redirect_ipv6 config
      then [''DNS IPv6 redirection: '' @ cfg_dns_server_v6 config @ '':'' @ dec_word (cfg_dns_port_v6 config)] else []) @
     [''================================'']"

definition config_print :: "goodbyedpi_config_t \<Rightarrow> logging_config_t \<Rightarrow> logging_config_t cres" where
  "config_print config = log_infos (config_lines config)"

section \<open>Packets, privileges and errors\<close>

text \<open>\<open>inet_ntop\<close> fits its result into a buffer of \<^const>\<open>INET6_ADDRSTRLEN\<close> characters that was cleared, and leaves the
  buffer empty when it does not fit.\<close>

definition ntop_buffer :: "string \<Rightarrow> string" where
  "ntop_buffer t = (if INET6_ADDRSTRLEN < length t + 1 then [] else t)"

definition packet_info_text :: "(ip_words \<Rightarrow> string) \<Rightarrow> packet_t \<Rightarrow> string" where
  "packet_info_text ntop6 p =
     (let ntop = (\<lambda>ip. ntop_buffer (if \<not> p_is_ipv6 p then inet_ntop4 (ip0 ip) else ntop6 ip))
      in ''Packet: '' @ (if p_is_outbound p then ''OUT'' else ''IN'') @ '' '' @
         ntop (p_src_ip p) @ '':'' @ dec_word (p_src_port p) @ '' -> '' @ ntop (p_dst_ip p) @ '':'' @ dec_word (p_dst_port p) @
         '' (type='' @ dec_word (type_code (p_type p)) @ '', ttl='' @ dec_word (p_ttl p) @
         '', payload='' @ dec_word (p_payload_len p) @ '' bytes)'')"

definition print_packet_info :: "(ip_words \<Rightarrow> string) \<Rightarrow> packet_t option \<Rightarrow> logging_config_t \<Rightarrow> logging_config_t cres" where
  "print_packet_info ntop6 packet =
     (case packet of None \<Rightarrow> log_debug ''NULL packet'' | Some p \<Rightarrow> log_debug (packet_info_text ntop6 p))"

text \<open>\<open>%d\<close>.\<close>

definition dec_int :: "int \<Rightarrow> string" where
  "dec_int i = (if i < 0 then ''-'' @ dec_nat (nat (- i)) else dec_nat (nat i))"

definition Yes_No :: "bool \<Rightarrow> string" where
  "Yes_No b = (if b then ''Yes'' else ''No'')"

definition privilege_lines :: "access_env \<Rightarrow> privileges \<Rightarrow> string list" where
  "privilege_lines ae v =
     [''Privilege status:'',
      ''  Real UID: '' @ dec_int (pv_ruid v) @ '', Effective UID: '' @ dec_int (pv_euid v) @ '', Saved UID: '' @ dec_int (pv_suid v),
      ''  Real GID: '' @ dec_int (pv_rgid v) @ '', Effective GID: '' @ dec_int (pv_egid v) @ '', Saved GID: '' @ dec_int (pv_sgid v),
      ''  Running as root: '' @ Yes_No (is_running_as_root v),
      ''  Has network capabilities: '' @ Yes_No (has_network_capabilities ae),
      ''  Has firewall capabilities: '' @ Yes_No (has_firewall_capabilities v)]"

definition log_privilege_status :: "access_env \<Rightarrow> privileges \<Rightarrow> logging_config_t \<Rightarrow> logging_config_t cres" where
  "log_privilege_status ae v = log_infos (privilege_lines ae v)"

text \<open>\<open>strerror\<close> is an argument; the text goes to the standard output.\<close>

definition netfilter_print_error :: "(int \<Rightarrow> string) \<Rightarrow> string \<Rightarrow> int \<Rightarrow> string" where
  "netfilter_print_error strerror operation err = ''Netfilter '' @ operation @ '' failed: '' @ strerror err"

section \<open>The reports are faithful\<close>

lemma not_dec_char [simp]: "\<not> dec_char CHR '',''" "\<not> dec_char CHR '':''"
  by (simp_all add: dec_char_def)

lemma yes_no_inj [simp]: "yes_no a = yes_no b \<longleftrightarrow> a = b"
  by (simp add: yes_no_def)

lemma packet_stats_inj:
  "packet_stats_text p m b = packet_stats_text p' m' b' \<longleftrightarrow> p = p' \<and> m = m' \<and> b = b'"
  by (simp add: packet_stats_text_def dec_nat_prefix word_unat_eq_iff)

text \<open>The settings that the report of the configuration shows; a DNS server only while its redirection is on.\<close>

definition reported :: "goodbyedpi_config_t \<Rightarrow> (u32 \<times> u32 \<times> u32) \<times> bool list \<times> (string \<times> u16) option \<times> (string \<times> u16) option" where
  "reported c =
     ((cfg_http_fragment_size c, cfg_https_fragment_size c, cfg_max_payload_size c),
      [cfg_native_fragmentation c, cfg_reverse_fragmentation c, cfg_host_mixedcase c, cfg_additional_space c,
       cfg_host_removespace c, cfg_wrong_checksum c, cfg_wrong_sequence c, cfg_auto_ttl c, cfg_fake_packet c,
       cfg_block_quic c, cfg_debug_mode c, cfg_daemon_mode c],
      if cfg_dns_redirect_ipv4 c then Some (cfg_dns_server_v4 c, cfg_dns_port_v4 c) else None,
      if cfg_dns_redirect_ipv6 c then Some (cfg_dns_server_v6 c, cfg_dns_port_v6 c) else None)"

lemma config_lines_iff: "config_lines c = config_lines d \<longleftrightarrow> reported c = reported d"
proof
  assume "config_lines c = config_lines d"
  then show "reported c = reported d"
    unfolding config_lines_def by (simp add: reported_def dec_nat_prefix dec_nat_suffix word_unat_eq_iff split: if_splits)
next
  assume "reported c = reported d"
  then show "config_lines c = config_lines d"
    unfolding config_lines_def by (simp add: reported_def split: if_splits)
qed

section \<open>Properties\<close>

text \<open>
  C39. The report of the configuration is complete and unambiguous: while the log takes messages of level INFO,
  \<open>config_print\<close> writes every line of it to the log, and the reports of two configurations are equal exactly when the
  configurations agree on all settings that the report shows.  The periodic statistics determine the three counters.
\<close>

theorem config_print_faithful:
  assumes "log_ready lg" "LOG_LEVEL_INFO \<le> lg_level lg"
  shows "config_print c lg =
      Inr (lg\<lparr>lg_out := lg_out lg @ map (\<lambda>m. (log_target lg, LOG_LEVEL_INFO, ''INFO: '' @ m)) (config_lines c)\<rparr>) \<and>
    (config_print c lg = config_print d lg \<longleftrightarrow> reported c = reported d) \<and>
    (log_packet_stats p m b lg = log_packet_stats p' m' b' lg \<longleftrightarrow> p = p' \<and> m = m' \<and> b = b')"
proof (intro conjI)
  have e: "config_print c lg =
      Inr (lg\<lparr>lg_out := lg_out lg @ map (\<lambda>m. (log_target lg, LOG_LEVEL_INFO, ''INFO: '' @ m)) (config_lines c)\<rparr>)" for c
    using log_infos_ready [OF assms(1)] assms(2) by (simp add: config_print_def)
  show "config_print c lg =
      Inr (lg\<lparr>lg_out := lg_out lg @ map (\<lambda>m. (log_target lg, LOG_LEVEL_INFO, ''INFO: '' @ m)) (config_lines c)\<rparr>)" by (rule e)
  have out: "lg\<lparr>lg_out := x\<rparr> = lg\<lparr>lg_out := y\<rparr> \<longleftrightarrow> x = y" for x y by (cases lg) simp
  have "inj (\<lambda>m. (log_target lg, LOG_LEVEL_INFO, ''INFO: '' @ m))" by (simp add: inj_def)
  then show "config_print c lg = config_print d lg \<longleftrightarrow> reported c = reported d"
    unfolding e config_lines_iff [symmetric] by (simp add: out inj_map_eq_map)
  show "log_packet_stats p m b lg = log_packet_stats p' m' b' lg \<longleftrightarrow> p = p' \<and> m = m' \<and> b = b'"
    using assms by (simp add: log_packet_stats_def log_info_def log_message_ready out packet_stats_inj)
qed

theorem config_print_faithful_witness:
  "config_print config_defaults logging_config0 \<noteq>
     config_print (config_defaults\<lparr>cfg_http_fragment_size := 7\<rparr>) logging_config0 \<and>
   config_print config_defaults logging_config0 = config_print (config_defaults\<lparr>cfg_nfqueue_num := 7\<rparr>) logging_config0"
proof -
  have l: "log_ready logging_config0" "LOG_LEVEL_INFO \<le> lg_level logging_config0"
    by (simp_all add: log_ready0) (simp add: logging_config0_def)
  have "reported config_defaults \<noteq> reported (config_defaults\<lparr>cfg_http_fragment_size := 7\<rparr>)"
    by (simp add: reported_def config_defaults_def config_zero_def)
  moreover have "reported config_defaults = reported (config_defaults\<lparr>cfg_nfqueue_num := 7\<rparr>)" by (simp add: reported_def)
  ultimately show ?thesis using config_print_faithful [OF l, of config_defaults] by blast
qed

end
