(* ===== verification/CommandLine.thy ===== *)
theory CommandLine
  imports Config "HOL-Library.Sublist"
begin

text \<open>
  The command line of \<open>src/main.c\<close> from \<open>argv\<close> on: the option tables of \<open>parse_arguments\<close>, \<open>getopt_long\<close> of the C library on
  them, and the text of \<open>print_usage\<close>.  \<open>parse_arguments\<close> of the theory of the configuration works on what \<open>getopt_long\<close>
  returns; here the two are put together, and the usage text is compared with what the program accepts.
\<close>

section \<open>The option tables\<close>

datatype has_arg = no_argument | required_argument

definition long_options :: "(string \<times> has_arg \<times> getopt_code) list" where
  "long_options =
     [(''help'', no_argument, Ch CHR ''h''),
      (''version'', no_argument, Ch CHR ''V''),
      (''daemon'', no_argument, Ch CHR ''d''),
      (''config'', required_argument, Ch CHR ''c''),
      (''pidfile'', required_argument, Ch CHR ''p''),
      (''logfile'', required_argument, Ch CHR ''l''),
      (''verbose'', no_argument, Ch CHR ''v''),
      (''debug'', no_argument, Long 1000),
      (''syslog'', no_argument, Long 1001),
      (''fragment-http'', required_argument, Long 1002),
      (''fragment-https'', required_argument, Long 1003),
      (''native-frag'', no_argument, Long 1004),
      (''reverse-frag'', no_argument, Long 1005),
      (''host-mixedcase'', no_argument, Long 1006),
      (''additional-space'', no_argument, Long 1007),
      (''host-removespace'', no_argument, Long 1008),
      (''dns-redirect-v4'', required_argument, Long 1009),
      (''dns-redirect-v6'', required_argument, Long 1010),
      (''dns-port'', required_argument, Long 1011),
      (''queue-num'', required_argument, Long 1012)]"

definition short_options :: string where
  "short_options = ''hVdc:p:l:v123456789''"

section \<open>\<open>getopt_long\<close>\<close>

text \<open>The answer for an option that is not known, is ambiguous, lacks its argument or has one that it must not have.\<close>

definition bad_option :: "getopt_code \<times> string" where
  "bad_option = (Ch CHR ''?'', [])"

text \<open>An option character takes an argument when a colon follows it in the option string.\<close>

fun short_has_arg :: "string \<Rightarrow> char \<Rightarrow> has_arg option" where
  "short_has_arg [] c = None"
| "short_has_arg (d # ds) c =
     (if d = c \<and> c \<noteq> CHR '':''
      then Some (case ds of CHR '':'' # _ \<Rightarrow> required_argument | _ \<Rightarrow> no_argument)
      else short_has_arg ds c)"

text \<open>The options in one argument of the form \<open>-xyz\<close> (the characters behind the dash), with the arguments that follow it;
  the result has the arguments that are left.\<close>

fun getopt_short :: "string \<Rightarrow> string list \<Rightarrow> (getopt_code \<times> string) list \<times> string list" where
  "getopt_short [] args = ([], args)"
| "getopt_short (c # cs) args =
     (case short_has_arg short_options c of
        None \<Rightarrow> (let (os, rest) = getopt_short cs args in (bad_option # os, rest))
      | Some no_argument \<Rightarrow> (let (os, rest) = getopt_short cs args in ((Ch c, []) # os, rest))
      | Some required_argument \<Rightarrow>
          (if cs \<noteq> [] then ([(Ch c, cs)], args)
           else (case args of [] \<Rightarrow> ([bad_option], []) | a # as \<Rightarrow> ([(Ch c, a)], as))))"

text \<open>The name of a long option may be abbreviated; a complete name wins over longer ones.\<close>

definition long_match :: "string \<Rightarrow> (string \<times> has_arg \<times> getopt_code) option" where
  "long_match name =
     (case filter (\<lambda>(n, _). n = name) long_options of
        opt # _ \<Rightarrow> Some opt
      | [] \<Rightarrow> (case filter (\<lambda>(n, _). prefix name n) long_options of [opt] \<Rightarrow> Some opt | _ \<Rightarrow> None))"

text \<open>An argument of the form \<open>--name\<close> or \<open>--name=value\<close> (the characters behind the dashes).\<close>

definition getopt_long_opt :: "string \<Rightarrow> string list \<Rightarrow> (getopt_code \<times> string) \<times> string list" where
  "getopt_long_opt s args =
     (let name = takeWhile (\<lambda>c. c \<noteq> CHR ''='') s; rest = dropWhile (\<lambda>c. c \<noteq> CHR ''='') s in
      case long_match name of
        None \<Rightarrow> (bad_option, args)
      | Some (_, no_argument, code) \<Rightarrow> (if rest \<noteq> [] then bad_option else (code, []), args)
      | Some (_, required_argument, code) \<Rightarrow>
          (if rest \<noteq> [] then ((code, tl rest), args)
           else (case args of [] \<Rightarrow> (bad_option, []) | a # as \<Rightarrow> ((code, a), as))))"

text \<open>What successive calls return until -1.  Arguments that are no options are passed over (\<open>getopt_long\<close> moves them behind the
  options, unless \<open>POSIXLY_CORRECT\<close> is set in the environment); \<open>--\<close> ends the options.\<close>

lemma getopt_short_rest: "(os, rest) = getopt_short cs args \<Longrightarrow> length rest \<le> length args"
  by (induction cs args arbitrary: os rest rule: getopt_short.induct)
    (auto simp: Let_def split: option.splits has_arg.splits list.splits prod.splits if_splits)

lemma getopt_long_opt_rest: "(r, rest) = getopt_long_opt s args \<Longrightarrow> length rest \<le> length args"
  by (auto simp: getopt_long_opt_def Let_def split: option.splits has_arg.splits list.splits if_splits)

function getopt_long :: "string list \<Rightarrow> (getopt_code \<times> string) list" where
  "getopt_long [] = []"
| "getopt_long (a # args) =
     (if a = ''--'' then []
      else if prefix ''--'' a
      then (case getopt_long_opt (drop 2 a) args of (r, rest) \<Rightarrow> r # getopt_long rest)
      else if prefix ''-'' a \<and> a \<noteq> ''-''
      then (case getopt_short (drop 1 a) args of (os, rest) \<Rightarrow> os @ getopt_long rest)
      else getopt_long args)"
  by pat_completeness auto
termination
  by (relation "measure length") (auto simp: less_Suc_eq_le dest: getopt_short_rest getopt_long_opt_rest)

declare getopt_long.simps(2) [simp del]

lemma getopt_long_dashes:
  "n \<noteq> [] \<Longrightarrow> getopt_long ((''--'' @ n) # args) = (case getopt_long_opt n args of (r, rest) \<Rightarrow> r # getopt_long rest)"
  "c \<noteq> CHR ''-'' \<Longrightarrow> getopt_long ((''-'' @ c # cs) # args) = (case getopt_short (c # cs) args of (os, rest) \<Rightarrow> os @ getopt_long rest)"
  by (simp_all add: getopt_long.simps(2))

text \<open>\<open>parse_arguments\<close> as \<open>main\<close> calls it, on \<open>argv\<close> without the program name.\<close>

definition parse_argv ::
  "(string \<Rightarrow> string option) \<Rightarrow> config_line_t \<Rightarrow> string list \<Rightarrow> goodbyedpi_config_t \<Rightarrow> int \<times> goodbyedpi_config_t" where
  "parse_argv fs cl0 argv cfg = parse_arguments fs cl0 (getopt_long argv) cfg"

section \<open>The usage text\<close>

definition print_usage :: "string \<Rightarrow> string list" where
  "print_usage program_name =
     [''Usage: '' @ program_name @ '' [OPTIONS]'',
      [],
      ''GoodbyeDPI Linux - DPI bypass and circumvention utility'',
      [],
      ''Options:'',
      ''  -h, --help              Show this help message'',
      ''  -V, --version           Show version information'',
      ''  -d, --daemon            Run as daemon'',
      ''  -c, --config FILE       Load configuration from file'',
      ''  -p, --pidfile FILE      PID file path (default: /run/goodbyedpi.pid)'',
      ''  -l, --logfile FILE      Log file path'',
      ''  -v, --verbose           Enable verbose output'',
      ''  --debug                 Enable debug output'',
      ''  --syslog                Use syslog for logging'',
      ''  --queue-num NUM         NFQUEUE number (default: 0)'',
      [],
      ''Fragmentation options:'',
      ''  -f, --fragment-http SIZE    HTTP fragment size (1-65535)'',
      ''  -e, --fragment-https SIZE   HTTPS fragment size (1-65535)'',
      ''  --native-frag               Use native fragmentation'',
      ''  --reverse-frag              Use reverse fragmentation'',
      [],
      ''Header manipulation:'',
      ''  --host-mixedcase          Mix case in Host header'',
      ''  --additional-space         Add additional space'',
      ''  --host-removespace        Remove space after Host:'',
      [],
      ''DNS options:'',
      ''  --dns-redirect-v4 ADDR    Redirect IPv4 DNS to ADDR'',
      ''  --dns-redirect-v6 ADDR    Redirect IPv6 DNS to ADDR'',
      ''  --dns-port PORT           DNS port (default: 53)'',
      [],
      ''Legacy modes:'',
      ''  -1                     Legacy mode 1 (compatible)'',
      ''  -2                     Legacy mode 2 (HTTPS optimization)'',
      ''  -5                     Modern mode 5 (auto-TTL)'',
      ''  -6                     Modern mode 6 (wrong-seq)'',
      ''  -7                     Modern mode 7 (wrong-chksum)'',
      ''  -9                     Modern mode 9 (full features)'',
      [],
      ''Note: This tool requires root privileges for packet capture.'',
      ''      Run with: sudo '' @ program_name @ '' [OPTIONS]'']"

text \<open>The options that a line of the text documents: its words that begin with a dash, without the comma between two.  The
  line shows an argument when a word in capitals follows the options.\<close>

fun words :: "string \<Rightarrow> string list" where
  "words [] = [[]]"
| "words (c # cs) =
     (if c = CHR '' '' then [] # words cs
      else (case words cs of w # ws \<Rightarrow> (c # w) # ws | [] \<Rightarrow> [[c]]))"

definition line_words :: "string \<Rightarrow> string list" where
  "line_words line = map (filter (\<lambda>c. c \<noteq> CHR '','')) (filter (\<lambda>w. w \<noteq> []) (words line))"

definition upper :: "char \<Rightarrow> bool" where
  "upper c \<longleftrightarrow> c \<in> set ''ABCDEFGHIJKLMNOPQRSTUVWXYZ''"

definition documented :: "string \<Rightarrow> (string \<times> has_arg) list" where
  "documented line =
     (let ws = line_words line; os = takeWhile (prefix ''-'') ws; rest = dropWhile (prefix ''-'') ws;
          ha = (case rest of w # _ \<Rightarrow> if list_all upper w then required_argument else no_argument | [] \<Rightarrow> no_argument)
      in map (\<lambda>opt. (opt, ha)) os)"

definition usage_options :: "(string \<times> has_arg) list" where
  "usage_options = concat (map documented (print_usage ''goodbyedpi''))"

section \<open>Evaluating the tables\<close>

lemma usage_options_eq:
  "usage_options =
     [(''-h'', no_argument), (''--help'', no_argument), (''-V'', no_argument), (''--version'', no_argument),
      (''-d'', no_argument), (''--daemon'', no_argument), (''-c'', required_argument), (''--config'', required_argument),
      (''-p'', required_argument), (''--pidfile'', required_argument), (''-l'', required_argument), (''--logfile'', required_argument),
      (''-v'', no_argument), (''--verbose'', no_argument), (''--debug'', no_argument), (''--syslog'', no_argument),
      (''--queue-num'', required_argument), (''-f'', required_argument), (''--fragment-http'', required_argument),
      (''-e'', required_argument), (''--fragment-https'', required_argument), (''--native-frag'', no_argument),
      (''--reverse-frag'', no_argument), (''--host-mixedcase'', no_argument), (''--additional-space'', no_argument),
      (''--host-removespace'', no_argument), (''--dns-redirect-v4'', required_argument), (''--dns-redirect-v6'', required_argument),
      (''--dns-port'', required_argument), (''-1'', no_argument), (''-2'', no_argument), (''-5'', no_argument),
      (''-6'', no_argument), (''-7'', no_argument), (''-9'', no_argument)]"
  by code_simp

lemma long_options_names:
  assumes "(n, ha, code) \<in> set long_options"
  shows "CHR ''='' \<notin> set n" "n \<noteq> []" "code \<noteq> Ch CHR ''?''" "(''--'' @ n, ha) \<in> set usage_options"
proof -
  have "list_all (\<lambda>(n, ha, code). CHR ''='' \<notin> set n \<and> n \<noteq> [] \<and> code \<noteq> Ch CHR ''?'' \<and> (''--'' @ n, ha) \<in> set usage_options) long_options"
    unfolding usage_options_eq by code_simp
  then show "CHR ''='' \<notin> set n" "n \<noteq> []" "code \<noteq> Ch CHR ''?''" "(''--'' @ n, ha) \<in> set usage_options"
    using assms unfolding list_all_iff by auto
qed

lemma long_match_full:
  assumes "(n, ha, code) \<in> set long_options"
  shows "long_match n = Some (n, ha, code)"
proof -
  have d: "distinct (map fst long_options)" by (simp add: long_options_def)
  have "filter (\<lambda>(m, _). m = n) os = [(n, ha, code)]" if "distinct (map fst os)" "(n, ha, code) \<in> set os" for os
    using that by (induction os) (force simp: filter_empty_conv)+
  from this [OF d assms] show ?thesis by (simp add: long_match_def)
qed

lemma getopt_long_name:
  assumes "(n, ha, code) \<in> set long_options"
  shows "getopt_long ((''--'' @ n) # args) =
      (case ha of no_argument \<Rightarrow> (code, []) # getopt_long args
       | required_argument \<Rightarrow> (case args of [] \<Rightarrow> [bad_option] | a # as \<Rightarrow> (code, a) # getopt_long as))"
    "getopt_long ((''--'' @ n @ ''='' @ v) # args) =
      (case ha of no_argument \<Rightarrow> bad_option | required_argument \<Rightarrow> (code, v)) # getopt_long args"
proof -
  note o = long_options_names [OF assms] long_match_full [OF assms]
  have t: "takeWhile (\<lambda>c. c \<noteq> CHR ''='') n = n" "dropWhile (\<lambda>c. c \<noteq> CHR ''='') n = []"
    "takeWhile (\<lambda>c. c \<noteq> CHR ''='') (n @ CHR ''='' # v) = n" "dropWhile (\<lambda>c. c \<noteq> CHR ''='') (n @ CHR ''='' # v) = CHR ''='' # v"
    using o(1) by (auto simp: takeWhile_append dropWhile_append)
  have e: "getopt_long_opt n args =
      (case ha of no_argument \<Rightarrow> ((code, []), args)
       | required_argument \<Rightarrow> (case args of [] \<Rightarrow> (bad_option, []) | a # as \<Rightarrow> ((code, a), as)))"
    "getopt_long_opt (n @ ''='' @ v) args =
      (case ha of no_argument \<Rightarrow> (bad_option, args) | required_argument \<Rightarrow> ((code, v), args))"
    unfolding getopt_long_opt_def append_Cons append_Nil t Let_def o(5) by (simp_all split: has_arg.split)
  have "n @ ''='' @ v \<noteq> []" by simp
  note d = getopt_long_dashes(1) [OF o(2)] getopt_long_dashes(1) [OF this]
  show "getopt_long ((''--'' @ n) # args) =
      (case ha of no_argument \<Rightarrow> (code, []) # getopt_long args
       | required_argument \<Rightarrow> (case args of [] \<Rightarrow> [bad_option] | a # as \<Rightarrow> (code, a) # getopt_long as))"
    unfolding d e by (simp split: has_arg.split list.split)
  show "getopt_long ((''--'' @ n @ ''='' @ v) # args) =
      (case ha of no_argument \<Rightarrow> bad_option | required_argument \<Rightarrow> (code, v)) # getopt_long args"
    unfolding d e by (simp split: has_arg.split)
qed

lemma getopt_long_char:
  "short_has_arg short_options c = Some no_argument \<Longrightarrow> c \<noteq> CHR ''-'' \<Longrightarrow> getopt_long ([CHR ''-'', c] # args) = (Ch c, []) # getopt_long args"
  "short_has_arg short_options c = Some required_argument \<Longrightarrow> c \<noteq> CHR ''-'' \<Longrightarrow>
     getopt_long ([CHR ''-'', c] # x # args) = (Ch c, x) # getopt_long args"
  "short_has_arg short_options c = None \<Longrightarrow> c \<noteq> CHR ''-'' \<Longrightarrow>
     getopt_long ([CHR ''-'', c] # args) = bad_option # getopt_long args"
  using getopt_long_dashes(2) [of c "[]"] by simp_all

text \<open>The entry of an option in the tables of the parser.\<close>

definition opt_entry :: "string \<Rightarrow> (has_arg \<times> getopt_code) option" where
  "opt_entry opt =
     (if prefix ''--'' opt then map_of long_options (drop 2 opt)
      else (case opt of [_, c] \<Rightarrow> map_option (\<lambda>ha. (ha, Ch c)) (short_has_arg short_options c) | _ \<Rightarrow> None))"

text \<open>What \<open>getopt_long\<close> returns first when an option with its entry comes first.\<close>

definition first_option :: "has_arg \<times> getopt_code \<Rightarrow> string list \<Rightarrow> (getopt_code \<times> string) list" where
  "first_option e args =
     (case e of (no_argument, code) \<Rightarrow> (code, []) # getopt_long args
      | (required_argument, code) \<Rightarrow> (case args of [] \<Rightarrow> [bad_option] | a # as \<Rightarrow> (code, a) # getopt_long as))"

definition dashed :: "string \<Rightarrow> bool" where
  "dashed opt \<longleftrightarrow> (\<exists>n. opt = ''--'' @ n) \<or> (\<exists>c. c \<noteq> CHR ''-'' \<and> opt = [CHR ''-'', c])"

lemma getopt_entry:
  assumes "opt_entry opt = Some e" "dashed opt"
  shows "getopt_long (opt # args) = first_option e args"
proof -
  obtain ha code where e: "e = (ha, code)" by (cases e)
  consider n where "opt = ''--'' @ n" | c where "c \<noteq> CHR ''-''" "opt = [CHR ''-'', c]"
    using assms(2) unfolding dashed_def by blast
  then show ?thesis
  proof cases
    case 1
    then have "(n, ha, code) \<in> set long_options" using assms(1) e by (auto simp: opt_entry_def dest: map_of_SomeD)
    then show ?thesis using getopt_long_name(1) [of n ha code args] 1 e by (simp add: first_option_def split: has_arg.split)
  next
    case 2
    then have s: "short_has_arg short_options c = Some ha" "code = Ch c" using assms(1) e by (auto simp: opt_entry_def)
    show ?thesis
    proof (cases ha)
      case no_argument
      then show ?thesis using getopt_long_char(1) [of c] s 2 e by (simp add: first_option_def)
    next
      case required_argument
      then show ?thesis
        using getopt_long_dashes(2) [OF 2(1), of "[]"] s 2 e by (simp add: first_option_def getopt_long.simps split: list.split)
    qed
  qed
qed

text \<open>What the usage text says of each option, by its name: the result when it ends the parsing, and the new
  configuration.\<close>

definition option_meaning ::
  "(string \<Rightarrow> string option) \<Rightarrow> config_line_t \<Rightarrow> string \<Rightarrow> string \<Rightarrow> goodbyedpi_config_t \<Rightarrow> int option \<times> goodbyedpi_config_t" where
  "option_meaning fs cl0 opt arg cfg =
     (if opt \<in> {''-h'', ''--help'', ''-V'', ''--version''} then (Some 1, cfg)
      else if opt \<in> {''-d'', ''--daemon''} then (None, cfg\<lparr>cfg_daemon_mode := True\<rparr>)
      else if opt \<in> {''-c'', ''--config''} then
        (case config_load_file fs cl0 (Some arg) (Some cfg) of (rc, cfg') \<Rightarrow>
           (if rc < 0 then Some (-1) else None, case cfg' of None \<Rightarrow> cfg | Some c \<Rightarrow> c))
      else if opt \<in> {''-p'', ''--pidfile''} then
        (if length arg < 256 then (None, cfg\<lparr>cfg_pid_file := field_copy 256 arg\<rparr>) else (Some (-1), cfg))
      else if opt \<in> {''-l'', ''--logfile''} then
        (if length arg < 256 then (None, cfg\<lparr>cfg_log_file := field_copy 256 arg\<rparr>) else (Some (-1), cfg))
      else if opt \<in> {''-v'', ''--verbose''} then (None, cfg\<lparr>cfg_verbose_mode := True\<rparr>)
      else if opt = ''--debug'' then (None, cfg\<lparr>cfg_debug_mode := True\<rparr>)
      else if opt = ''--syslog'' then (None, cfg\<lparr>cfg_systemd_mode := True\<rparr>)
      else if opt = ''--queue-num'' then
        (case num_option 0 arg of None \<Rightarrow> (Some (-1), cfg) | Some v \<Rightarrow> (None, cfg\<lparr>cfg_nfqueue_num := word_of_int v\<rparr>))
      else if opt = ''--fragment-http'' then
        (case num_option 1 arg of None \<Rightarrow> (Some (-1), cfg) | Some v \<Rightarrow> (None, cfg\<lparr>cfg_http_fragment_size := word_of_int v\<rparr>))
      else if opt = ''--fragment-https'' then
        (case num_option 1 arg of None \<Rightarrow> (Some (-1), cfg) | Some v \<Rightarrow> (None, cfg\<lparr>cfg_https_fragment_size := word_of_int v\<rparr>))
      else if opt = ''--native-frag'' then (None, cfg\<lparr>cfg_native_fragmentation := True\<rparr>)
      else if opt = ''--reverse-frag'' then (None, cfg\<lparr>cfg_reverse_fragmentation := True\<rparr>)
      else if opt = ''--host-mixedcase'' then (None, cfg\<lparr>cfg_host_mixedcase := True\<rparr>)
      else if opt = ''--additional-space'' then (None, cfg\<lparr>cfg_additional_space := True\<rparr>)
      else if opt = ''--host-removespace'' then (None, cfg\<lparr>cfg_host_removespace := True\<rparr>)
      else if opt = ''--dns-redirect-v4'' then
        (if length arg < 46 then (None, cfg\<lparr>cfg_dns_redirect_ipv4 := True, cfg_dns_server_v4 := field_copy 46 arg\<rparr>)
         else (Some (-1), cfg))
      else if opt = ''--dns-redirect-v6'' then
        (if length arg < 46 then (None, cfg\<lparr>cfg_dns_redirect_ipv6 := True, cfg_dns_server_v6 := field_copy 46 arg\<rparr>)
         else (Some (-1), cfg))
      else if opt = ''--dns-port'' then
        (case num_option 1 arg of None \<Rightarrow> (Some (-1), cfg)
         | Some v \<Rightarrow> (None, cfg\<lparr>cfg_dns_port_v6 := word_of_int v, cfg_dns_port_v4 := word_of_int v\<rparr>))
      else if opt = ''-1'' then (None, snd (config_apply_legacy_mode 1 cfg))
      else if opt = ''-2'' then (None, snd (config_apply_legacy_mode 2 cfg))
      else if opt = ''-5'' then (None, snd (config_apply_legacy_mode 5 cfg))
      else if opt = ''-6'' then (None, snd (config_apply_legacy_mode 6 cfg))
      else if opt = ''-7'' then (None, snd (config_apply_legacy_mode 7 cfg))
      else if opt = ''-9'' then (None, snd (config_apply_legacy_mode 9 cfg))
      else (Some (-1), cfg))"

definition option_args :: "has_arg \<Rightarrow> string \<Rightarrow> string list" where
  "option_args ha arg = (case ha of no_argument \<Rightarrow> [] | required_argument \<Rightarrow> [arg])"

lemma usage_entries:
  "map (\<lambda>(opt, ha). (opt, ha, opt_entry opt)) usage_options =
     [(''-h'', no_argument, Some (no_argument, Ch CHR ''h'')), (''--help'', no_argument, Some (no_argument, Ch CHR ''h'')),
      (''-V'', no_argument, Some (no_argument, Ch CHR ''V'')), (''--version'', no_argument, Some (no_argument, Ch CHR ''V'')),
      (''-d'', no_argument, Some (no_argument, Ch CHR ''d'')), (''--daemon'', no_argument, Some (no_argument, Ch CHR ''d'')),
      (''-c'', required_argument, Some (required_argument, Ch CHR ''c'')), (''--config'', required_argument, Some (required_argument, Ch CHR ''c'')),
      (''-p'', required_argument, Some (required_argument, Ch CHR ''p'')), (''--pidfile'', required_argument, Some (required_argument, Ch CHR ''p'')),
      (''-l'', required_argument, Some (required_argument, Ch CHR ''l'')), (''--logfile'', required_argument, Some (required_argument, Ch CHR ''l'')),
      (''-v'', no_argument, Some (no_argument, Ch CHR ''v'')), (''--verbose'', no_argument, Some (no_argument, Ch CHR ''v'')),
      (''--debug'', no_argument, Some (no_argument, Long 1000)), (''--syslog'', no_argument, Some (no_argument, Long 1001)),
      (''--queue-num'', required_argument, Some (required_argument, Long 1012)), (''-f'', required_argument, None),
      (''--fragment-http'', required_argument, Some (required_argument, Long 1002)), (''-e'', required_argument, None),
      (''--fragment-https'', required_argument, Some (required_argument, Long 1003)),
      (''--native-frag'', no_argument, Some (no_argument, Long 1004)), (''--reverse-frag'', no_argument, Some (no_argument, Long 1005)),
      (''--host-mixedcase'', no_argument, Some (no_argument, Long 1006)), (''--additional-space'', no_argument, Some (no_argument, Long 1007)),
      (''--host-removespace'', no_argument, Some (no_argument, Long 1008)),
      (''--dns-redirect-v4'', required_argument, Some (required_argument, Long 1009)),
      (''--dns-redirect-v6'', required_argument, Some (required_argument, Long 1010)),
      (''--dns-port'', required_argument, Some (required_argument, Long 1011)),
      (''-1'', no_argument, Some (no_argument, Ch CHR ''1'')), (''-2'', no_argument, Some (no_argument, Ch CHR ''2'')),
      (''-5'', no_argument, Some (no_argument, Ch CHR ''5'')), (''-6'', no_argument, Some (no_argument, Ch CHR ''6'')),
      (''-7'', no_argument, Some (no_argument, Ch CHR ''7'')), (''-9'', no_argument, Some (no_argument, Ch CHR ''9''))]"
  unfolding usage_options_eq by code_simp

definition entry_ok :: "(string \<Rightarrow> string option) \<Rightarrow> config_line_t \<Rightarrow> string \<Rightarrow> has_arg \<Rightarrow> (has_arg \<times> getopt_code) option \<Rightarrow> bool" where
  "entry_ok fs cl0 opt ha e \<longleftrightarrow> dashed opt \<and>
     (case e of None \<Rightarrow> opt \<in> {''-f'', ''-e''}
      | Some (ha', code) \<Rightarrow> ha' = ha \<and>
          (\<forall>arg cfg. parse_option fs cl0 code arg cfg = option_meaning fs cl0 opt arg cfg) \<and>
          (ha = no_argument \<longrightarrow> (\<forall>arg cfg. parse_option fs cl0 code arg cfg = parse_option fs cl0 code [] cfg)))"

lemma usage_entry_ok:
  assumes "(opt, ha) \<in> set usage_options"
  shows "entry_ok fs cl0 opt ha (opt_entry opt)"
proof -
  have d: "dashed (CHR ''-'' # CHR ''-'' # n)" "c \<noteq> CHR ''-'' \<Longrightarrow> dashed [CHR ''-'', c]" for n c
    by (auto simp: dashed_def)
  have "list_all (\<lambda>(opt, ha, e). entry_ok fs cl0 opt ha e) (map (\<lambda>(opt, ha). (opt, ha, opt_entry opt)) usage_options)"
    unfolding usage_entries
    by (simp add: entry_ok_def d parse_option_def parse_long_option_def option_meaning_def not_le Let_def
        split: prod.split option.split)
  then show ?thesis using assms by (auto simp: list_all_iff)
qed

text \<open>The options on one line of the text.\<close>

lemma usage_lines:
  "filter (\<lambda>os. 1 < length os) (map (\<lambda>line. map fst (documented line)) (print_usage ''goodbyedpi'')) =
     [[''-h'', ''--help''], [''-V'', ''--version''], [''-d'', ''--daemon''], [''-c'', ''--config''], [''-p'', ''--pidfile''],
      [''-l'', ''--logfile''], [''-v'', ''--verbose''], [''-f'', ''--fragment-http''], [''-e'', ''--fragment-https'']]"
  by code_simp

lemma usage_line_entries:
  assumes "line \<in> set (print_usage ''goodbyedpi'')" "{opt, opt'} \<subseteq> fst ` set (documented line)" "{opt, opt'} \<inter> {''-f'', ''-e''} = {}"
  shows "opt_entry opt = opt_entry opt'"
proof (cases "opt = opt'")
  case False
  let ?os = "map fst (documented line)"
  have o: "opt \<in> set ?os" "opt' \<in> set ?os" using assms(2) by simp_all
  have "1 < length ?os"
  proof (rule ccontr)
    assume "\<not> 1 < length ?os"
    then have "length ?os = 0 \<or> length ?os = 1" by linarith
    then show False using o False by (auto simp: length_Suc_conv)
  qed
  then have "?os \<in> set (filter (\<lambda>os. 1 < length os) (map (\<lambda>line. map fst (documented line)) (print_usage ''goodbyedpi'')))"
    using assms(1) by auto
  then have os: "?os \<in> set [[''-h'', ''--help''], [''-V'', ''--version''], [''-d'', ''--daemon''], [''-c'', ''--config''],
      [''-p'', ''--pidfile''], [''-l'', ''--logfile''], [''-v'', ''--verbose''], [''-f'', ''--fragment-http''], [''-e'', ''--fragment-https'']]"
    unfolding usage_lines .
  have e: "opt_entry ''-h'' = opt_entry ''--help''" "opt_entry ''-V'' = opt_entry ''--version''" "opt_entry ''-d'' = opt_entry ''--daemon''"
    "opt_entry ''-c'' = opt_entry ''--config''" "opt_entry ''-p'' = opt_entry ''--pidfile''" "opt_entry ''-l'' = opt_entry ''--logfile''"
    "opt_entry ''-v'' = opt_entry ''--verbose''" by code_simp+
  have pair: "opt_entry opt = opt_entry opt'" if "?os = [a, b]" "opt_entry a = opt_entry b" for a b
    using o that by auto
  have "a \<notin> {''-f'', ''-e''}" if "?os = [a, b]" for a b using o that False assms(3) by auto
  then show ?thesis using os e pair by auto
qed simp

lemma short_has_arg_Cons:
  "short_has_arg (d # ds) c \<noteq> None \<longleftrightarrow> d = c \<and> c \<noteq> CHR '':'' \<or> short_has_arg ds c \<noteq> None"
  by (simp only: short_has_arg.simps option.distinct(2) not_False_eq_True split: if_split) blast

lemma short_has_arg_mem: "short_has_arg os c \<noteq> None \<Longrightarrow> c \<noteq> CHR '':'' \<and> c \<in> set os"
  by (induction os) (simp_all only: short_has_arg_Cons short_has_arg.simps(1) list.set insert_iff, blast+)

lemma short_options_accepted:
  assumes "short_has_arg short_options c \<noteq> None"
  shows "c \<in> set ''hVdcplv123456789''"
proof -
  have c: "c \<noteq> CHR '':''" "c \<in> set short_options" using short_has_arg_mem [OF assms] by simp_all
  have "list_all (\<lambda>c. c = CHR '':'' \<or> c \<in> set ''hVdcplv123456789'') short_options" by code_simp
  then show ?thesis using c unfolding list_all_iff by blast
qed

lemma usage_line_same:
  assumes "line \<in> set (print_usage ''goodbyedpi'')" "opt \<in> fst ` set (documented line) - {''-f'', ''-e''}"
    "opt' \<in> fst ` set (documented line) - {''-f'', ''-e''}"
  shows "getopt_long (opt # args) = getopt_long (opt' # args)"
proof -
  obtain ha ha' where u: "(opt, ha) \<in> set usage_options" "(opt', ha') \<in> set usage_options"
  proof -
    obtain ha ha' where "(opt, ha) \<in> set (documented line)" "(opt', ha') \<in> set (documented line)"
      using DiffD1 [OF assms(2)] DiffD1 [OF assms(3)] by force
    then have "(opt, ha) \<in> set usage_options" "(opt', ha') \<in> set usage_options"
      using assms(1) unfolding usage_options_def set_concat set_map by blast+
    then show ?thesis using that by blast
  qed
  have "opt_entry opt = opt_entry opt'" by (rule usage_line_entries [OF assms(1)]) (use assms(2,3) in blast)+
  moreover obtain e where "opt_entry opt = Some e" "dashed opt" "dashed opt'"
    using usage_entry_ok [OF u(1)] usage_entry_ok [OF u(2)] assms(2)
    by (cases "opt_entry opt") (auto simp: entry_ok_def)
  ultimately show ?thesis using getopt_entry by metis
qed

lemma usage_option_effect:
  assumes "(opt, ha) \<in> set usage_options"
  shows "parse_argv fs cl0 (opt # option_args ha arg @ args) cfg =
      (if opt \<in> {''-f'', ''-e''} then (-1, cfg)
       else (case option_meaning fs cl0 opt arg cfg of (Some rc, cfg') \<Rightarrow> (rc, cfg') | (None, cfg') \<Rightarrow> parse_argv fs cl0 args cfg'))"
proof (cases "opt_entry opt")
  case None
  then have fe: "opt \<in> {''-f'', ''-e''}" using usage_entry_ok [OF assms, of fs cl0] by (simp add: entry_ok_def)
  have "short_has_arg short_options CHR ''f'' = None" "short_has_arg short_options CHR ''e'' = None" by code_simp+
  then have "getopt_long (opt # as) = bad_option # getopt_long as" for as using fe getopt_long_char(3) by auto
  then show ?thesis using fe by (simp add: parse_argv_def bad_option_def parse_option_def parse_long_option_def)
next
  case (Some e)
  obtain code where e: "e = (ha, code)" "dashed opt"
    "parse_option fs cl0 code arg cfg = option_meaning fs cl0 opt arg cfg" for arg cfg
    using usage_entry_ok [OF assms, of fs cl0] Some by (cases e) (auto simp: entry_ok_def)
  have "opt \<notin> {''-f'', ''-e''}"
  proof
    assume "opt \<in> {''-f'', ''-e''}"
    moreover have "opt_entry ''-f'' = None" "opt_entry ''-e'' = None" by code_simp+
    ultimately show False using Some by auto
  qed
  moreover have "parse_option fs cl0 code [] cfg = parse_option fs cl0 code arg cfg" if "ha = no_argument"
    proof -
    have "\<forall>arg cfg. parse_option fs cl0 code arg cfg = parse_option fs cl0 code [] cfg"
      using usage_entry_ok [OF assms, of fs cl0] Some e(1) that unfolding entry_ok_def by fastforce
    then show ?thesis by metis
  qed
  ultimately show ?thesis
    using getopt_entry [OF Some e(2)] e(1,3)
    by (cases ha; cases "option_meaning fs cl0 opt arg cfg")
      (auto simp: parse_argv_def first_option_def option_args_def split: option.split)
qed

lemma undocumented_short:
  "{c. short_has_arg short_options c \<noteq> None \<and> [CHR ''-'', c] \<notin> fst ` set usage_options} = set ''348''"
proof -
  have "list_all (\<lambda>c. [CHR ''-'', c] \<notin> fst ` set usage_options \<longleftrightarrow> c \<in> set ''348'') ''hVdcplv123456789''"
    "list_all (\<lambda>c. short_has_arg short_options c \<noteq> None) ''348''"
    unfolding usage_options_eq by code_simp+
  then show ?thesis using short_options_accepted unfolding list_all_iff by auto
qed

text \<open>The option string has three modes more, which the switch ignores.\<close>

lemma undocumented_modes:
  assumes "c \<in> set ''348''"
  shows "parse_argv fs cl0 ([CHR ''-'', c] # args) cfg = parse_argv fs cl0 args cfg \<and>
    [CHR ''-'', c] \<notin> fst ` set usage_options"
proof
  have c: "c = CHR ''3'' \<or> c = CHR ''4'' \<or> c = CHR ''8''" using assms by simp
  have "short_has_arg short_options CHR ''3'' = Some no_argument" "short_has_arg short_options CHR ''4'' = Some no_argument"
    "short_has_arg short_options CHR ''8'' = Some no_argument" by code_simp+
  then have g: "getopt_long ([CHR ''-'', c] # args) = (Ch c, []) # getopt_long args"
    by (intro getopt_long_char(1)) (use c in auto)
  have "parse_option fs cl0 (Ch c) [] cfg = (None, cfg)"
    using c by (elim disjE) (simp_all add: parse_option_def parse_long_option_def)
  then show "parse_argv fs cl0 ([CHR ''-'', c] # args) cfg = parse_argv fs cl0 args cfg" by (simp add: parse_argv_def g)
  have "list_all (\<lambda>(opt, ha). opt \<notin> {''-3'', ''-4'', ''-8''}) usage_options" unfolding usage_options_eq by code_simp
  then have "[CHR ''-'', c] \<noteq> fst p" if "p \<in> set usage_options" for p
    using that c by (cases p) (auto simp: list_all_iff)
  then show "[CHR ''-'', c] \<notin> fst ` set usage_options" by auto
qed

section \<open>Property\<close>

text \<open>
  C29. The usage text against the parser.  Every option that the text shows, with an argument exactly when the text shows one,
  is recognised and does what its name says (\<open>option_meaning\<close>), the rest of the command line being parsed after it, unless it is
  \<open>-f\<close> or \<open>-e\<close>; these two, which the text offers for the fragment sizes, make \<open>parse_arguments\<close> fail, so that the program does
  not start.  The short and the long form on one line are the same option.  In the other direction, every long option of the
  parser is in the text, and its argument may follow as the next word or behind an equals sign; the short options that the parser
  accepts and the text does not show are exactly \<open>-3\<close>, \<open>-4\<close> and \<open>-8\<close>, and these have no effect.
\<close>

theorem usage_documents_options:
  "(\<forall>(opt, ha) \<in> set usage_options. parse_argv fs cl0 (opt # option_args ha arg @ args) cfg =
      (if opt \<in> {''-f'', ''-e''} then (-1, cfg)
       else (case option_meaning fs cl0 opt arg cfg of (Some rc, cfg') \<Rightarrow> (rc, cfg') | (None, cfg') \<Rightarrow> parse_argv fs cl0 args cfg'))) \<and>
   {''-f'', ''-e''} \<subseteq> fst ` set usage_options \<and>
   (\<forall>line \<in> set (print_usage ''goodbyedpi''). \<forall>opt \<in> fst ` set (documented line) - {''-f'', ''-e''}.
      \<forall>opt' \<in> fst ` set (documented line) - {''-f'', ''-e''}. getopt_long (opt # args) = getopt_long (opt' # args)) \<and>
   (\<forall>(n, ha, code) \<in> set long_options. (''--'' @ n, ha) \<in> set usage_options \<and>
      (ha = required_argument \<longrightarrow> getopt_long ((''--'' @ n @ ''='' @ arg) # args) = getopt_long ((''--'' @ n) # arg # args))) \<and>
   {c. short_has_arg short_options c \<noteq> None \<and> [CHR ''-'', c] \<notin> fst ` set usage_options} = set ''348'' \<and>
   (\<forall>c \<in> set ''348''. parse_argv fs cl0 ([CHR ''-'', c] # args) cfg = parse_argv fs cl0 args cfg)"
proof (intro conjI)
  show "\<forall>line \<in> set (print_usage ''goodbyedpi''). \<forall>opt \<in> fst ` set (documented line) - {''-f'', ''-e''}.
      \<forall>opt' \<in> fst ` set (documented line) - {''-f'', ''-e''}. getopt_long (opt # args) = getopt_long (opt' # args)"
    using usage_line_same by blast
  show "\<forall>(n, ha, code) \<in> set long_options. (''--'' @ n, ha) \<in> set usage_options \<and>
      (ha = required_argument \<longrightarrow> getopt_long ((''--'' @ n @ ''='' @ arg) # args) = getopt_long ((''--'' @ n) # arg # args))"
    using long_options_names(4) getopt_long_name by fastforce
  show "\<forall>c \<in> set ''348''. parse_argv fs cl0 ([CHR ''-'', c] # args) cfg = parse_argv fs cl0 args cfg"
    using undocumented_modes by blast
  show "{c. short_has_arg short_options c \<noteq> None \<and> [CHR ''-'', c] \<notin> fst ` set usage_options} = set ''348''"
    by (rule undocumented_short)
  show "{''-f'', ''-e''} \<subseteq> fst ` set usage_options" by (simp add: usage_options_eq)
qed (use usage_option_effect in fast)

theorem usage_documents_options_witness:
  "getopt_long [''--fragment-http=800'', ''-9''] = getopt_long [''--fragment-http'', ''800'', ''-9''] \<and>
   parse_argv (\<lambda>f. None) \<lparr>cl_key = [], cl_value = []\<rparr> [''--fragment-http'', ''800'', ''-3''] config_defaults =
     (0, config_defaults\<lparr>cfg_http_fragment_size := 800\<rparr>) \<and>
   parse_argv (\<lambda>f. None) \<lparr>cl_key = [], cl_value = []\<rparr> [''-f'', ''800''] config_defaults = (-1, config_defaults)"
proof -
  let ?cl = "\<lparr>cl_key = [], cl_value = []\<rparr>"
  have l: "(''fragment-http'', required_argument, Long 1002) \<in> set long_options" by (simp add: long_options_def)
  have u: "(''--fragment-http'', required_argument) \<in> set usage_options" "(''-f'', required_argument) \<in> set usage_options"
    by (simp_all add: usage_options_eq)
  have n: "num_option 1 ''800'' = Some 800" by code_simp
  have m: "option_meaning (\<lambda>f. None) ?cl ''--fragment-http'' ''800'' config_defaults =
      (None, config_defaults\<lparr>cfg_http_fragment_size := 800\<rparr>)"
    by (simp add: option_meaning_def n)
  have e: "parse_argv (\<lambda>f. None) ?cl [] c = (0, c)" for c by (simp add: parse_argv_def)
  note t = usage_documents_options [of "\<lambda>f. None" ?cl "''800''" _ config_defaults]
  have "getopt_long [''--fragment-http=800'', ''-9''] = getopt_long [''--fragment-http'', ''800'', ''-9'']"
    using t [of "[''-9'']"] l by fastforce
  moreover have "parse_argv (\<lambda>f. None) ?cl [''--fragment-http'', ''800'', ''-3''] config_defaults =
      parse_argv (\<lambda>f. None) ?cl [''-3''] (config_defaults\<lparr>cfg_http_fragment_size := 800\<rparr>)"
    using t [of "[''-3'']"] u(1) m by (fastforce simp: option_args_def)
  moreover have "parse_argv (\<lambda>f. None) ?cl [''-3''] c = (0, c)" for c
    using usage_documents_options [of "\<lambda>f. None" ?cl "[]" "[]" c] e by simp
  moreover have "parse_argv (\<lambda>f. None) ?cl [''-f'', ''800''] config_defaults = (-1, config_defaults)"
    using t [of "[]"] u(2) by (fastforce simp: option_args_def)
  ultimately show ?thesis by simp
qed

end
