(* ===== verification/MainLoop.thy ===== *)
theory MainLoop
  imports Callback Firewall Reports CommandLine
begin

text \<open>
  \<open>src/main.c\<close>, \<open>main\<close>: start-up with its failure paths, the packet loop with signals interleaved, and the
  shut-down.  \<open>main\<close> is cut at the loop: \<open>main_start\<close> ends with the program running or having exited,
  \<open>main_step\<close> is one turn of the loop or one signal, \<open>main_run\<close> a sequence of them with what was received, \<open>main_shutdown\<close> what
  follows the loop.  Of the log
  calls those of \<open>main\<close> itself and the reports it calls are kept, since the last of them runs after \<open>logging_cleanup\<close>.
\<close>

section \<open>State and environment\<close>

record 'w gdpi =
  g_app :: app_state
  g_log :: logging_config_t
  g_proc :: process
  g_fw :: 'w
  g_config :: goodbyedpi_config_t

record ('w, 'nfa) main_env =
  me_euid :: int
  me_argv :: "string list"
  me_fs :: "string \<Rightarrow> string option"
  me_cl0 :: config_line_t
  me_log_open :: bool
  me_sigaction :: "int \<Rightarrow> bool"
  me_pid_open :: bool
  me_unlink :: bool  \<comment> \<open>the PID file can be unlinked\<close>
  me_fork :: fork_result
  me_setsid :: bool
  me_null_open :: bool
  me_system :: "string \<Rightarrow> 'w \<Rightarrow> sys_result \<times> 'w"
  me_nfq :: nfq_open_env
  me_api :: "'nfa nfq_api"
  me_parse_malloc :: malloc_env
  me_malloc :: "size_t \<Rightarrow> bool"
  me_send :: "int \<Rightarrow> nat \<Rightarrow> int"

datatype 'w main_result = Exit int "'w gdpi" | ParentExit | Running "'w gdpi"

definition EXIT_SUCCESS :: int where "EXIT_SUCCESS = 0"
definition EXIT_FAILURE :: int where "EXIT_FAILURE = 1"

definition say :: "(string \<Rightarrow> logging_config_t \<Rightarrow> logging_config_t cres) \<Rightarrow> string \<Rightarrow> 'w gdpi \<Rightarrow> 'w gdpi cres" where
  "say f msg g = bindC (f msg (g_log g)) (\<lambda>l. Inr (g\<lparr>g_log := l\<rparr>))"

definition say_all :: "string list \<Rightarrow> 'w gdpi \<Rightarrow> 'w gdpi cres" where
  "say_all msgs g = bindC (log_infos msgs (g_log g)) (\<lambda>l. Inr (g\<lparr>g_log := l\<rparr>))"

section \<open>Start-up\<close>

definition log_level_of :: "goodbyedpi_config_t \<Rightarrow> int" where
  "log_level_of config =
     (if cfg_debug_mode config then LOG_LEVEL_DEBUG
      else if cfg_verbose_mode config then LOG_LEVEL_INFO else LOG_LEVEL_NOTICE)"

text \<open>From \<open>setup_firewall_rules\<close> to the loop; \<open>drop_pid\<close> is \<open>remove_pid_file (config.pid_file)\<close>.\<close>

definition drop_pid :: "('w, 'nfa) main_env \<Rightarrow> 'w gdpi \<Rightarrow> 'w gdpi" where
  "drop_pid env g = g\<lparr>g_proc := snd (remove_pid_file (me_unlink env) (cfg_pid_file (g_config g)) (g_proc g))\<rparr>"

definition main_queue :: "('w, 'nfa) main_env \<Rightarrow> 'w gdpi \<Rightarrow> 'w main_result cres" where
  "main_queue env g =
     (case setup_firewall_rules (me_system env) (g_fw g) of (rc3, w3) \<Rightarrow>
        let g3 = g\<lparr>g_fw := w3\<rparr> in
        if rc3 < 0
        then bindC (say log_error ''Failed to setup firewall rules'' g3) (\<lambda>g. Inr (Exit EXIT_FAILURE (drop_pid env g)))
        else (case netfilter_init (me_nfq env) (cfg_nfqueue_num (g_config g3)) (ap_nf (g_app g3)) of (rc4, n4) \<Rightarrow>
          let g4 = g3\<lparr>g_app := (g_app g3)\<lparr>ap_nf := n4\<rparr>\<rparr> in
          if rc4 < 0
          then bindC (say log_error ''Failed to initialize netfilter queue'' g4) (\<lambda>g.
                 Inr (Exit EXIT_FAILURE
                   (drop_pid env (g\<lparr>g_fw := snd (cleanup_firewall_rules (me_system env) (g_fw g))\<rparr>))))
          else bindC (say log_info ''GoodbyeDPI started successfully'' g4) (\<lambda>g.
               bindC (say log_info (''Queue number: '' @ dec_word (cfg_nfqueue_num (g_config g))) g) (\<lambda>g.
               bindC (say log_info ''Main loop started - processing packets'' g) (\<lambda>g. Inr (Running g))))))"

text \<open>From \<open>create_pid_file\<close> on.\<close>

definition daemon_step :: "('w, 'nfa) main_env \<Rightarrow> 'w gdpi \<Rightarrow> (int \<times> process) option" where
  "daemon_step env g =
     (if cfg_daemon_mode (g_config g) then daemonize (me_fork env) (me_setsid env) (me_null_open env) (g_proc g)
      else Some (0, g_proc g))"

definition main_resources :: "('w, 'nfa) main_env \<Rightarrow> 'w gdpi \<Rightarrow> 'w main_result cres" where
  "main_resources env g =
     (case create_pid_file (me_pid_open env) (cfg_pid_file (g_config g)) (g_proc g) of (rc1, p1) \<Rightarrow>
        let g1 = g\<lparr>g_proc := p1\<rparr> in
        if rc1 < 0 then bindC (say log_error ''Failed to create PID file'' g1) (\<lambda>g. Inr (Exit EXIT_FAILURE g))
        else (case daemon_step env g1 of
            None \<Rightarrow> Inr ParentExit
          | Some (rc2, p2) \<Rightarrow>
              let g2 = g1\<lparr>g_proc := p2\<rparr> in
              if rc2 < 0
              then bindC (say log_error ''Failed to daemonize'' g2) (\<lambda>g. Inr (Exit EXIT_FAILURE (drop_pid env g)))
              else main_queue env g2))"

text \<open>From \<open>logging_init\<close> on, with the configuration in place.\<close>

definition main_configured :: "('w, 'nfa) main_env \<Rightarrow> 'w gdpi \<Rightarrow> 'w main_result cres" where
  "main_configured env g =
     (let cfg = g_config g in
      bindC (logging_init (me_log_open env) (log_level_of cfg) (cfg_systemd_mode cfg)
               (if cfg_log_file cfg \<noteq> [] then Some (cfg_log_file cfg) else None) (g_log g)) (\<lambda>(lrc, lg).
        let g2 = g\<lparr>g_log := lg\<rparr> in
        if lrc < 0 then Inr (Exit EXIT_FAILURE g2)
        else (case install_signal_handlers (me_sigaction env) (g_proc g2) of (src, p) \<Rightarrow>
          let g3 = g2\<lparr>g_proc := p\<rparr> in
          if src < 0
          then bindC (say log_error ''Failed to install signal handlers'' g3) (\<lambda>g. Inr (Exit EXIT_FAILURE g))
          else main_resources env g3)))"

definition main_start :: "('w, 'nfa) main_env \<Rightarrow> 'w gdpi \<Rightarrow> 'w main_result cres" where
  "main_start env g =
     (if me_euid env \<noteq> 0 then Inr (Exit EXIT_FAILURE g)
      else (case config_load_defaults (g_config g) of
          (rc0, c0) \<Rightarrow>
        if rc0 < 0 then Inr (Exit EXIT_FAILURE g)
        else bindC (deref c0) (\<lambda>cfg0.
          case parse_argv (me_fs env) (me_cl0 env) (me_argv env) cfg0 of (result, cfg) \<Rightarrow>
          let g1 = g\<lparr>g_config := cfg\<rparr> in
          if 0 < result then Inr (Exit EXIT_SUCCESS g1)
          else if result < 0 then Inr (Exit EXIT_FAILURE g1)
          else if config_validate (Some cfg) < 0 then Inr (Exit EXIT_FAILURE g1)
          else bindC (if cfg_verbose_mode cfg then config_print cfg (g_log g1) else Inr (g_log g1)) (\<lambda>l.
                 main_configured env (g1\<lparr>g_log := l\<rparr>)))))"

section \<open>The loop\<close>

definition cb_env_of :: "('w, 'nfa) main_env \<Rightarrow> goodbyedpi_config_t \<Rightarrow> 'nfa cb_env" where
  "cb_env_of env cfg = \<lparr>ce_api = me_api env, ce_parse_malloc = me_parse_malloc env,
     ce_malloc = me_malloc env, ce_send = me_send env, ce_config = cfg\<rparr>"

text \<open>\<open>netfilter_callback\<close> with \<open>packet_process_callback\<close> stored as \<open>g_packet_callback\<close>.\<close>

definition queue_callback :: "('w, 'nfa) main_env \<Rightarrow> goodbyedpi_config_t \<Rightarrow> 'nfa \<Rightarrow> app_state \<Rightarrow> (int \<times> app_state) cres" where
  "queue_callback env cfg nfa s =
     netfilter_callback (me_api env) ap_nf (\<lambda>n s. s\<lparr>ap_nf := n\<rparr>)
       (if nf_callback_set (ap_nf s) then Some (packet_process_callback (cb_env_of env cfg)) else None) nfa s"

definition STATS_REPORT_INTERVAL :: u64 where "STATS_REPORT_INTERVAL = 1000"

definition main_iteration :: "('w, 'nfa) main_env \<Rightarrow> 'nfa recv_outcome \<Rightarrow> 'w gdpi \<Rightarrow> 'w gdpi cres" where
  "main_iteration env r g =
     bindC (netfilter_receive_packet ap_nf (\<lambda>n s. s\<lparr>ap_nf := n\<rparr>) (queue_callback env (g_config g)) r (g_app g))
       (\<lambda>(rc, a).
         let g1 = g\<lparr>g_app := a\<rparr> in
         if rc < 0 then say log_error ''Error receiving packet'' g1
         else if packets_processed a mod STATS_REPORT_INTERVAL = 0 \<and> cfg_verbose_mode (g_config g1)
         then say (\<lambda>_. log_packet_stats (packets_processed a) (packets_modified a) (bytes_processed a)) [] g1
         else Inr g1)"

text \<open>A signal that arrives: its handler logs and may clear \<open>running\<close>.\<close>

definition deliver_signal :: "int \<Rightarrow> 'w gdpi \<Rightarrow> 'w gdpi cres" where
  "deliver_signal sig g =
     (if sig \<in> {SIGINT, SIGTERM}
      then bindC (say log_info ''Received signal, shutting down gracefully'' g) (\<lambda>g1.
             Inr (g1\<lparr>g_proc := signal_handler sig (g_proc g1)\<rparr>))
      else Inr (g\<lparr>g_proc := signal_handler sig (g_proc g)\<rparr>))"

text \<open>An event of the loop: a turn with what \<open>recv\<close> gave, or a signal, which reaches its handler only if one is installed.\<close>

datatype 'nfa main_event = Turn "'nfa recv_outcome" | Signal int

inductive main_step :: "('w, 'nfa) main_env \<Rightarrow> 'nfa main_event \<Rightarrow> 'w gdpi \<Rightarrow> 'w gdpi \<Rightarrow> bool" for env where
  turn: "is_running (g_proc g) \<Longrightarrow> main_iteration env r g = Inr g' \<Longrightarrow> main_step env (Turn r) g g'"
| signal: "sig \<in> pr_handlers (g_proc g) \<Longrightarrow> deliver_signal sig g = Inr g' \<Longrightarrow> main_step env (Signal sig) g g'"

inductive_cases main_stepE: "main_step env e g g'"

inductive main_run :: "('w, 'nfa) main_env \<Rightarrow> 'w gdpi \<Rightarrow> 'nfa main_event list \<Rightarrow> 'w gdpi \<Rightarrow> bool" for env and g where
  start: "main_run env g [] g"
| step: "main_run env g es g' \<Longrightarrow> main_step env e g' g'' \<Longrightarrow> main_run env g (es @ [e]) g''"

text \<open>The messages received in a run, in order.\<close>

definition event_messages :: "'nfa main_event \<Rightarrow> 'nfa list" where
  "event_messages e = (case e of Turn (RecvData len msgs rc) \<Rightarrow> msgs | _ \<Rightarrow> [])"

definition messages :: "'nfa main_event list \<Rightarrow> 'nfa list" where
  "messages es = concat (map event_messages es)"

lemma messages_simps [simp]: "messages [] = []" "messages (es @ [e]) = messages es @ event_messages e"
  by (simp_all add: messages_def)

section \<open>Shut-down\<close>

definition shutdown_lines :: "app_state \<Rightarrow> string list" where
  "shutdown_lines a =
     [''Main loop ended'',
      ''Final statistics:'',
      ''  Packets processed: '' @ dec_word (packets_processed a),
      ''  Packets modified:  '' @ dec_word (packets_modified a),
      ''  Bytes processed:   '' @ dec_word (bytes_processed a)]"

definition main_shutdown :: "('w, 'nfa) main_env \<Rightarrow> 'w gdpi \<Rightarrow> (int \<times> 'w gdpi) cres" where
  "main_shutdown env g =
     bindC (say_all (shutdown_lines (g_app g)) g) (\<lambda>g.
       let g1 = g\<lparr>g_app := (g_app g)\<lparr>ap_nf := snd (netfilter_cleanup (ap_nf (g_app g)))\<rparr>\<rparr>;
           g2 = g1\<lparr>g_fw := snd (cleanup_firewall_rules (me_system env) (g_fw g1))\<rparr>;
           g3 = g2\<lparr>g_proc := snd (remove_pid_file (me_unlink env) (cfg_pid_file (g_config g2)) (g_proc g2))\<rparr>;
           g4 = g3\<lparr>g_log := logging_cleanup (g_log g3)\<rparr>
       in bindC (say log_info ''GoodbyeDPI stopped successfully'' g4) (\<lambda>g. Inr (EXIT_SUCCESS, g)))"

section \<open>Logging never fails while the stream is open\<close>

definition with_out :: "'w gdpi \<Rightarrow> (log_sink \<times> int \<times> string) list \<Rightarrow> 'w gdpi" where
  "with_out g out = g\<lparr>g_log := (g_log g)\<lparr>lg_out := out\<rparr>\<rparr>"

lemma with_out_simps [simp]:
  "g_app (with_out g out) = g_app g" "g_proc (with_out g out) = g_proc g" "g_fw (with_out g out) = g_fw g"
  "g_config (with_out g out) = g_config g" "g_log (with_out g out) = (g_log g)\<lparr>lg_out := out\<rparr>"
  "with_out (with_out g out) out' = with_out g out'"
  by (simp_all add: with_out_def)

lemma log_message_extends:
  "log_ready lg \<Longrightarrow> log_message p m lg =
     Inr (lg\<lparr>lg_out := lg_out lg @ (if p \<le> lg_level lg then [(log_target lg, p, m)] else [])\<rparr>)"
  by (simp add: log_message_ready)

lemma say_eq:
  assumes "log_ready (g_log g)"
  shows "\<exists>out. say log_info m g = Inr (with_out g out)" and "\<exists>out. say log_error m g = Inr (with_out g out)"
  unfolding say_def log_info_def log_error_def log_message_extends [OF assms] bindC_simps with_out_def by blast+

lemma retC_say:
  assumes "log_ready (g_log g)" and "\<And>out. P (with_out g out)"
  shows "retC (say log_info m g) P" and "retC (say log_error m g) P"
  using say_eq [OF assms(1), of m] assms(2) by auto

lemma okC_say:
  assumes "log_ready (g_log g)" and "\<And>out. P (with_out g out)"
  shows "okC (say log_info m g) P" and "okC (say log_error m g) P"
  using say_eq [OF assms(1), of m] assms(2) by auto

lemma say_all_eq:
  assumes "log_ready (g_log g)"
  shows "\<exists>out. say_all ms g = Inr (with_out g out)"
  unfolding say_all_def with_out_def log_infos_ready [OF assms] bindC_simps by blast

lemma say_stats: "say (\<lambda>_. log_packet_stats p m b) x g = say log_info (packet_stats_text p m b) g"
  by (simp add: say_def log_packet_stats_def)

lemmas say_intros = retC_say okC_say

section \<open>Shut-down\<close>

text \<open>A message after \<open>logging_cleanup\<close> finds no stream.\<close>

definition late_log_faults :: "logging_config_t \<Rightarrow> bool" where
  "late_log_faults lg \<longleftrightarrow> 6 \<le> lg_level lg \<and> \<not> lg_use_syslog lg \<and> lg_use_file lg"

lemma say_after_cleanup:
  "late_log_faults (g_log g) \<Longrightarrow> say log_info m (g\<lparr>g_log := logging_cleanup (g_log g)\<rparr>) = Inl NullDeref"
  by (auto simp: say_def log_info_def log_message_def logging_cleanup_def late_log_faults_def LOG_LEVEL_INFO_def)

lemma say_after_cleanup_ok:
  assumes "\<not> late_log_faults (g_log g)"
  shows "\<exists>l. say log_info m (g\<lparr>g_log := logging_cleanup (g_log g)\<rparr>) = Inr (g\<lparr>g_log := l\<rparr>)"
proof -
  have "\<exists>l. log_info m (logging_cleanup (g_log g)) = Inr l"
    using assms
    by (auto simp: log_info_def log_message_def logging_cleanup_def late_log_faults_def LOG_LEVEL_INFO_def)
  then show ?thesis by (auto simp: say_def)
qed

text \<open>What the clean-up does before the last message.\<close>

definition main_released :: "('w, 'nfa) main_env \<Rightarrow> 'w gdpi \<Rightarrow> 'w gdpi" where
  "main_released env g =
     g\<lparr>g_app := (g_app g)\<lparr>ap_nf := snd (netfilter_cleanup (ap_nf (g_app g)))\<rparr>,
       g_fw := snd (cleanup_firewall_rules (me_system env) (g_fw g)),
       g_proc := snd (remove_pid_file (me_unlink env) (cfg_pid_file (g_config g)) (g_proc g))\<rparr>"

lemma main_shutdown_eq:
  assumes "log_ready (g_log g)"
  shows "\<exists>out. main_shutdown env g =
    (let g1 = main_released env (with_out g out) in
     bindC (say log_info ''GoodbyeDPI stopped successfully'' (g1\<lparr>g_log := logging_cleanup (g_log g1)\<rparr>)) (\<lambda>g.
       Inr (EXIT_SUCCESS, g)))"
proof -
  obtain out where "say_all (shutdown_lines (g_app g)) g = Inr (with_out g out)" using say_all_eq [OF assms] by blast
  then show ?thesis by (intro exI [of _ out]) (simp add: main_shutdown_def main_released_def)
qed

lemma main_shutdown_result:
  assumes "log_ready (g_log g)"
  shows "if late_log_faults (g_log g) then main_shutdown env g = Inl NullDeref
    else \<exists>g'. main_shutdown env g = Inr (EXIT_SUCCESS, g') \<and>
        g_app g' = (g_app g)\<lparr>ap_nf := snd (netfilter_cleanup (ap_nf (g_app g)))\<rparr> \<and>
        g_fw g' = snd (cleanup_firewall_rules (me_system env) (g_fw g)) \<and>
        pr_files (g_proc g') =
          (if me_unlink env then (pr_files (g_proc g))(cfg_pid_file (g_config g) := None) else pr_files (g_proc g))"
proof -
  obtain out where e: "main_shutdown env g =
    (let g1 = main_released env (with_out g out) in
     bindC (say log_info ''GoodbyeDPI stopped successfully'' (g1\<lparr>g_log := logging_cleanup (g_log g1)\<rparr>)) (\<lambda>g.
       Inr (EXIT_SUCCESS, g)))"
    using main_shutdown_eq [OF assms] by blast
  have l: "late_log_faults (g_log (main_released env (with_out g out))) = late_log_faults (g_log g)"
    by (simp add: main_released_def late_log_faults_def)
  show ?thesis
  proof (cases "late_log_faults (g_log g)")
    case True
    have f: "say log_info ''GoodbyeDPI stopped successfully'' ((main_released env (with_out g out))\<lparr>g_log :=
        logging_cleanup (g_log (main_released env (with_out g out)))\<rparr>) = Inl NullDeref"
      by (rule say_after_cleanup) (simp only: l True)
    have "main_shutdown env g = Inl NullDeref" unfolding e Let_def f by simp
    then show ?thesis using True by simp
  next
    case False
    then have "\<not> late_log_faults (g_log (main_released env (with_out g out)))" using l by simp
    from say_after_cleanup_ok [OF this] obtain l' where
      f: "say log_info ''GoodbyeDPI stopped successfully'' ((main_released env (with_out g out))\<lparr>g_log :=
        logging_cleanup (g_log (main_released env (with_out g out)))\<rparr>) = Inr ((main_released env (with_out g out))\<lparr>g_log := l'\<rparr>)"
      by blast
    have "main_shutdown env g = Inr (EXIT_SUCCESS, (main_released env (with_out g out))\<lparr>g_log := l'\<rparr>)"
      unfolding e Let_def f by simp
    then show ?thesis using False by (auto simp: main_released_def remove_pid_file_def fun_upd_idem)
  qed
qed

text \<open>
  C5. After the loop the program releases the queue, deletes the rules as far as iptables does and unlinks the PID file, if that can be
  unlinked, but then logs through the stream it has just closed: it crashes exactly when it logs to a file, not to syslog, at level INFO
  or above (\<open>-v\<close> or \<open>--debug\<close>).  Otherwise it exits with 0, whether or not the clean-up worked: a PID file that cannot
  be unlinked stays, and no other file is touched.
\<close>

theorem main_shutdown_outcome:
  assumes "log_ready (g_log g)"
  shows "if late_log_faults (g_log g) then main_shutdown env g = Inl NullDeref
    else \<exists>g'. main_shutdown env g = Inr (EXIT_SUCCESS, g') \<and>
        g_app g' = (g_app g)\<lparr>ap_nf := snd (netfilter_cleanup (ap_nf (g_app g)))\<rparr> \<and>
        g_fw g' = snd (cleanup_firewall_rules (me_system env) (g_fw g)) \<and>
        pr_files (g_proc g') =
          (if me_unlink env then (pr_files (g_proc g))(cfg_pid_file (g_config g) := None) else pr_files (g_proc g))"
  by (rule main_shutdown_result [OF assms])

section \<open>Start-up\<close>

text \<open>The program's own state before it starts.\<close>

definition fresh :: "'w gdpi \<Rightarrow> bool" where
  "fresh g \<longleftrightarrow>
     g_log g = logging_config0 \<and> \<not> nf_handle_open (ap_nf (g_app g)) \<and> \<not> nf_queue_exists (ap_nf (g_app g)) \<and>
     nf_verdicts (ap_nf (g_app g)) = [] \<and> packets_processed (g_app g) = 0 \<and> packets_modified (g_app g) = 0 \<and>
     bytes_processed (g_app g) = 0 \<and> ap_lost (g_app g) = 0 \<and> pr_files (g_proc g) = Map.empty \<and> pr_handlers (g_proc g) = {}"

text \<open>What a run may leave in the firewall: the rules of others are as they were; on a reliable machine, with none of our rules before,
  the table as a whole is \<^term>\<open>t\<close> in front of what it was.\<close>

definition fw_post :: "('w \<Rightarrow> table_rule list) \<Rightarrow> ('w, 'nfa) main_env \<Rightarrow> fw_rule list \<Rightarrow> 'w \<Rightarrow> 'w \<Rightarrow> bool" where
  "fw_post tbl env rs w w' \<longleftrightarrow>
     (iptables_like tbl (me_system env) \<longrightarrow> foreign (tbl w') = foreign (tbl w) \<and>
        (iptables_reliable tbl (me_system env) \<and> foreign_only (tbl w) \<longrightarrow> tbl w' = map Ours rs @ tbl w))"

lemma fw_post_refl [simp]: "fw_post tbl env [] w w"
  by (simp add: fw_post_def)

lemma fw_post_setup:
  assumes "setup_firewall_rules (me_system env) w = (rc, w')"
  shows "fw_post tbl env (if rc = 0 then [In443, In80, Out443, Out80] else []) w w'"
    and "fw_post tbl env [] w (snd (cleanup_firewall_rules (me_system env) w'))"
  using setup_foreign [of tbl "me_system env" w] delete_rules_foreign [of tbl "me_system env" w'] assms
    setup_firewall_reliable [of tbl "me_system env" w rc w']
  by (auto simp: fw_post_def cleanup_firewall_rules_def)

text \<open>What a run that does not reach the loop, and one that does, leave.\<close>

definition start_post :: "('w \<Rightarrow> table_rule list) \<Rightarrow> ('w, 'nfa) main_env \<Rightarrow> 'w gdpi \<Rightarrow> 'w main_result \<Rightarrow> bool" where
  "start_post tbl env g r \<longleftrightarrow>
     (case r of
        ParentExit \<Rightarrow> True
      | Exit rc g' \<Rightarrow>
          fw_post tbl env [] (g_fw g) (g_fw g') \<and> \<not> nf_handle_open (ap_nf (g_app g')) \<and> \<not> nf_queue_exists (ap_nf (g_app g')) \<and>
          dom (pr_files (g_proc g')) \<subseteq> (if me_unlink env then {} else {cfg_pid_file (g_config g')})
      | Running g' \<Rightarrow>
          fw_post tbl env [In443, In80, Out443, Out80] (g_fw g) (g_fw g') \<and>
          fw_post tbl env [] (g_fw g) (snd (cleanup_firewall_rules (me_system env) (g_fw g'))) \<and>
          nf_wf (ap_nf (g_app g')) \<and> nc_initialized (nf_ctx (ap_nf (g_app g'))) \<and> log_ready (g_log g') \<and>
          lg_level (g_log g') = log_level_of (g_config g') \<and>
          nf_verdicts (ap_nf (g_app g')) = [] \<and> packets_processed (g_app g') = 0 \<and> packets_modified (g_app g') = 0 \<and>
          bytes_processed (g_app g') = 0 \<and> ap_lost (g_app g') = 0 \<and> (\<exists>pid. pr_files (g_proc g') = [cfg_pid_file (g_config g') \<mapsto> pid]))"

lemma netfilter_init_keeps: "nf_verdicts (snd (netfilter_init oe q s)) = nf_verdicts s"
  by (simp add: netfilter_init_def nf_simps Let_def)

lemma netfilter_init_closed:
  assumes "\<not> nf_handle_open s" and "\<not> nf_queue_exists s" and "netfilter_init oe q s = (rc, s1)"
  shows "rc = 0 \<or> rc = -1" and "rc = 0 \<Longrightarrow> nf_wf s1 \<and> nc_initialized (nf_ctx s1)"
    and "rc < 0 \<Longrightarrow> \<not> nf_handle_open s1 \<and> \<not> nf_queue_exists s1"
  using assms by (auto simp: netfilter_init_def nf_simps Let_def split: if_splits)

text \<open>The resources of a state as \<open>main_queue\<close> finds it.\<close>

definition before_queue :: "'w gdpi \<Rightarrow> bool" where
  "before_queue g \<longleftrightarrow>
     log_ready (g_log g) \<and> \<not> nf_handle_open (ap_nf (g_app g)) \<and> \<not> nf_queue_exists (ap_nf (g_app g)) \<and>
     nf_verdicts (ap_nf (g_app g)) = [] \<and> packets_processed (g_app g) = 0 \<and> packets_modified (g_app g) = 0 \<and>
     bytes_processed (g_app g) = 0 \<and> ap_lost (g_app g) = 0 \<and> lg_level (g_log g) = log_level_of (g_config g)"

lemma drop_pid_post:
  assumes "pr_files (g_proc g) = [cfg_pid_file (g_config g) \<mapsto> pid]"
  shows "dom (pr_files (g_proc (drop_pid env g))) \<subseteq> (if me_unlink env then {} else {cfg_pid_file (g_config (drop_pid env g))})"
  using assms by (auto simp: drop_pid_def remove_pid_file_def split: if_splits)

lemma drop_pid_simps [simp]: "g_fw (drop_pid env g) = g_fw g" "g_app (drop_pid env g) = g_app g" "g_config (drop_pid env g) = g_config g"
  by (simp_all add: drop_pid_def)

lemma main_queue_post:
  assumes b: "before_queue g" and pf: "pr_files (g_proc g) = [cfg_pid_file (g_config g) \<mapsto> pid]"
  shows "okC (main_queue env g) (start_post tbl env g)"
proof -
  obtain rc3 w3 where fw: "setup_firewall_rules (me_system env) (g_fw g) = (rc3, w3)" by force
  obtain rc4 n4 where nf: "netfilter_init (me_nfq env) (cfg_nfqueue_num (g_config g)) (ap_nf (g_app g)) = (rc4, n4)"
    by force
  have c: "\<not> nf_handle_open (ap_nf (g_app g))" "\<not> nf_queue_exists (ap_nf (g_app g))" "log_ready (g_log g)"
    using b by (simp_all add: before_queue_def)
  note T = fw_post_setup [OF fw, of tbl] and N = netfilter_init_closed [OF c(1,2) nf]
  have v: "nf_verdicts n4 = []" using netfilter_init_keeps nf b by (metis before_queue_def snd_conv)
  have x: "start_post tbl env g (Exit rc (drop_pid env g'))"
    if "g_proc g' = g_proc g" "g_config g' = g_config g" "fw_post tbl env [] (g_fw g) (g_fw g')"
      "\<not> nf_handle_open (ap_nf (g_app g'))" "\<not> nf_queue_exists (ap_nf (g_app g'))" for rc g'
    using drop_pid_post [of g' pid env] that pf by (simp add: start_post_def)
  consider "rc3 < 0" | "rc3 = 0" "rc4 < 0" | "rc3 = 0" "rc4 = 0" using setup_firewall_rc [OF fw] N(1) by linarith
  then show ?thesis
  proof cases
    case 1
    then show ?thesis using c T by (auto simp: main_queue_def fw wp intro!: okC_say x)
  next
    case 2
    then show ?thesis using c T N(3) by (auto simp: main_queue_def fw nf wp intro!: okC_say x)
  next
    case 3
    then show ?thesis using c T N(2) v b pf
      by (auto simp: main_queue_def fw nf wp start_post_def before_queue_def intro!: okC_say)
  qed
qed

lemma daemon_step_files: "daemon_step env g = Some (rc, q) \<Longrightarrow> pr_files q = pr_files (g_proc g)"
  by (auto simp: daemon_step_def daemonize_def Let_def split: fork_result.splits if_splits)

lemma start_post_cong: "g_fw g = g_fw g' \<Longrightarrow> start_post tbl env g = start_post tbl env g'"
  by (rule ext) (simp add: start_post_def split: main_result.split)

lemma start_post_proc: "start_post tbl env (g\<lparr>g_proc := p\<rparr>) = start_post tbl env g"
  by (rule start_post_cong) simp

lemma main_resources_post:
  assumes b: "before_queue g" and pf: "pr_files (g_proc g) = Map.empty"
  shows "okC (main_resources env g) (start_post tbl env g)"
proof (cases "me_pid_open env")
  case False
  then show ?thesis
    using b pf by (auto simp: main_resources_def create_pid_file_def wp start_post_def before_queue_def intro!: okC_say)
next
  case True
  define p1 where "p1 = (g_proc g)\<lparr>pr_files := [cfg_pid_file (g_config g) \<mapsto> pr_pid (g_proc g)]\<rparr>"
  let ?g1 = "g\<lparr>g_proc := p1\<rparr>"
  have p1: "create_pid_file (me_pid_open env) (cfg_pid_file (g_config g)) (g_proc g) = (0, p1)"
    using True pf by (simp add: create_pid_file_def p1_def)
  have Q: "okC (main_queue env (?g1\<lparr>g_proc := p2\<rparr>)) (start_post tbl env g)"
    if "pr_files p2 = pr_files p1" for p2
    using main_queue_post [of "?g1\<lparr>g_proc := p2\<rparr>" "pr_pid (g_proc g)" env tbl] b that
    by (simp add: before_queue_def p1_def start_post_proc)
  show ?thesis
  proof (cases "daemon_step env ?g1")
    case None
    then show ?thesis by (simp add: main_resources_def p1 start_post_def)
  next
    case (Some r)
    obtain rc2 p2 where r: "r = (rc2, p2)" by (cases r)
    have f: "pr_files p2 = pr_files p1" using daemon_step_files Some r by fastforce
    have x: "start_post tbl env g (Exit rc (drop_pid env (with_out (g\<lparr>g_proc := p2\<rparr>) out)))" for rc out
      using drop_pid_post [of "with_out (g\<lparr>g_proc := p2\<rparr>) out" "pr_pid (g_proc g)" env] f b
      by (simp add: start_post_def p1_def before_queue_def)
    show ?thesis
      using Some r Q [OF f] b x
      by (auto simp: main_resources_def p1 Let_def wp before_queue_def intro!: okC_say)
  qed
qed

lemma main_configured_post:
  assumes f: "fresh (g\<lparr>g_log := logging_config0\<rparr>)" and lf: "\<not> lg_use_file (g_log g)"
  shows "retC (main_configured env g) (start_post tbl env g)"
proof -
  note L = logging_init_state [OF _ lf]
  obtain src p where h: "install_signal_handlers (me_sigaction env) (g_proc g) = (src, p)" by force
  have pf: "pr_files p = Map.empty"
    using h f by (auto simp: install_signal_handlers_def fresh_def Let_def split: if_splits)
  have x: "start_post tbl env g (Exit rc g')" if "g_fw g' = g_fw g" "g_app g' = g_app g" "pr_files (g_proc g') = Map.empty" for rc g'
    using that f by (simp add: start_post_def fresh_def)
  have R: "okC (main_resources env (g\<lparr>g_log := lg, g_proc := p\<rparr>)) (start_post tbl env g)"
    if "log_ready lg" "lg_level lg = log_level_of (g_config g)" for lg
  proof -
    have "before_queue (g\<lparr>g_log := lg, g_proc := p\<rparr>)" using f that by (simp add: before_queue_def fresh_def)
    then have "okC (main_resources env (g\<lparr>g_log := lg, g_proc := p\<rparr>)) (start_post tbl env (g\<lparr>g_log := lg, g_proc := p\<rparr>))"
      using pf by (intro main_resources_post) simp_all
    moreover have "start_post tbl env (g\<lparr>g_log := lg, g_proc := p\<rparr>) = start_post tbl env g" by (rule start_post_cong) simp
    ultimately show ?thesis by simp
  qed
  show ?thesis
  proof (cases "logging_init (me_log_open env) (log_level_of (g_config g)) (cfg_systemd_mode (g_config g))
      (if cfg_log_file (g_config g) \<noteq> [] then Some (cfg_log_file (g_config g)) else None) (g_log g)")
    case (Inr r)
    obtain lrc lg where r: "r = (lrc, lg)" by (cases r)
    show ?thesis
    proof (cases "lrc < 0")
      case True
      then show ?thesis using Inr r f by (auto simp: main_configured_def Let_def fresh_def intro!: x)
    next
      case False
      then have "lrc = 0" using Inr r by (auto simp: logging_init_def Let_def bindC_eq_Inr split: if_splits option.splits)
      then have l: "log_ready lg" "lg_level lg = log_level_of (g_config g)" using L Inr r by auto
      then show ?thesis using Inr r False R [OF l] pf
        by (auto simp: main_configured_def Let_def h retC_bind okC_iff intro!: x retC_say)
    qed
  qed (simp add: main_configured_def Let_def)
qed

lemma main_start_post:
  assumes f: "fresh g"
  shows "retC (main_start env g) (start_post tbl env g)"
proof -
  obtain result cfg where pa: "parse_argv (me_fs env) (me_cl0 env) (me_argv env) config_defaults = (result, cfg)"
    by force
  let ?g1 = "g\<lparr>g_config := cfg\<rparr>"
  have x: "start_post tbl env g (Exit rc ?g1)" "start_post tbl env g (Exit rc g)" for rc
    using f by (simp_all add: start_post_def fresh_def)
  have g0: "g_log g = logging_config0" using f by (simp add: fresh_def)
  have "retC (main_configured env (?g1\<lparr>g_log := l\<rparr>)) (start_post tbl env g)" if "\<not> lg_use_file l" for l
  proof -
    have "fresh (?g1\<lparr>g_log := l\<rparr>\<lparr>g_log := logging_config0\<rparr>)" using f by (simp add: fresh_def)
    then have "retC (main_configured env (?g1\<lparr>g_log := l\<rparr>)) (start_post tbl env (?g1\<lparr>g_log := l\<rparr>))"
      by (rule main_configured_post) (simp add: that)
    moreover have "start_post tbl env (?g1\<lparr>g_log := l\<rparr>) = start_post tbl env g" by (rule start_post_cong) simp
    ultimately show ?thesis by simp
  qed
  moreover have "\<not> lg_use_file l" if "config_print cfg logging_config0 = Inr l \<or> l = logging_config0" for l
    using that log_infos_ready [OF log_ready0, of "config_lines cfg"] by (auto simp: config_print_def logging_config0_def)
  ultimately show ?thesis
    by (auto simp: main_start_def config_load_defaults_def config_init_def pa Let_def x retC_if g0 retC_iff bindC_eq_Inr
        split: if_splits)
qed


section \<open>The loop\<close>

text \<open>What became of a message: whether it was counted as modified, and the verdicts given for it.\<close>

type_synonym 'nfa handled = "'nfa \<times> bool \<times> verdict list"

definition handled_ok :: "'nfa nfq_api \<Rightarrow> 'nfa handled \<Rightarrow> bool" where
  "handled_ok api h \<longleftrightarrow>
     (case h of (m, modified, vs) \<Rightarrow> (modified \<longrightarrow> counted api m) \<and> length vs \<le> 1 \<and> (\<forall>v \<in> set vs. verdict_on api m v) \<and>
        (vs \<noteq> [] \<and> counted api m \<longrightarrow> modified))"

text \<open>The counters and the verdicts are those of the messages \\<^term>\<open>ms\<close> received so far, one after the other.\<close>

definition app_history :: "'nfa nfq_api \<Rightarrow> 'nfa list \<Rightarrow> app_state \<Rightarrow> bool" where
  "app_history api ms a \<longleftrightarrow>
     packets_processed a = of_nat (length (filter (counted api) ms)) \<and>
     bytes_processed a = sum_list (map (\<lambda>m. ucast (word_of_int (fst (nfq_get_payload api m)) :: u32)) ms) \<and>
     (\<exists>hs. map fst hs = ms \<and> (\<forall>h \<in> set hs. handled_ok api h) \<and>
        packets_modified a = of_nat (length (filter (\<lambda>(m, modified, vs). modified) hs)) \<and>
        nf_verdicts (ap_nf a) = concat (map (\<lambda>(m, modified, vs). vs) hs))"

definition app_inv :: "'nfa nfq_api \<Rightarrow> 'nfa list \<Rightarrow> app_state \<Rightarrow> bool" where
  "app_inv api ms a \<longleftrightarrow> nf_wf (ap_nf a) \<and> nc_initialized (nf_ctx (ap_nf a)) \<and> app_history api ms a \<and> ap_lost a = 0"

lemma nf_wf_verdicts [simp]: "nf_wf (n\<lparr>nf_verdicts := vs\<rparr>) = nf_wf n"
  by (simp add: nf_wf_def)

lemma callback_effect_history:
  assumes "app_history api ms a" and e: "callback_effect api m modified vs a b"
  shows "app_history api (ms @ [m]) b"
proof -
  obtain hs where hs: "map fst hs = ms" "\<forall>h \<in> set hs. handled_ok api h"
    "packets_modified a = of_nat (length (filter (\<lambda>(m, modified, vs). modified) hs))"
    "nf_verdicts (ap_nf a) = concat (map (\<lambda>(m, modified, vs). vs) hs)"
    using assms(1) by (auto simp: app_history_def)
  have "handled_ok api (m, modified, vs)" using e by (simp add: callback_effect_def handled_ok_def)
  then have "\<exists>hs. map fst hs = ms @ [m] \<and> (\<forall>h \<in> set hs. handled_ok api h) \<and>
      packets_modified b = of_nat (length (filter (\<lambda>(m, modified, vs). modified) hs)) \<and>
      nf_verdicts (ap_nf b) = concat (map (\<lambda>(m, modified, vs). vs) hs)"
    using hs e by (intro exI [of _ "hs @ [(m, modified, vs)]"]) (auto simp: callback_effect_def)
  then show ?thesis using assms by (auto simp: app_history_def callback_effect_def)
qed

lemma callback_effect_inv:
  assumes "app_inv api ms a" and "callback_effect api m modified vs a b"
  shows "app_inv api (ms @ [m]) b"
  using assms callback_effect_history by (fastforce simp: app_inv_def callback_effect_def)

lemma queue_callback_effect:
  assumes "payload_ok (me_api env)" and cs: "nf_callback_set (ap_nf a)" and cb: "queue_callback env cfg m a = Inr (rc, b)"
  shows "\<exists>modified vs. callback_effect (me_api env) m modified vs a b"
proof -
  obtain n data where pl: "nfq_get_payload (me_api env) m = (n, data)" by force
  note len = payload_len(1) [OF assms(1) pl]
  show ?thesis
  proof (cases "counted (me_api env) m")
    case True
    then have "packet_process_callback (cb_env_of env cfg) m a = Inr (rc, b)"
      using cb cs len pl by (simp add: queue_callback_def netfilter_callback_def Let_def)
    moreover have "ce_api (cb_env_of env cfg) = me_api env" by (simp add: cb_env_of_def)
    ultimately show ?thesis using callback_outcome [of "cb_env_of env cfg" m a rc b] assms(1) by metis
  next
    case False
    then have d: "data = Some []" and z: "(word_of_int n :: u32) = 0" using len pl by (simp_all add: counted_def)
    let ?v = "\<lparr>vd_id = packet_id_of (me_api env) m, vd_verdict = NF_ACCEPT, vd_data = []\<rparr>"
    let ?vs = "if nfq_set_verdict_rc (me_api env) (packet_id_of (me_api env) m) NF_ACCEPT [] < 0 then [] else [?v]"
    have "b = a\<lparr>ap_nf := (ap_nf a)\<lparr>nf_verdicts := nf_verdicts (ap_nf a) @ ?vs\<rparr>\<rparr>"
      using cb z pl by (auto simp: queue_callback_def netfilter_callback_def nfq_set_verdict_def packet_id_of_def Let_def split: if_splits)
    moreover have "\<forall>v \<in> set ?vs. verdict_on (me_api env) m v" using pl d by (simp add: verdict_on_def)
    ultimately have "callback_effect (me_api env) m False ?vs a b" using False z pl by (simp add: callback_effect_def)
    then show ?thesis by blast
  qed
qed

lemma handle_messages_inv:
  assumes "payload_ok (me_api env)"
  shows "handle_messages (queue_callback env cfg) ms' a = Inr b \<Longrightarrow> app_inv (me_api env) ms a \<Longrightarrow> app_inv (me_api env) (ms @ ms') b"
proof (induction ms' arbitrary: a ms)
  case (Cons m ms')
  then obtain rc a1 where a1: "queue_callback env cfg m a = Inr (rc, a1)" "handle_messages (queue_callback env cfg) ms' a1 = Inr b"
    by (auto simp: bindC_eq_Inr)
  have "nf_callback_set (ap_nf a)" using Cons.prems(2) by (simp add: app_inv_def nf_wf_def)
  then have "app_inv (me_api env) (ms @ [m]) a1"
    using queue_callback_effect [OF assms _ a1(1)] callback_effect_inv [OF Cons.prems(2)] by blast
  from Cons.IH [OF a1(2) this] show ?case by simp
qed simp

lemma receive_inv:
  assumes "payload_ok (me_api env)" and inv: "app_inv (me_api env) ms a"
    and rc: "netfilter_receive_packet ap_nf (\<lambda>n s. s\<lparr>ap_nf := n\<rparr>) (queue_callback env cfg) r a = Inr (rc, b)"
  shows "app_inv (me_api env) (ms @ event_messages (Turn r)) b"
proof (cases r)
  case (RecvData len msgs k)
  let ?a1 = "a\<lparr>ap_nf := upd_ctx (nc_buffer_len_update (\<lambda>_. len)) (ap_nf a)\<rparr>"
  have "app_inv (me_api env) ms ?a1"
    using inv by (simp add: app_inv_def nf_wf_def upd_ctx_def app_history_def)
  moreover have "handle_messages (queue_callback env cfg) msgs ?a1 = Inr b"
    using inv rc RecvData by (auto simp: netfilter_receive_packet_def app_inv_def Let_def bindC_eq_Inr)
  ultimately show ?thesis using handle_messages_inv [OF assms(1)] RecvData by (simp add: event_messages_def)
qed (use assms in \<open>auto simp: netfilter_receive_packet_def event_messages_def split: if_splits\<close>)

text \<open>The invariant of the running program, after the events \\<^term>\<open>es\<close>.\<close>

definition main_inv :: "('w, 'nfa) main_env \<Rightarrow> 'nfa main_event list \<Rightarrow> 'w gdpi \<Rightarrow> bool" where
  "main_inv env es g \<longleftrightarrow> payload_ok (me_api env) \<and> app_inv (me_api env) (messages es) (g_app g) \<and> log_ready (g_log g)"

definition main_init :: "('w, 'nfa) main_env \<Rightarrow> 'w gdpi \<Rightarrow> bool" where
  "main_init env g \<longleftrightarrow> payload_ok (me_api env) \<and> (\<exists>g0. fresh g0 \<and> main_start env g0 = Inr (Running g))"

lemma main_iteration_inv:
  assumes "main_inv env es g" and "main_iteration env r g = Inr g'"
  shows "main_inv env (es @ [Turn r]) g'"
proof -
  obtain rc a where r: "netfilter_receive_packet ap_nf (\<lambda>n s. s\<lparr>ap_nf := n\<rparr>) (queue_callback env (g_config g)) r (g_app g) = Inr (rc, a)"
    using assms(2) by (auto simp: main_iteration_def bindC_eq_Inr)
  have a: "app_inv (me_api env) (messages (es @ [Turn r])) a" using receive_inv [OF _ _ r] assms(1) by (simp add: main_inv_def)
  have l: "log_ready (g_log (g\<lparr>g_app := a\<rparr>))" using assms(1) by (simp add: main_inv_def)
  obtain o1 o2 where "say log_error ''Error receiving packet'' (g\<lparr>g_app := a\<rparr>) = Inr (with_out (g\<lparr>g_app := a\<rparr>) o1)"
      "say log_info (packet_stats_text (packets_processed a) (packets_modified a) (bytes_processed a)) (g\<lparr>g_app := a\<rparr>) =
         Inr (with_out (g\<lparr>g_app := a\<rparr>) o2)"
    using say_eq [OF l] by metis
  then show ?thesis using assms a l
    by (auto simp: main_iteration_def r Let_def main_inv_def say_stats split: if_splits)
qed

lemma deliver_signal_inv:
  assumes "main_inv env es g" and "deliver_signal sig g = Inr g'"
  shows "main_inv env (es @ [Signal sig]) g'"
proof -
  have l: "log_ready (g_log g)" using assms(1) by (simp add: main_inv_def)
  obtain o1 where "say log_info ''Received signal, shutting down gracefully'' g = Inr (with_out g o1)"
    using say_eq(1) [OF l] by blast
  then show ?thesis using assms by (auto simp: deliver_signal_def main_inv_def event_messages_def split: if_splits)
qed

text \<open>The loop as a transition system on the state together with the events that led to it.\<close>

definition loop_init :: "('w, 'nfa) main_env \<Rightarrow> 'nfa main_event list \<times> 'w gdpi \<Rightarrow> bool" where
  "loop_init env s \<longleftrightarrow> fst s = [] \<and> main_init env (snd s)"

definition loop_step :: "('w, 'nfa) main_env \<Rightarrow> 'nfa main_event list \<times> 'w gdpi \<Rightarrow> 'nfa main_event list \<times> 'w gdpi \<Rightarrow> bool" where
  "loop_step env s t \<longleftrightarrow> (\<exists>e. fst t = fst s @ [e] \<and> main_step env e (snd s) (snd t))"

interpretation loop: invariant_system "loop_init env" "loop_step env" "\<lambda>s. main_inv env (fst s) (snd s)"
  for env :: "('w, 'nfa) main_env"
proof
  fix s :: "'nfa main_event list \<times> 'w gdpi"
  assume "loop_init env s"
  then obtain g0 where g0: "fst s = []" "payload_ok (me_api env)" "start_post (\<lambda>_. []) env g0 (Running (snd s))"
    using main_start_post by (fastforce simp: loop_init_def main_init_def retC_iff)
  have "app_history (me_api env) [] (g_app (snd s))" using g0(3) by (simp add: start_post_def app_history_def)
  then show "main_inv env (fst s) (snd s)" using g0 by (simp add: main_inv_def app_inv_def start_post_def)
next
  fix s t :: "'nfa main_event list \<times> 'w gdpi"
  assume "main_inv env (fst s) (snd s)" and "loop_step env s t"
  then show "main_inv env (fst t) (snd t)"
    by (auto simp: loop_step_def elim!: main_stepE intro: main_iteration_inv deliver_signal_inv)
qed

lemma main_run_loop: "main_run env g es g' \<Longrightarrow> (loop_step env)\<^sup>*\<^sup>* ([], g) (es, g')"
proof (induction rule: main_run.induct)
  case (step es g' e g'')
  then have "loop_step env (es, g') (es @ [e], g'')" by (auto simp: loop_step_def)
  with step.IH show ?case by (rule rtranclp.rtrancl_into_rtrancl)
qed simp

lemma main_run_inv:
  assumes "payload_ok (me_api env)" "fresh g0" "main_start env g0 = Inr (Running g1)" "main_run env g1 es g"
  shows "main_inv env es g"
proof -
  have "loop_init env ([], g1)" using assms(1-3) by (auto simp: loop_init_def main_init_def)
  from loop.reachable_inv [OF this main_run_loop [OF assms(4)]] show ?thesis by simp
qed

text \<open>
  C2. In every state the running program can reach, after any interleaving of packets and signals, the queue is
  set up and no heap block is lost; the processed packets are counted, modulo \<open>2 ^ 64\<close>, as many times as messages with a payload that is not
  empty were received, their bytes as the lengths that the library reported; of these the messages counted as modified are
  the number in the other counter; and the verdicts given are, in the order of the messages, at most one for each message, which
  accepts the packet of that message's id with the bytes the message carried, and for a counted packet only if it is
  counted as modified.
\<close>

theorem main_loop_invariant:
  assumes "payload_ok (me_api env)" and "fresh g0" and "main_start env g0 = Inr (Running g1)" and "main_run env g1 es g"
  shows "nc_initialized (nf_ctx (ap_nf (g_app g))) \<and> ap_lost (g_app g) = 0 \<and> app_history (me_api env) (messages es) (g_app g)"
  using main_run_inv [OF assms] by (simp add: main_inv_def app_inv_def)

section \<open>The whole run\<close>

lemma say_frame: "say f m g = Inr g' \<Longrightarrow> g_fw g' = g_fw g \<and> g_config g' = g_config g \<and> g_proc g' = g_proc g \<and> g_app g' = g_app g"
  by (auto simp: say_def bindC_eq_Inr)

lemma main_step_frame:
  assumes "main_step env e g g'"
  shows "g_fw g' = g_fw g \<and> g_config g' = g_config g \<and> pr_files (g_proc g') = pr_files (g_proc g)"
  using assms
proof (cases rule: main_step.cases)
  case (turn r)
  then show ?thesis by (auto simp: main_iteration_def bindC_eq_Inr Let_def dest!: say_frame split: if_splits)
next
  case (signal sig)
  then show ?thesis
    by (auto simp: deliver_signal_def signal_handler_def bindC_eq_Inr dest!: say_frame split: if_splits)
qed

lemma main_run_frame:
  "main_run env g es g' \<Longrightarrow> g_fw g' = g_fw g \<and> g_config g' = g_config g \<and> pr_files (g_proc g') = pr_files (g_proc g)"
  by (induction rule: main_run.induct) (auto dest!: main_step_frame)

lemma netfilter_cleanup_closes:
  assumes "nf_wf n" "nc_initialized (nf_ctx n)"
  shows "\<not> nf_handle_open (snd (netfilter_cleanup n)) \<and> \<not> nf_queue_exists (snd (netfilter_cleanup n)) \<and>
    nf_verdicts (snd (netfilter_cleanup n)) = nf_verdicts n"
  using assms by (auto simp: netfilter_cleanup_def nf_simps Let_def)

section \<open>A concrete run\<close>

definition plain_main :: "(table_rule list, u32 \<times> bytes) main_env" where
  "plain_main = \<lparr>me_euid = 0, me_argv = [], me_fs = (\<lambda>f. None), me_cl0 = \<lparr>cl_key = [], cl_value = []\<rparr>,
     me_log_open = True, me_sigaction = (\<lambda>s. True), me_pid_open = True, me_unlink = True, me_fork = ForkFailed,
     me_setsid = True, me_null_open = True,
     me_system = ipt_machine, me_nfq = oe_fine, me_api = plain_api, me_parse_malloc = (\<lambda>k n. unat n < 2 ^ 63),
     me_malloc = (\<lambda>n. True), me_send = (\<lambda>fd k. int k)\<rparr>"

definition gdpi0 :: "table_rule list gdpi" where
  "gdpi0 = \<lparr>g_app = \<lparr>ap_nf = nf_state0, ap_raw = raw_state0, packets_processed = 0, packets_modified = 0,
     bytes_processed = 0, ap_lost = 0\<rparr>, g_log = logging_config0, g_proc = process0, g_fw = one_foreign, g_config = config_zero\<rparr>"

lemma gdpi0_fresh: "fresh gdpi0"
  by (simp add: fresh_def gdpi0_def nf_state0_def process0_def)

lemma defaults_valid: "config_validate (Some config_defaults) = 0"
  by (simp add: config_validate_iff config_defaults_def config_zero_def field_copy_def)

definition lg_plain :: logging_config_t where
  "lg_plain = logging_config0\<lparr>lg_level := 5, lg_log_file := ''/var/log/goodbyedpi.log'', lg_use_file := True,
     lg_log_fp := True\<rparr>"

lemma defaults_fields:
  "cfg_daemon_mode config_defaults = False" "cfg_debug_mode config_defaults = False"
  "cfg_verbose_mode config_defaults = False" "cfg_systemd_mode config_defaults = False"
  "cfg_log_file config_defaults = ''/var/log/goodbyedpi.log''"
  by (simp_all add: config_defaults_def config_zero_def field_copy_def)

lemma plain_logging:
  "logging_init True (log_level_of config_defaults) False (Some ''/var/log/goodbyedpi.log'') logging_config0 = Inr (0, lg_plain)"
  by (simp add: logging_init_def log_level_of_def defaults_fields log_info_def log_message_def logging_config0_def
      lg_plain_def LOG_LEVEL_NOTICE_def LOG_LEVEL_INFO_def LOG_LEVEL_DEBUG_def Let_def)

lemma lg_plain_quiet:
  "log_info m lg_plain = Inr lg_plain" "\<exists>l. log_error m lg_plain = Inr l"
  by (simp_all add: log_info_def log_error_def log_message_def lg_plain_def LOG_LEVEL_INFO_def LOG_LEVEL_ERR_def)

lemma main_start_plain:
  assumes "me_euid env = 0" "me_argv env = []" "me_log_open env" "g_log g = logging_config0"
  shows "main_start env g = (case install_signal_handlers (me_sigaction env) (g_proc g) of (src, p) \<Rightarrow>
      let g3 = g\<lparr>g_config := config_defaults, g_log := lg_plain, g_proc := p\<rparr> in
      if src < 0 then bindC (say log_error ''Failed to install signal handlers'' g3) (\<lambda>g. Inr (Exit EXIT_FAILURE g))
      else main_resources env g3)"
  using assms by (simp add: main_start_def config_load_defaults_def config_init_def parse_argv_def defaults_valid main_configured_def defaults_fields
      plain_logging Let_def)

definition plain_running :: "table_rule list gdpi" where
  "plain_running = gdpi0\<lparr>g_config := config_defaults, g_log := lg_plain,
     g_proc := process0\<lparr>pr_handlers := {SIGTERM, SIGINT}, pr_files := [cfg_pid_file config_defaults \<mapsto> 100]\<rparr>,
     g_fw := map Ours [In443, In80, Out443, Out80] @ one_foreign,
     g_app := (g_app gdpi0)\<lparr>ap_nf := snd (netfilter_init oe_fine (cfg_nfqueue_num config_defaults) nf_state0)\<rparr>\<rparr>"

lemma plain_main_runs: "main_start plain_main gdpi0 = Inr (Running plain_running)"
proof -
  let ?g = "gdpi0\<lparr>g_config := config_defaults, g_log := lg_plain,
      g_proc := process0\<lparr>pr_handlers := {SIGTERM, SIGINT}\<rparr>\<rparr>"
  have "main_start plain_main gdpi0 = main_resources plain_main ?g"
    by (subst main_start_plain) (simp_all add: plain_main_def gdpi0_def install_signal_handlers_def process0_def Let_def)
  also have "main_resources plain_main ?g = Inr (Running plain_running)"
    by (simp add: main_resources_def plain_main_def create_pid_file_def daemon_step_def defaults_fields
        main_queue_def gdpi0_def ipt_machine_setup netfilter_init_def oe_fine_def nf_state0_def nf_simps
        say_def lg_plain_quiet process0_def plain_running_def Let_def)
  finally show ?thesis .
qed

text \<open>One packet arrives, then a signal.\<close>

definition plain_events :: "(u32 \<times> bytes) main_event list" where
  "plain_events = [Turn (RecvData 64 [(7, icmp_sample)] 0), Signal SIGTERM]"

lemma plain_main_stops:
  obtains g where "main_run plain_main plain_running plain_events g" "\<not> is_running (g_proc g)" "log_ready (g_log g)"
    "\<not> late_log_faults (g_log g)"
proof -
  let ?a = "(g_app plain_running)\<lparr>ap_nf := upd_ctx (nc_buffer_len_update (\<lambda>_. 64)) (ap_nf (g_app plain_running))\<rparr>"
  let ?g = "plain_running\<lparr>g_app := icmp_verdict ?a\<rparr>"
  have i: "nc_initialized (nf_ctx (ap_nf (g_app plain_running)))" "nf_callback_set (ap_nf (g_app plain_running))"
    "nc_initialized (nf_ctx (ap_nf ?a))"
    by (simp_all add: plain_running_def netfilter_init_def oe_fine_def nf_state0_def nf_simps)
  have env: "cb_env_of plain_main config_defaults = plain_env" "me_api plain_main = plain_api" "g_config plain_running = config_defaults"
    by (simp_all add: cb_env_of_def plain_main_def plain_env_def plain_running_def)
  have "fst (nfq_get_payload plain_api (7, icmp_sample)) = 20" by (simp add: plain_api_def icmp_sample_def)
  then have "queue_callback plain_main config_defaults (7, icmp_sample) ?a = Inr (0, icmp_verdict ?a)"
    using callback_icmp [OF i(3)] i(2) by (simp add: queue_callback_def netfilter_callback_def env upd_ctx_def Let_def)
  then have "main_iteration plain_main (RecvData 64 [(7, icmp_sample)] 0) plain_running = Inr ?g"
    using i(1) by (simp add: main_iteration_def netfilter_receive_packet_def env defaults_fields Let_def)
  then have t: "main_step plain_main (Turn (RecvData 64 [(7, icmp_sample)] 0)) plain_running ?g"
    by (intro main_step.turn) (simp_all add: is_running_def plain_running_def process0_def)
  let ?h = "?g\<lparr>g_proc := signal_handler SIGTERM (g_proc ?g)\<rparr>"
  have "g_log ?g = lg_plain" "?g\<lparr>g_log := lg_plain\<rparr> = ?g" by (simp_all add: plain_running_def)
  then have "deliver_signal SIGTERM ?g = Inr ?h" by (simp add: deliver_signal_def say_def lg_plain_quiet)
  then have "main_step plain_main (Signal SIGTERM) ?g ?h" by (intro main_step.signal) (simp_all add: plain_running_def)
  from main_run.step [OF main_run.step [OF main_run.start t] this] have "main_run plain_main plain_running plain_events ?h"
    by (simp add: plain_events_def)
  moreover have "\<not> is_running (g_proc ?h)" using signal_stops [of SIGTERM "g_proc ?g"] by simp
  moreover have "log_ready (g_log ?h)" "\<not> late_log_faults (g_log ?h)"
    by (simp_all add: plain_running_def lg_plain_def log_ready_def late_log_faults_def)
  ultimately show thesis by (rule that)
qed

lemma plain_main_like:
  "payload_ok (me_api plain_main)" "iptables_like id (me_system plain_main)" "iptables_reliable id (me_system plain_main)"
  using plain_payload_ok by (simp_all add: plain_main_def plain_env_def ipt_machine_like ipt_machine_reliable)

theorem main_loop_invariant_witness:
  "\<exists>g. main_start plain_main gdpi0 = Inr (Running plain_running) \<and> main_run plain_main plain_running plain_events g \<and>
     packets_processed (g_app g) = 1 \<and> bytes_processed (g_app g) = 20 \<and> ap_lost (g_app g) = 0"
proof -
  obtain g where g: "main_run plain_main plain_running plain_events g" using plain_main_stops by blast
  have "messages plain_events = [(7, icmp_sample)]" by (simp add: messages_def event_messages_def plain_events_def)
  moreover have "counted plain_api (7, icmp_sample)" "fst (nfq_get_payload plain_api (7, icmp_sample)) = 20"
    by (simp_all add: counted_def plain_api_def icmp_sample_def)
  ultimately show ?thesis
    using main_loop_invariant [OF plain_main_like(1) gdpi0_fresh plain_main_runs g] plain_main_runs g
    by (auto simp: app_history_def plain_main_def)
qed


theorem main_shutdown_outcome_witness:
  "main_shutdown plain_main (gdpi0\<lparr>g_log := logging_config0\<lparr>lg_use_file := True, lg_log_fp := True\<rparr>\<rparr>) = Inl NullDeref \<and>
   (\<exists>g'. main_shutdown (plain_main\<lparr>me_unlink := False\<rparr>) plain_running = Inr (EXIT_SUCCESS, g') \<and>
      pr_files (g_proc g') = [cfg_pid_file config_defaults \<mapsto> 100])"
proof -
  have "log_ready (g_log plain_running)" "\<not> late_log_faults (g_log plain_running)"
    "pr_files (g_proc plain_running) = [cfg_pid_file config_defaults \<mapsto> 100]"
    by (simp_all add: plain_running_def lg_plain_def log_ready_def late_log_faults_def)
  then show ?thesis
    using main_shutdown_outcome [of "gdpi0\<lparr>g_log := logging_config0\<lparr>lg_use_file := True, lg_log_fp := True\<rparr>\<rparr>" plain_main]
      main_shutdown_outcome [of plain_running "plain_main\<lparr>me_unlink := False\<rparr>"]
    by (auto simp: log_ready_def late_log_faults_def logging_config0_def LOG_LEVEL_INFO_def)
qed

end
