(* ===== verification/FlowTable.thy ===== *)
theory FlowTable
  imports Prelude
begin

text \<open>
  The contracts of the three trackers of \<open>src/tracking\<close>, as locales.  A \<open>flow_table\<close> records packets of
  flows: recording keeps the invariant, a recorded packet is found, a refused packet changes nothing.
  An \<open>expiring_table\<close> drops its stale entries and reports how many it dropped.  The trackers
  \<open>Conntrack\<close>, \<open>TtlTracker\<close> and \<open>DnsTracker\<close> interpret both.
\<close>

section \<open>Recording flows\<close>

locale flow_table =
  fixes inv :: "'s \<Rightarrow> bool"
    and track :: "'t \<Rightarrow> 'p \<Rightarrow> 's \<Rightarrow> int \<times> 's"
    and tracked :: "'p \<Rightarrow> 's \<Rightarrow> 'e option"
  assumes track_inv: "inv s \<Longrightarrow> inv (snd (track t p s))"
    and track_found: "inv s \<Longrightarrow> fst (track t p s) = 0 \<Longrightarrow> tracked p (snd (track t p s)) \<noteq> None"
    and track_refused: "fst (track t p s) \<noteq> 0 \<Longrightarrow> snd (track t p s) = s"
begin

lemma history_inv: "inv s \<Longrightarrow> inv (fold (\<lambda>(t, p) s. snd (track t p s)) h s)"
  by (induction h arbitrary: s) (auto simp: track_inv)

lemma history_found:
  assumes "inv s" and "fst (track t p (fold (\<lambda>(t, p) s. snd (track t p s)) h s)) = 0"
  shows "tracked p (fold (\<lambda>(t, p) s. snd (track t p s)) (h @ [(t, p)]) s) \<noteq> None"
  using assms by (simp add: history_inv track_found)

lemma untracked_refused:
  "inv s \<Longrightarrow> tracked p (snd (track t p s)) = None \<Longrightarrow> snd (track t p s) = s"
  using track_found track_refused by blast

end

section \<open>Expiry\<close>

locale expiring_table =
  fixes inv :: "'s \<Rightarrow> bool"
    and entries :: "'s \<Rightarrow> 'e list"
    and stale :: "int \<Rightarrow> 'e \<Rightarrow> bool"
    and purge :: "int \<Rightarrow> 's \<Rightarrow> int \<times> 's"
  assumes purge_inv: "inv s \<Longrightarrow> inv (snd (purge now s))"
    and purge_entries: "inv s \<Longrightarrow> entries (snd (purge now s)) = filter (\<lambda>e. \<not> stale now e) (entries s)"
    and purge_count: "inv s \<Longrightarrow> fst (purge now s) = int (length (filter (stale now) (entries s)))"
    and stale_mono: "now \<le> later \<Longrightarrow> stale now e \<Longrightarrow> stale later e"
begin

lemma purge_fresh: "inv s \<Longrightarrow> e \<in> set (entries (snd (purge now s))) \<Longrightarrow> \<not> stale now e"
  by (simp add: purge_entries)

lemma purge_accounts:
  "inv s \<Longrightarrow> fst (purge now s) + int (length (entries (snd (purge now s)))) = int (length (entries s))"
  using sum_length_filter_compl [of "stale now" "entries s"] by (simp add: purge_count purge_entries)

lemma purge_again: "inv s \<Longrightarrow> fst (purge now (snd (purge now s))) = 0"
  by (simp add: purge_count purge_inv purge_entries)

lemma purge_absorb:
  assumes "inv s" "now \<le> later"
  shows "entries (snd (purge later (snd (purge now s)))) = entries (snd (purge later s))"
proof -
  have "filter (\<lambda>e. \<not> stale later e) (filter (\<lambda>e. \<not> stale now e) xs) = filter (\<lambda>e. \<not> stale later e) xs" for xs
    using stale_mono [OF assms(2)] by (induction xs) auto
  then show ?thesis
    using assms(1) by (simp add: purge_entries purge_inv)
qed

lemma purge_split:
  assumes "inv s" "now \<le> later"
  shows "fst (purge later s) = fst (purge now s) + fst (purge later (snd (purge now s)))"
  using purge_accounts [OF assms(1), of later] purge_accounts [OF assms(1), of now]
    purge_accounts [OF purge_inv [OF assms(1), of now], of later] purge_absorb [OF assms]
  by simp

end

section \<open>The first index\<close>

text \<open>The result of a scan that stops at the first element satisfying \<open>P\<close>.\<close>

fun index_of :: "('a \<Rightarrow> bool) \<Rightarrow> 'a list \<Rightarrow> nat option" where
  "index_of P [] = None"
| "index_of P (x # xs) = (if P x then Some 0 else map_option Suc (index_of P xs))"

lemma index_of_None: "index_of P xs = None \<longleftrightarrow> (\<forall>x\<in>set xs. \<not> P x)"
  by (induction xs) auto

lemma index_of_Some:
  "index_of P xs = Some i \<longleftrightarrow> i < length xs \<and> P (xs ! i) \<and> (\<forall>j<i. \<not> P (xs ! j))"
proof (induction xs arbitrary: i)
  case (Cons x xs)
  show ?case
    using Cons [of "i - 1"]
    by (cases i) (auto simp: less_Suc_eq_0_disj)
qed simp

lemma index_of_append:
  "index_of P (xs @ ys) =
     (case index_of P xs of Some i \<Rightarrow> Some i | None \<Rightarrow> map_option (\<lambda>i. length xs + i) (index_of P ys))"
  by (cases "index_of P ys"; induction xs) (auto split: option.splits)

lemma index_of_update:
  assumes "index_of P xs = Some i" "P y"
  shows "index_of P (xs[i := y]) = Some i"
  using assms by (auto simp: index_of_Some)

end
