(* ===== verification/Conntrack.thy ===== *)
theory Conntrack
  imports Packet FlowTable
begin

text \<open>
  \<open>src/tracking/conntrack.c\<close>: a direct-mapped table of 4096 slots, indexed by the wrapping sum of the
  addresses and ports.  \<open>ct_abs\<close> is the abstract connection map; the operations refine map update
  with eviction of the colliding connections, map lookup and removal of the expired connections.
  The result of \<open>time (NULL)\<close> is the argument \<open>now\<close>; the log output is left out.
\<close>

section \<open>State\<close>

record conntrack_entry_t =
  ce_src_addr :: u32
  ce_dst_addr :: u32
  ce_src_port :: u16
  ce_dst_port :: u16
  ce_ttl :: u8
  ce_protocol :: u8
  ce_last_seen :: int
  ce_valid :: bool

definition entry_zero :: conntrack_entry_t where
  "entry_zero =
     \<lparr>ce_src_addr = 0, ce_dst_addr = 0, ce_src_port = 0, ce_dst_port = 0, ce_ttl = 0,
      ce_protocol = 0, ce_last_seen = 0, ce_valid = False\<rparr>"

record conntrack_info_t =
  ci_valid :: bool
  ci_src_addr :: ip_words
  ci_dst_addr :: ip_words
  ci_src_port :: u16
  ci_dst_port :: u16
  ci_ttl :: u8
  ci_protocol :: u8
  ci_last_seen :: int

record conn_state =
  conntrack_table :: "conntrack_entry_t list"
  conntrack_initialized :: bool

definition MAX_CONNECTIONS :: nat where "MAX_CONNECTIONS = 4096"

section \<open>Operations\<close>

definition conntrack_init :: "conn_state \<Rightarrow> int \<times> conn_state" where
  "conntrack_init s =
     (0, \<lparr>conntrack_table = replicate MAX_CONNECTIONS entry_zero, conntrack_initialized = True\<rparr>)"

definition conntrack_cleanup :: "conn_state \<Rightarrow> int \<times> conn_state" where
  "conntrack_cleanup s =
     (0, \<lparr>conntrack_table = replicate MAX_CONNECTIONS entry_zero, conntrack_initialized = False\<rparr>)"

text \<open>The slot of a connection: 32-bit addition wraps around.\<close>

type_synonym conn_key = "u32 \<times> u32 \<times> u16 \<times> u16"

fun conn_hash :: "conn_key \<Rightarrow> nat" where
  "conn_hash (sa, da, sp, dp) = unat ((sa + da + ucast sp + ucast dp :: u32) mod of_nat MAX_CONNECTIONS)"

definition packet_key :: "packet_t \<Rightarrow> conn_key" where
  "packet_key p = (ip0 (p_src_ip p), ip0 (p_dst_ip p), p_src_port p, p_dst_port p)"

definition new_entry :: "int \<Rightarrow> packet_t \<Rightarrow> conntrack_entry_t" where
  "new_entry now p =
     entry_zero\<lparr>ce_valid := True, ce_src_addr := ip0 (p_src_ip p), ce_dst_addr := ip0 (p_dst_ip p),
       ce_src_port := p_src_port p, ce_dst_port := p_dst_port p, ce_ttl := p_ttl p,
       ce_protocol := (if packet_is_tcp (Some p) then IPPROTO_TCP else IPPROTO_UDP),
       ce_last_seen := now\<rparr>"

definition conntrack_add :: "int \<Rightarrow> packet_t option \<Rightarrow> conn_state \<Rightarrow> int \<times> conn_state" where
  "conntrack_add now packet s =
     (case packet of None \<Rightarrow> (-1, s)
      | Some p \<Rightarrow>
          if \<not> conntrack_initialized s then (-1, s)
          else (0, s\<lparr>conntrack_table := (conntrack_table s)[conn_hash (packet_key p) := new_entry now p]\<rparr>))"

text \<open>The pointer that \<open>find_conntrack_entry\<close> returns is the index of its slot.\<close>

definition find_conntrack_entry :: "packet_t option \<Rightarrow> conn_state \<Rightarrow> nat option" where
  "find_conntrack_entry packet s =
     (case packet of None \<Rightarrow> None
      | Some p \<Rightarrow>
          if \<not> conntrack_initialized s then None
          else (let hash = conn_hash (packet_key p); entry = conntrack_table s ! hash in
                if \<not> ce_valid entry then None
                else if ce_src_addr entry = ip0 (p_src_ip p) \<and> ce_dst_addr entry = ip0 (p_dst_ip p) \<and>
                        ce_src_port entry = p_src_port p \<and> ce_dst_port entry = p_dst_port p
                then Some hash
                else None))"

definition conntrack_lookup ::
  "int \<Rightarrow> packet_t option \<Rightarrow> conntrack_info_t option \<Rightarrow> conn_state \<Rightarrow>
   int \<times> conntrack_info_t option \<times> conn_state" where
  "conntrack_lookup now packet info s =
     (case (packet, info) of
        (Some p, Some f) \<Rightarrow>
          if \<not> conntrack_initialized s then (-1, info, s)
          else (case find_conntrack_entry packet s of
                  None \<Rightarrow> (-1, info, s)
                | Some i \<Rightarrow>
                    (let e = (conntrack_table s ! i)\<lparr>ce_last_seen := now\<rparr> in
                     (0, Some (f\<lparr>ci_valid := True,
                           ci_src_addr := (ce_src_addr e, snd (ci_src_addr f)),
                           ci_dst_addr := (ce_dst_addr e, snd (ci_dst_addr f)),
                           ci_src_port := ce_src_port e, ci_dst_port := ce_dst_port e,
                           ci_ttl := ce_ttl e, ci_protocol := ce_protocol e,
                           ci_last_seen := ce_last_seen e\<rparr>),
                      s\<lparr>conntrack_table := (conntrack_table s)[i := e]\<rparr>)))
      | _ \<Rightarrow> (-1, info, s))"

text \<open>The sweep over the slots; \<open>removed\<close> is the running count.\<close>

fun sweep_old :: "int \<Rightarrow> conntrack_entry_t list \<Rightarrow> int \<Rightarrow> int \<times> conntrack_entry_t list" where
  "sweep_old now [] removed = (removed, [])"
| "sweep_old now (e # es) removed =
     (if ce_valid e \<and> now - ce_last_seen e > 300
      then (case sweep_old now es (removed + 1) of (r, es') \<Rightarrow> (r, entry_zero # es'))
      else (case sweep_old now es removed of (r, es') \<Rightarrow> (r, e # es')))"

definition conntrack_cleanup_old :: "int \<Rightarrow> conn_state \<Rightarrow> int \<times> conn_state" where
  "conntrack_cleanup_old now s =
     (if \<not> conntrack_initialized s then (0, s)
      else (case sweep_old now (conntrack_table s) 0 of
              (removed, t) \<Rightarrow> (removed, s\<lparr>conntrack_table := t\<rparr>)))"

section \<open>Invariant\<close>

text \<open>The table has its 4096 slots, a valid entry sits in the slot of its own connection, and before
  initialisation no entry is valid (the static table is zeroed).\<close>

definition entry_key :: "conntrack_entry_t \<Rightarrow> conn_key" where
  "entry_key e = (ce_src_addr e, ce_dst_addr e, ce_src_port e, ce_dst_port e)"

definition ct_wf :: "conn_state \<Rightarrow> bool" where
  "ct_wf s \<longleftrightarrow>
     length (conntrack_table s) = MAX_CONNECTIONS \<and>
     (\<forall>i < length (conntrack_table s). ce_valid (conntrack_table s ! i) \<longrightarrow>
        conntrack_initialized s \<and> conn_hash (entry_key (conntrack_table s ! i)) = i)"

lemma conn_hash_bound [simp]: "conn_hash k < MAX_CONNECTIONS"
  by (cases k) (simp add: MAX_CONNECTIONS_def unat_mod)

lemma entry_zero_simps [simp]: "\<not> ce_valid entry_zero"
  by (simp add: entry_zero_def)

lemma new_entry_simps [simp]:
  "ce_valid (new_entry now p)" "entry_key (new_entry now p) = packet_key p"
  "ce_last_seen (new_entry now p) = now" "ce_ttl (new_entry now p) = p_ttl p"
  by (simp_all add: new_entry_def entry_key_def packet_key_def)

lemma entry_key_seen [simp]: "entry_key (e\<lparr>ce_last_seen := now\<rparr>) = entry_key e"
  by (simp add: entry_key_def)

lemma find_conntrack_entry_Some:
  "find_conntrack_entry (Some p) s =
     (if conntrack_initialized s \<and> ce_valid (conntrack_table s ! conn_hash (packet_key p)) \<and>
         entry_key (conntrack_table s ! conn_hash (packet_key p)) = packet_key p
      then Some (conn_hash (packet_key p)) else None)"
  by (auto simp: find_conntrack_entry_def entry_key_def packet_key_def Let_def)

definition expired :: "int \<Rightarrow> conntrack_entry_t \<Rightarrow> bool" where
  "expired now e \<longleftrightarrow> ce_valid e \<and> now - ce_last_seen e > 300"

lemma sweep_old_eq:
  "sweep_old now es n =
     (n + int (length (filter (expired now) es)), map (\<lambda>e. if expired now e then entry_zero else e) es)"
  by (induction es arbitrary: n) (auto simp: expired_def)

lemma ct_wf_init [simp]: "ct_wf (snd (conntrack_init s))"
  by (simp add: conntrack_init_def ct_wf_def)

lemma ct_wf_cleanup [simp]: "ct_wf (snd (conntrack_cleanup s))"
  by (simp add: conntrack_cleanup_def ct_wf_def)

lemma ct_wf_put:
  "ct_wf s \<Longrightarrow> conntrack_initialized s \<Longrightarrow> ce_valid e \<Longrightarrow>
   ct_wf (s\<lparr>conntrack_table := (conntrack_table s)[conn_hash (entry_key e) := e]\<rparr>)"
  by (auto simp: ct_wf_def nth_list_update)

lemma ct_wf_add: "ct_wf s \<Longrightarrow> ct_wf (snd (conntrack_add now packet s))"
  using ct_wf_put [of s "new_entry now p" for p] by (auto simp: conntrack_add_def split: option.splits)

lemma ct_wf_cleanup_old: "ct_wf s \<Longrightarrow> ct_wf (snd (conntrack_cleanup_old now s))"
  by (auto simp: conntrack_cleanup_old_def sweep_old_eq ct_wf_def)

section \<open>The connection map\<close>

definition ct_abs :: "conn_state \<Rightarrow> conn_key \<Rightarrow> conntrack_entry_t option" where
  "ct_abs s k =
     (let e = conntrack_table s ! conn_hash k in if ce_valid e \<and> entry_key e = k then Some e else None)"

lemma ct_abs_put:
  assumes "ct_wf s" "ce_valid e"
  shows "ct_abs (s\<lparr>conntrack_table := (conntrack_table s)[conn_hash (entry_key e) := e]\<rparr>) =
         (ct_abs s |` {k. conn_hash k \<noteq> conn_hash (entry_key e)})(entry_key e \<mapsto> e)"
proof
  fix k
  have len: "conn_hash (entry_key e) < length (conntrack_table s)"
    using assms(1) by (simp add: ct_wf_def)
  show "ct_abs (s\<lparr>conntrack_table := (conntrack_table s)[conn_hash (entry_key e) := e]\<rparr>) k =
        ((ct_abs s |` {k. conn_hash k \<noteq> conn_hash (entry_key e)})(entry_key e \<mapsto> e)) k"
    using len assms(2) by (auto simp: ct_abs_def Let_def restrict_map_def nth_list_update)
qed

lemma ct_abs_refresh:
  assumes "ct_wf s" "ct_abs s k = Some e"
  shows "ct_abs (s\<lparr>conntrack_table := (conntrack_table s)[conn_hash k := e\<lparr>ce_last_seen := now\<rparr>]\<rparr>) =
         (ct_abs s)(k \<mapsto> e\<lparr>ce_last_seen := now\<rparr>)"
proof
  fix k'
  have e: "ce_valid e" "entry_key e = k" "conntrack_table s ! conn_hash k = e"
    using assms(2) by (auto simp: ct_abs_def Let_def split: if_splits)
  have len: "conn_hash k < length (conntrack_table s)"
    using assms(1) by (simp add: ct_wf_def)
  show "ct_abs (s\<lparr>conntrack_table := (conntrack_table s)[conn_hash k := e\<lparr>ce_last_seen := now\<rparr>]\<rparr>) k' =
        ((ct_abs s)(k \<mapsto> e\<lparr>ce_last_seen := now\<rparr>)) k'"
    using e len by (auto simp: ct_abs_def Let_def nth_list_update)
qed

lemma ct_abs_add:
  assumes "ct_wf s" "conntrack_initialized s"
  shows "ct_abs (snd (conntrack_add now (Some p) s)) =
         (ct_abs s |` {k. conn_hash k \<noteq> conn_hash (packet_key p)})(packet_key p \<mapsto> new_entry now p)"
  using ct_abs_put [OF assms(1), of "new_entry now p"] assms(2) by (simp add: conntrack_add_def)

lemma conntrack_lookup_cases:
  assumes "ct_wf s" "conntrack_initialized s"
  shows "conntrack_lookup now (Some p) (Some f) s =
    (case ct_abs s (packet_key p) of None \<Rightarrow> (-1, Some f, s)
     | Some e \<Rightarrow> (0, Some (f\<lparr>ci_valid := True,
                     ci_src_addr := (ip0 (p_src_ip p), snd (ci_src_addr f)),
                     ci_dst_addr := (ip0 (p_dst_ip p), snd (ci_dst_addr f)),
                     ci_src_port := p_src_port p, ci_dst_port := p_dst_port p,
                     ci_ttl := ce_ttl e, ci_protocol := ce_protocol e, ci_last_seen := now\<rparr>),
                 s\<lparr>conntrack_table := (conntrack_table s)[conn_hash (packet_key p) := e\<lparr>ce_last_seen := now\<rparr>]\<rparr>))"
  using assms(2)
  by (auto simp: conntrack_lookup_def find_conntrack_entry_Some ct_abs_def Let_def
      entry_key_def packet_key_def)

lemma ct_abs_cleanup_old:
  assumes "ct_wf s"
  shows "ct_abs (snd (conntrack_cleanup_old now s)) k =
         (case ct_abs s k of None \<Rightarrow> None | Some e \<Rightarrow> if expired now e then None else Some e)"
proof -
  have "conn_hash k < length (conntrack_table s)" using assms by (simp add: ct_wf_def)
  then show ?thesis
    using assms
    by (auto simp: conntrack_cleanup_old_def sweep_old_eq ct_abs_def Let_def ct_wf_def)
qed

section \<open>The contracts\<close>

interpretation ct_flow: flow_table ct_wf "\<lambda>now p. conntrack_add now (Some p)" "\<lambda>p s. ct_abs s (packet_key p)"
proof unfold_locales
  fix s :: conn_state and t p
  show "ct_wf s \<Longrightarrow> ct_wf (snd (conntrack_add t (Some p) s))" by (rule ct_wf_add)
  show "ct_wf s \<Longrightarrow> fst (conntrack_add t (Some p) s) = 0 \<Longrightarrow>
        ct_abs (snd (conntrack_add t (Some p) s)) (packet_key p) \<noteq> None"
    by (cases "conntrack_initialized s") (simp_all add: ct_abs_add, simp add: conntrack_add_def)
  show "fst (conntrack_add t (Some p) s) \<noteq> 0 \<Longrightarrow> snd (conntrack_add t (Some p) s) = s"
    by (auto simp: conntrack_add_def split: if_splits)
qed

lemma filter_swept:
  "filter ce_valid (map (\<lambda>e. if expired now e then entry_zero else e) es) =
   filter (\<lambda>e. \<not> expired now e) (filter ce_valid es)"
  "filter (expired now) (filter ce_valid es) = filter (expired now) es"
  by (induction es) (auto simp: expired_def)

lemma ct_wf_uninit:
  assumes "ct_wf s" "\<not> conntrack_initialized s"
  shows "filter ce_valid (conntrack_table s) = []"
  using assms by (auto simp: ct_wf_def filter_empty_conv in_set_conv_nth)

interpretation ct_expiry: expiring_table ct_wf "\<lambda>s. filter ce_valid (conntrack_table s)" expired
  conntrack_cleanup_old
proof unfold_locales
  fix s :: conn_state and now later :: int and e
  assume wf: "ct_wf s"
  show "ct_wf (snd (conntrack_cleanup_old now s))" using wf by (rule ct_wf_cleanup_old)
  show "filter ce_valid (conntrack_table (snd (conntrack_cleanup_old now s))) =
        filter (\<lambda>e. \<not> expired now e) (filter ce_valid (conntrack_table s))"
    using ct_wf_uninit [OF wf]
    by (cases "conntrack_initialized s") (simp_all add: conntrack_cleanup_old_def sweep_old_eq filter_swept(1))
  show "fst (conntrack_cleanup_old now s) =
        int (length (filter (expired now) (filter ce_valid (conntrack_table s))))"
    using ct_wf_uninit [OF wf] filter_swept(2) [of now "conntrack_table s"]
    by (cases "conntrack_initialized s") (simp_all add: conntrack_cleanup_old_def sweep_old_eq)
next
  fix now later :: int and e
  show "now \<le> later \<Longrightarrow> expired now e \<Longrightarrow> expired later e" by (simp add: expired_def)
qed

section \<open>Properties\<close>

lemma conntrack_initialized_add [simp]:
  "conntrack_initialized (snd (conntrack_add t packet s)) = conntrack_initialized s"
  by (simp add: conntrack_add_def split: option.split)

lemma conntrack_init_add:
  "conntrack_initialized (fold (\<lambda>(t, p) s. snd (conntrack_add t (Some p) s)) h s) = conntrack_initialized s"
  by (induction h arbitrary: s) (simp_all add: case_prod_unfold)

lemma conntrack_initialised [simp]: "conntrack_initialized (snd (conntrack_init s))"
  by (simp add: conntrack_init_def)

lemma conntrack_add_ok: "conntrack_initialized s \<Longrightarrow> fst (conntrack_add now (Some p) s) = 0"
  by (simp add: conntrack_add_def)

lemma ct_lookup_refines:
  assumes "ct_wf s" "conntrack_initialized s"
  shows "case conntrack_lookup now (Some p) (Some f) s of (r, info, s') \<Rightarrow>
           ct_wf s' \<and>
           (case ct_abs s (packet_key p) of
              None \<Rightarrow> r = -1 \<and> info = Some f \<and> s' = s
            | Some e \<Rightarrow> r = 0 \<and>
                info = Some (f\<lparr>ci_valid := True,
                  ci_src_addr := (ce_src_addr e, snd (ci_src_addr f)), ci_dst_addr := (ce_dst_addr e, snd (ci_dst_addr f)),
                  ci_src_port := ce_src_port e, ci_dst_port := ce_dst_port e,
                  ci_ttl := ce_ttl e, ci_protocol := ce_protocol e, ci_last_seen := now\<rparr>) \<and>
                ct_abs s' = (ct_abs s)(packet_key p \<mapsto> e\<lparr>ce_last_seen := now\<rparr>))"
proof (cases "ct_abs s (packet_key p)")
  case None
  then show ?thesis using conntrack_lookup_cases [OF assms] assms(1) by simp
next
  case (Some e)
  then have "ce_valid e" "entry_key e = packet_key p"
    by (auto simp: ct_abs_def Let_def split: if_splits)
  then have "ct_wf (s\<lparr>conntrack_table := (conntrack_table s)[conn_hash (packet_key p) := e\<lparr>ce_last_seen := now\<rparr>]\<rparr>)"
    using ct_wf_put [OF assms, of "e\<lparr>ce_last_seen := now\<rparr>"] by simp
  moreover have "ip0 (p_src_ip p) = ce_src_addr e" "ip0 (p_dst_ip p) = ce_dst_addr e"
    "p_src_port p = ce_src_port e" "p_dst_port p = ce_dst_port e"
    using \<open>entry_key e = packet_key p\<close> by (auto simp: entry_key_def packet_key_def)
  ultimately show ?thesis
    using Some conntrack_lookup_cases [OF assms] ct_abs_refresh [OF assms(1) Some] by simp
qed

lemma ct_cleanup_refines:
  assumes "ct_wf s"
  shows "ct_abs (snd (conntrack_cleanup_old now s)) k =
           (case ct_abs s k of None \<Rightarrow> None | Some e \<Rightarrow> if now - ce_last_seen e > 300 then None else Some e)"
  using ct_abs_cleanup_old [OF assms]
  by (auto simp: expired_def ct_abs_def Let_def split: option.splits if_splits)

text \<open>
  C9. The direct-mapped table refines a map from connections to entries.  In a well-formed,
  initialised table, \<open>conntrack_add\<close> succeeds, maps the connection of the packet to a fresh entry and evicts
  exactly the connections of the same slot; \<open>conntrack_lookup\<close> fills the caller's
  structure with the mapped entry - marked valid, with the entry's addresses in their IPv4 words, its ports, TTL and
  protocol and the current time -, refreshes the time stamp of that entry and changes nothing else, and it fails
  without effect when there is none; \<open>conntrack_cleanup_old\<close> removes exactly
  the connections not seen for more than 300 seconds.  Each keeps the table well formed.
\<close>

theorem conntrack_refines_map:
  assumes "ct_wf s" "conntrack_initialized s"
  shows "fst (conntrack_add now (Some p) s) = 0 \<and> ct_wf (snd (conntrack_add now (Some p) s)) \<and>
         ct_abs (snd (conntrack_add now (Some p) s)) =
           (ct_abs s |` {k. conn_hash k \<noteq> conn_hash (packet_key p)})(packet_key p \<mapsto> new_entry now p) \<and>
         (case conntrack_lookup now (Some p) (Some f) s of (r, info, s') \<Rightarrow>
           ct_wf s' \<and>
           (case ct_abs s (packet_key p) of
              None \<Rightarrow> r = -1 \<and> info = Some f \<and> s' = s
            | Some e \<Rightarrow> r = 0 \<and>
                info = Some (f\<lparr>ci_valid := True,
                  ci_src_addr := (ce_src_addr e, snd (ci_src_addr f)), ci_dst_addr := (ce_dst_addr e, snd (ci_dst_addr f)),
                  ci_src_port := ce_src_port e, ci_dst_port := ce_dst_port e,
                  ci_ttl := ce_ttl e, ci_protocol := ce_protocol e, ci_last_seen := now\<rparr>) \<and>
                ct_abs s' = (ct_abs s)(packet_key p \<mapsto> e\<lparr>ce_last_seen := now\<rparr>))) \<and>
         ct_wf (snd (conntrack_cleanup_old now s)) \<and>
         ct_abs (snd (conntrack_cleanup_old now s)) k =
           (case ct_abs s k of None \<Rightarrow> None | Some e \<Rightarrow> if now - ce_last_seen e > 300 then None else Some e)"
  by (intro conjI conntrack_add_ok ct_wf_add ct_abs_add ct_lookup_refines ct_wf_cleanup_old
      ct_cleanup_refines assms)

definition one_connection :: conn_state where
  "one_connection = snd (conntrack_add 7 (Some packet_zero)
     (snd (conntrack_init \<lparr>conntrack_table = [], conntrack_initialized = False\<rparr>)))"

lemma one_connection:
  "ct_wf one_connection" "conntrack_initialized one_connection"
  "ct_abs one_connection (packet_key packet_zero) = Some (new_entry 7 packet_zero)"
  by (simp_all add: one_connection_def ct_wf_add ct_wf_init ct_abs_add)

lemma new_entry_zero:
  "new_entry t packet_zero = entry_zero\<lparr>ce_valid := True, ce_protocol := 17, ce_last_seen := t\<rparr>"
  by (simp add: new_entry_def packet_zero_def packet_is_tcp_def IPPROTO_UDP_def entry_zero_def)

definition stale_info :: conntrack_info_t where
  "stale_info = \<lparr>ci_valid = False, ci_src_addr = (1, 2, 3, 4), ci_dst_addr = (5, 6, 7, 8), ci_src_port = 9,
     ci_dst_port = 10, ci_ttl = 11, ci_protocol = 12, ci_last_seen = 0\<rparr>"

theorem conntrack_refines_map_witness:
  "case conntrack_lookup 9 (Some packet_zero) (Some stale_info) one_connection of (r, info, s') \<Rightarrow>
     r = 0 \<and> info = Some \<lparr>ci_valid = True, ci_src_addr = (0, 2, 3, 4), ci_dst_addr = (0, 6, 7, 8), ci_src_port = 0,
                          ci_dst_port = 0, ci_ttl = 0, ci_protocol = 17, ci_last_seen = 9\<rparr> \<and>
     ct_abs s' (packet_key packet_zero) = Some (new_entry 9 packet_zero)"
  using conntrack_refines_map [OF one_connection(1,2), of 9 packet_zero stale_info] one_connection(3)
  by (cases "conntrack_lookup 9 (Some packet_zero) (Some stale_info) one_connection")
    (simp add: new_entry_zero, simp add: stale_info_def entry_zero_def)

text \<open>
  Whatever was recorded since \<open>conntrack_init\<close>, a packet that is added is found by the next
  \<open>conntrack_lookup\<close>, with its own TTL and protocol; and it stays found when a packet of another slot is
  added after it.
\<close>

theorem conntrack_last_added_found:
  "case conntrack_lookup now (Some p) (Some f)
          (snd (conntrack_add t (Some p)
             (fold (\<lambda>(t, p) s. snd (conntrack_add t (Some p) s)) h (snd (conntrack_init s0))))) of
     (r, info, s') \<Rightarrow>
       r = 0 \<and> map_option ci_ttl info = Some (p_ttl p) \<and>
       map_option ci_protocol info = Some (if packet_is_tcp (Some p) then 6 else 17) \<and>
       (conn_hash (packet_key q) = conn_hash (packet_key p) \<or>
        ct_abs (snd (conntrack_add u (Some q) s')) (packet_key p) = Some (new_entry now p))"
proof -
  define s where "s = fold (\<lambda>(t, p) s. snd (conntrack_add t (Some p) s)) h (snd (conntrack_init s0))"
  have s: "ct_wf s" "conntrack_initialized s"
    unfolding s_def using ct_flow.history_inv [OF ct_wf_init] by (simp_all add: conntrack_init_add)
  define s1 where "s1 = snd (conntrack_add t (Some p) s)"
  have s1: "ct_wf s1" "conntrack_initialized s1"
    unfolding s1_def using s by (simp_all add: ct_wf_add)
  have abs1: "ct_abs s1 (packet_key p) = Some (new_entry t p)"
    using s by (simp add: s1_def ct_abs_add)
  define s2 where "s2 = s1\<lparr>conntrack_table := (conntrack_table s1)[conn_hash (packet_key p) := new_entry now p]\<rparr>"
  have s2: "ct_wf s2" "conntrack_initialized s2" "ct_abs s2 (packet_key p) = Some (new_entry now p)"
    using ct_wf_put [OF s1, of "new_entry now p"] ct_abs_put [OF s1(1), of "new_entry now p"] s1(2)
    by (simp_all add: s2_def)
  have upd: "(new_entry t p)\<lparr>ce_last_seen := now\<rparr> = new_entry now p"
    and proto: "ce_protocol (new_entry t p) = (if packet_is_tcp (Some p) then 6 else 17)"
    by (simp_all add: new_entry_def IPPROTO_TCP_def IPPROTO_UDP_def)
  have "conn_hash (packet_key q) = conn_hash (packet_key p) \<or>
        ct_abs (snd (conntrack_add u (Some q) s2)) (packet_key p) = Some (new_entry now p)"
    using s2(3) ct_abs_add [OF s2(1,2), of u q] by (auto simp: restrict_map_def)
  then show ?thesis
    using conntrack_lookup_cases [OF s1, of now p f] abs1
    unfolding s_def [symmetric] s1_def [symmetric]
    by (simp add: upd proto s2_def [symmetric])
qed

end
