(* ===== verification/TtlTracker.thy ===== *)
theory TtlTracker
  imports Packet FlowTable
begin

text \<open>
  \<open>src/tracking/ttl_tracker.c\<close>: the table of TCP flows whose TTL is being learned.  The state is the list of
  the \<open>ttl_table_size\<close> live entries of the static array: the slots behind them are never read before
  they are cleared.  The \<open>k\<close>-th result of \<open>time (NULL)\<close> within a call is \<open>time k\<close>; the log output is left out.
\<close>

section \<open>State\<close>

record ttl_track_entry_t =
  te_src_ip :: ip_words
  te_dst_ip :: ip_words
  te_src_port :: u16
  te_dst_port :: u16
  te_protocol :: u8
  te_original_ttl :: u8
  te_min_ttl :: u8
  te_max_ttl :: u8
  te_ttl_delta :: u8
  te_first_seen :: int
  te_last_seen :: int
  te_packet_count :: u32
  te_is_established :: bool

type_synonym ttl_table = "ttl_track_entry_t list"

definition ttl_entry_zero :: ttl_track_entry_t where
  "ttl_entry_zero =
     \<lparr>te_src_ip = (0, 0, 0, 0), te_dst_ip = (0, 0, 0, 0), te_src_port = 0, te_dst_port = 0,
      te_protocol = 0, te_original_ttl = 0, te_min_ttl = 0, te_max_ttl = 0, te_ttl_delta = 0,
      te_first_seen = 0, te_last_seen = 0, te_packet_count = 0, te_is_established = False\<rparr>"

definition MAX_TTL_ENTRIES :: nat where "MAX_TTL_ENTRIES = 1024"
definition TTL_LEARNING_PACKETS :: u32 where "TTL_LEARNING_PACKETS = 10"
definition TTL_LEARNING_TIMEOUT :: int where "TTL_LEARNING_TIMEOUT = 30"
definition TTL_ESTABLISHED_TIMEOUT :: int where "TTL_ESTABLISHED_TIMEOUT = 300"

section \<open>Operations\<close>

definition ttl_tracker_init :: "ttl_table \<Rightarrow> int \<times> ttl_table" where
  "ttl_tracker_init t = (0, [])"

definition ttl_tracker_cleanup :: "ttl_table \<Rightarrow> int \<times> ttl_table" where
  "ttl_tracker_cleanup t = (0, [])"

definition ttl_match :: "ttl_track_entry_t \<Rightarrow> packet_t \<Rightarrow> bool" where
  "ttl_match e p =
     (if \<not> p_is_ipv6 p
      then (ip0 (te_src_ip e) = ip0 (p_src_ip p) \<and> ip0 (te_dst_ip e) = ip0 (p_dst_ip p) \<and>
            te_src_port e = p_src_port p \<and> te_dst_port e = p_dst_port p \<and> te_protocol e = IPPROTO_TCP) \<or>
           (ip0 (te_src_ip e) = ip0 (p_dst_ip p) \<and> ip0 (te_dst_ip e) = ip0 (p_src_ip p) \<and>
            te_src_port e = p_dst_port p \<and> te_dst_port e = p_src_port p \<and> te_protocol e = IPPROTO_TCP)
      else (te_src_ip e = p_src_ip p \<and> te_dst_ip e = p_dst_ip p \<and>
            te_src_port e = p_src_port p \<and> te_dst_port e = p_dst_port p \<and> te_protocol e = IPPROTO_TCP) \<or>
           (te_src_ip e = p_dst_ip p \<and> te_dst_ip e = p_src_ip p \<and>
            te_src_port e = p_dst_port p \<and> te_dst_port e = p_src_port p \<and> te_protocol e = IPPROTO_TCP))"

text \<open>The scan of the table: the index of the first match.  A null packet is dereferenced at the first
  entry in use.\<close>

fun find_ttl_loop :: "packet_t option \<Rightarrow> ttl_table \<Rightarrow> nat \<Rightarrow> nat option cres" where
  "find_ttl_loop packet [] i = Inr None"
| "find_ttl_loop packet (e # es) i =
     (if te_protocol e = 0 then find_ttl_loop packet es (i + 1)
      else bindC (deref packet) (\<lambda>p.
        if ttl_match e p then Inr (Some i) else find_ttl_loop packet es (i + 1)))"

definition find_ttl_entry :: "packet_t option \<Rightarrow> ttl_table \<Rightarrow> nat option cres" where
  "find_ttl_entry packet t = find_ttl_loop packet t 0"

text \<open>The update of an entry in the learning phase, and of a found entry.\<close>

definition learn :: "u8 \<Rightarrow> ttl_track_entry_t \<Rightarrow> ttl_track_entry_t" where
  "learn ttl e =
     (let e1 = (if ttl < te_min_ttl e \<or> te_min_ttl e = 0 then e\<lparr>te_min_ttl := ttl\<rparr> else e);
          e2 = (if ttl > te_max_ttl e1 \<or> te_max_ttl e1 = 0 then e1\<lparr>te_max_ttl := ttl\<rparr> else e1);
          e3 = (if te_original_ttl e2 = 0 then e2\<lparr>te_original_ttl := ttl\<rparr> else e2);
          e4 = e3\<lparr>te_ttl_delta := te_original_ttl e3 - ttl\<rparr>
      in if te_packet_count e4 \<ge> TTL_LEARNING_PACKETS then e4\<lparr>te_is_established := True\<rparr> else e4)"

definition update_entry :: "int \<Rightarrow> u8 \<Rightarrow> ttl_track_entry_t \<Rightarrow> ttl_track_entry_t" where
  "update_entry now ttl e =
     (let e1 = e\<lparr>te_last_seen := now, te_packet_count := te_packet_count e + 1\<rparr> in
      if \<not> te_is_established e1 then learn ttl e1 else e1)"

text \<open>The scan for the oldest entry that is not established.\<close>

fun oldest_learning :: "ttl_table \<Rightarrow> nat \<Rightarrow> int \<Rightarrow> nat option \<Rightarrow> nat option" where
  "oldest_learning [] i oldest found = found"
| "oldest_learning (e # es) i oldest found =
     (if \<not> te_is_established e \<and> te_last_seen e < oldest
      then oldest_learning es (i + 1) (te_last_seen e) (Some i)
      else oldest_learning es (i + 1) oldest found)"

definition fresh_entry :: "int \<Rightarrow> u8 \<Rightarrow> packet_t \<Rightarrow> ttl_track_entry_t" where
  "fresh_entry now ttl p =
     (let e = (if \<not> p_is_ipv6 p
               then ttl_entry_zero\<lparr>te_src_ip := (ip0 (p_src_ip p), 0, 0, 0),
                                   te_dst_ip := (ip0 (p_dst_ip p), 0, 0, 0)\<rparr>
               else ttl_entry_zero\<lparr>te_src_ip := p_src_ip p, te_dst_ip := p_dst_ip p\<rparr>)
      in e\<lparr>te_src_port := p_src_port p, te_dst_port := p_dst_port p, te_protocol := IPPROTO_TCP,
           te_original_ttl := ttl, te_min_ttl := ttl, te_max_ttl := ttl,
           te_first_seen := now, te_last_seen := now, te_packet_count := 1,
           te_is_established := False\<rparr>)"

definition ttl_track_update ::
  "(nat \<Rightarrow> int) \<Rightarrow> packet_t option \<Rightarrow> u8 \<Rightarrow> ttl_table \<Rightarrow> (int \<times> ttl_table) cres" where
  "ttl_track_update time packet ttl t =
     (case packet of None \<Rightarrow> Inr (-1, t)
      | Some p \<Rightarrow>
          if p_type p \<noteq> PACKET_IPV4_TCP \<and> p_type p \<noteq> PACKET_IPV6_TCP then Inr (-1, t)
          else bindC (find_ttl_entry packet t) (\<lambda>found.
            case found of
              Some i \<Rightarrow> Inr (0, t[i := update_entry (time 0) ttl (t ! i)])
            | None \<Rightarrow>
                if length t < MAX_TTL_ENTRIES then Inr (0, t @ [fresh_entry (time 0) ttl p])
                else (case oldest_learning t 0 (time 0) None of
                        None \<Rightarrow> Inr (-1, t)
                      | Some i \<Rightarrow> Inr (0, t[i := fresh_entry (time 1) ttl p]))))"

definition ttl_get_auto_ttl :: "u8 \<Rightarrow> u8 \<Rightarrow> u8 \<Rightarrow> u8 \<Rightarrow> u8 \<Rightarrow> u8" where
  "ttl_get_auto_ttl connection_ttl ttl_1 ttl_2 ttl_min ttl_max =
     (let distance = ttl_1 - connection_ttl;
          distance = (if distance > ttl_2 then ttl_2 else distance);
          fake_ttl = ttl_1 - distance;
          fake_ttl = (if fake_ttl < ttl_min then ttl_min else fake_ttl);
          fake_ttl = (if fake_ttl > ttl_max then ttl_max else fake_ttl)
      in fake_ttl)"

definition ttl_get_delta :: "packet_t option \<Rightarrow> ttl_table \<Rightarrow> int cres" where
  "ttl_get_delta packet t =
     bindC (find_ttl_entry packet t) (\<lambda>found.
       case found of None \<Rightarrow> Inr (-1)
       | Some i \<Rightarrow> if te_is_established (t ! i) then Inr (uint (te_ttl_delta (t ! i))) else Inr (-1))"

text \<open>\<open>ttl_tracker_cleanup_expired\<close> shifts the entries behind a removed one down by one; \<open>expire_loop i\<close> is the
  loop at index \<open>i\<close>.\<close>

definition ttl_timed_out :: "int \<Rightarrow> ttl_track_entry_t \<Rightarrow> bool" where
  "ttl_timed_out now e \<longleftrightarrow>
     now - te_last_seen e >
       (if te_is_established e then TTL_ESTABLISHED_TIMEOUT else TTL_LEARNING_TIMEOUT)"

function expire_loop :: "int \<Rightarrow> nat \<Rightarrow> ttl_table \<Rightarrow> int \<Rightarrow> int \<times> ttl_table" where
  "expire_loop now i t removed =
     (if i < length t
      then if ttl_timed_out now (t ! i)
           then expire_loop now i (take i t @ drop (i + 1) t) (removed + 1)
           else expire_loop now (i + 1) t removed
      else (removed, t))"
  by pat_completeness auto
termination
  by (relation "measure (\<lambda>(now, i, t, removed). length t - i)") auto

definition ttl_tracker_cleanup_expired :: "int \<Rightarrow> ttl_table \<Rightarrow> int \<times> ttl_table" where
  "ttl_tracker_cleanup_expired now t = expire_loop now 0 t 0"

fun count_established :: "ttl_table \<Rightarrow> size_t \<Rightarrow> size_t" where
  "count_established [] established = established"
| "count_established (e # es) established =
     count_established es (if te_is_established e then established + 1 else established)"

text \<open>The two out parameters, each possibly null.\<close>

definition ttl_tracker_get_stats ::
  "size_t option \<Rightarrow> size_t option \<Rightarrow> ttl_table \<Rightarrow> size_t option \<times> size_t option" where
  "ttl_tracker_get_stats total_entries established_entries t =
     (map_option (\<lambda>_. of_nat (length t)) total_entries,
      map_option (\<lambda>_. count_established t 0) established_entries)"

definition ttl_is_ready :: "packet_t option \<Rightarrow> ttl_table \<Rightarrow> bool cres" where
  "ttl_is_ready packet t =
     bindC (find_ttl_entry packet t) (\<lambda>found.
       case found of None \<Rightarrow> Inr False | Some i \<Rightarrow> Inr (te_is_established (t ! i)))"

section \<open>Invariant\<close>

text \<open>A flow is its two end points, in either order.\<close>

definition flow_id :: "ttl_track_entry_t \<Rightarrow> ((ip_words \<times> u16) \<times> (ip_words \<times> u16)) set" where
  "flow_id e =
     {((te_src_ip e, te_src_port e), (te_dst_ip e, te_dst_port e)),
      ((te_dst_ip e, te_dst_port e), (te_src_ip e, te_src_port e))}"

definition ttl_entry_ok :: "ttl_track_entry_t \<Rightarrow> bool" where
  "ttl_entry_ok e \<longleftrightarrow>
     te_protocol e = IPPROTO_TCP \<and> te_min_ttl e \<le> te_max_ttl e \<and>
     (\<not> te_is_established e \<longrightarrow> 1 \<le> te_packet_count e \<and> te_packet_count e < TTL_LEARNING_PACKETS)"

definition ttl_wf :: "ttl_table \<Rightarrow> bool" where
  "ttl_wf t \<longleftrightarrow> length t \<le> MAX_TTL_ENTRIES \<and> (\<forall>e \<in> set t. ttl_entry_ok e) \<and> distinct (map flow_id t)"

lemmas ttl_consts = MAX_TTL_ENTRIES_def TTL_LEARNING_PACKETS_def TTL_LEARNING_TIMEOUT_def
  TTL_ESTABLISHED_TIMEOUT_def IPPROTO_TCP_def

declare expire_loop.simps [simp del]

lemma find_ttl_loop_eq:
  "find_ttl_loop (Some p) es i = Inr (map_option (\<lambda>k. i + k) (index_of (\<lambda>e. ttl_match e p) es))"
proof (induction es arbitrary: i)
  case (Cons e es)
  have "te_protocol e = 0 \<Longrightarrow> \<not> ttl_match e p"
    by (simp add: ttl_match_def IPPROTO_TCP_def)
  then show ?case
    by (auto simp: Cons option.map_comp comp_def)
qed simp

lemma find_ttl_entry_eq: "find_ttl_entry (Some p) t = Inr (index_of (\<lambda>e. ttl_match e p) t)"
  by (simp add: find_ttl_entry_def find_ttl_loop_eq option.map_ident)

text \<open>What an update keeps of an entry.\<close>

lemma learn_keeps [simp]:
  "te_src_ip (learn ttl e) = te_src_ip e" "te_dst_ip (learn ttl e) = te_dst_ip e"
  "te_src_port (learn ttl e) = te_src_port e" "te_dst_port (learn ttl e) = te_dst_port e"
  "te_protocol (learn ttl e) = te_protocol e" "te_packet_count (learn ttl e) = te_packet_count e"
  "te_last_seen (learn ttl e) = te_last_seen e"
  by (simp_all add: learn_def Let_def)

lemma update_keeps [simp]:
  "te_src_ip (update_entry now ttl e) = te_src_ip e" "te_dst_ip (update_entry now ttl e) = te_dst_ip e"
  "te_src_port (update_entry now ttl e) = te_src_port e" "te_dst_port (update_entry now ttl e) = te_dst_port e"
  "te_protocol (update_entry now ttl e) = te_protocol e"
  "te_packet_count (update_entry now ttl e) = te_packet_count e + 1"
  "te_last_seen (update_entry now ttl e) = now"
  by (simp_all add: update_entry_def Let_def)

lemma update_match [simp]: "ttl_match (update_entry now ttl e) p = ttl_match e p"
  by (simp add: ttl_match_def)

lemma update_flow [simp]: "flow_id (update_entry now ttl e) = flow_id e"
  by (simp add: flow_id_def)

lemma fresh_match [simp]: "ttl_match (fresh_entry now ttl p) p"
  by (simp add: ttl_match_def fresh_entry_def Let_def)

lemma fresh_simps [simp]:
  "te_protocol (fresh_entry now ttl p) = IPPROTO_TCP" "te_packet_count (fresh_entry now ttl p) = 1"
  "te_min_ttl (fresh_entry now ttl p) = ttl" "te_max_ttl (fresh_entry now ttl p) = ttl"
  "te_original_ttl (fresh_entry now ttl p) = ttl" "\<not> te_is_established (fresh_entry now ttl p)"
  "te_last_seen (fresh_entry now ttl p) = now"
  by (simp_all add: fresh_entry_def Let_def)

lemma flow_id_eq:
  "flow_id e = flow_id f \<longleftrightarrow>
     (te_src_ip e, te_src_port e, te_dst_ip e, te_dst_port e) = (te_src_ip f, te_src_port f, te_dst_ip f, te_dst_port f) \<or>
     (te_src_ip e, te_src_port e, te_dst_ip e, te_dst_port e) = (te_dst_ip f, te_dst_port f, te_src_ip f, te_src_port f)"
  unfolding flow_id_def doubleton_eq_iff by auto

lemma fresh_flow:
  assumes "te_protocol e = IPPROTO_TCP" "\<not> ttl_match e p"
  shows "flow_id e \<noteq> flow_id (fresh_entry now ttl p)"
  using assms by (auto simp: flow_id_eq ttl_match_def fresh_entry_def Let_def split: if_splits)

lemma fresh_ok [simp]: "ttl_entry_ok (fresh_entry now ttl p)"
  by (simp add: ttl_entry_ok_def ttl_consts)

lemma learn_min_max:
  "te_min_ttl e \<le> te_max_ttl e \<Longrightarrow> te_min_ttl (learn ttl e) \<le> te_max_ttl (learn ttl e)"
  by (auto simp: learn_def Let_def)

lemma learn_est:
  "te_is_established (learn ttl e) \<longleftrightarrow> te_is_established e \<or> TTL_LEARNING_PACKETS \<le> te_packet_count e"
  by (simp add: learn_def Let_def)

lemma update_ok: "ttl_entry_ok e \<Longrightarrow> ttl_entry_ok (update_entry now ttl e)"
proof -
  assume ok: "ttl_entry_ok e"
  have "te_min_ttl (update_entry now ttl e) \<le> te_max_ttl (update_entry now ttl e)"
    using ok by (auto simp: ttl_entry_ok_def update_entry_def Let_def intro!: learn_min_max)
  moreover have "\<not> te_is_established (update_entry now ttl e) \<Longrightarrow>
      1 \<le> te_packet_count e + 1 \<and> te_packet_count e + 1 < TTL_LEARNING_PACKETS"
    using ok by (auto simp: ttl_entry_ok_def update_entry_def Let_def learn_est ttl_consts
        word_le_nat_alt word_less_nat_alt unat_word_ariths split: if_splits)
  ultimately show ?thesis
    using ok by (simp add: ttl_entry_ok_def)
qed

text \<open>The victim of a replacement.\<close>

lemma oldest_learning_spec:
  "oldest_learning es i oldest found = Some k \<Longrightarrow>
   found = Some k \<or> (i \<le> k \<and> k < i + length es \<and> \<not> te_is_established (es ! (k - i)) \<and> te_last_seen (es ! (k - i)) < oldest)"
proof (induction es arbitrary: i oldest found)
  case (Cons e es)
  show ?case
  proof (cases "\<not> te_is_established e \<and> te_last_seen e < oldest")
    case True
    with Cons.prems have "oldest_learning es (i + 1) (te_last_seen e) (Some i) = Some k" by simp
    from Cons.IH [OF this] show ?thesis
      using True by (auto simp: nth_Cons' less_Suc_eq_le)
  next
    case False
    with Cons.prems have "oldest_learning es (i + 1) oldest found = Some k" by (simp split: if_splits)
    from Cons.IH [OF this] show ?thesis
      by (auto simp: nth_Cons')
  qed
qed simp

lemma oldest_learning_found:
  "oldest_learning es i oldest found = None \<longleftrightarrow>
   found = None \<and> (\<forall>e\<in>set es. te_is_established e \<or> oldest \<le> te_last_seen e)"
  by (induction es arbitrary: i oldest found) auto

lemma oldest_learning_least:
  assumes "oldest_learning es i oldest found = Some k" "\<And>j. found = Some j \<Longrightarrow> j < i"
    and "e \<in> set es" "\<not> te_is_established e"
  shows "(if i \<le> k then te_last_seen (es ! (k - i)) else oldest) \<le> te_last_seen e"
  using assms
proof (induction es arbitrary: i oldest found)
  case (Cons x es)
  show ?case
  proof (cases "\<not> te_is_established x \<and> te_last_seen x < oldest")
    case True
    with Cons.prems(1) have o: "oldest_learning es (i + 1) (te_last_seen x) (Some i) = Some k" by simp
    have "i = k \<or> (i + 1 \<le> k \<and> te_last_seen (es ! (k - (i + 1))) < te_last_seen x)"
      using oldest_learning_spec [OF o] by auto
    then show ?thesis
      using Cons.IH [OF o] Cons.prems(3,4) by (auto simp: nth_Cons')
  next
    case False
    with Cons.prems(1) have o: "oldest_learning es (i + 1) oldest found = Some k" by (simp split: if_splits)
    have "k < i \<or> (i + 1 \<le> k \<and> te_last_seen (es ! (k - (i + 1))) < oldest)"
      using oldest_learning_spec [OF o] Cons.prems(2) by auto
    moreover have "e \<in> set es \<Longrightarrow> (if i + 1 \<le> k then te_last_seen (es ! (k - (i + 1))) else oldest) \<le> te_last_seen e"
      using Cons.IH [OF o] Cons.prems(2,4) less_SucI by (metis Suc_eq_plus1)
    ultimately show ?thesis
      using Cons.prems(3,4) False by (auto simp: nth_Cons' split: if_splits)
  qed
qed simp

section \<open>The operations keep the invariant\<close>

lemma ttl_update_cases:
  assumes "ttl_track_update time (Some p) ttl t = Inr (r, t')"
  obtains (refused) "r = -1" "t' = t"
    | (updated) i where "r = 0" "index_of (\<lambda>e. ttl_match e p) t = Some i"
        "t' = t[i := update_entry (time 0) ttl (t ! i)]"
    | (added) "r = 0" "index_of (\<lambda>e. ttl_match e p) t = None" "length t < MAX_TTL_ENTRIES"
        "t' = t @ [fresh_entry (time 0) ttl p]"
    | (replaced) i where "r = 0" "index_of (\<lambda>e. ttl_match e p) t = None" "MAX_TTL_ENTRIES \<le> length t"
        "oldest_learning t 0 (time 0) None = Some i" "t' = t[i := fresh_entry (time 1) ttl p]"
proof (cases "p_type p \<noteq> PACKET_IPV4_TCP \<and> p_type p \<noteq> PACKET_IPV6_TCP")
  case True
  then have "r = -1" "t' = t" using assms by (auto simp: ttl_track_update_def)
  then show ?thesis by (rule refused)
next
  case tcp: False
  show ?thesis
  proof (cases "index_of (\<lambda>e. ttl_match e p) t")
    case (Some i)
    then have "r = 0" "t' = t[i := update_entry (time 0) ttl (t ! i)]"
      using assms tcp by (auto simp: ttl_track_update_def find_ttl_entry_eq)
    then show ?thesis by (rule updated [OF _ Some])
  next
    case None
    show ?thesis
    proof (cases "length t < MAX_TTL_ENTRIES")
      case True
      then have "r = 0" "t' = t @ [fresh_entry (time 0) ttl p]"
        using assms tcp None by (auto simp: ttl_track_update_def find_ttl_entry_eq)
      then show ?thesis by (rule added [OF _ None True])
    next
      case full: False
      show ?thesis
      proof (cases "oldest_learning t 0 (time 0) None")
        case no_victim: None
        then have "r = -1" "t' = t"
          using assms tcp None full by (auto simp: ttl_track_update_def find_ttl_entry_eq)
        then show ?thesis by (rule refused)
      next
        case (Some i)
        then have "r = 0" "t' = t[i := fresh_entry (time 1) ttl p]"
          using assms tcp None full by (auto simp: ttl_track_update_def find_ttl_entry_eq)
        then show ?thesis using replaced [OF _ None _ Some] full by simp
      qed
    qed
  qed
qed

lemma ttl_update_defined: "\<exists>r t'. ttl_track_update time (Some p) ttl t = Inr (r, t')"
  by (auto simp: ttl_track_update_def find_ttl_entry_eq split: option.split)

lemma distinct_replace:
  "distinct (map f xs) \<Longrightarrow> \<forall>x\<in>set xs. f x \<noteq> f y \<Longrightarrow> distinct (map f (xs[i := y]))"
  by (cases "i < length xs") (force simp: map_update intro!: distinct_list_update)+

lemma ttl_wf_update:
  assumes wf: "ttl_wf t" and "ttl_track_update time (Some p) ttl t = Inr (r, t')"
  shows "ttl_wf t'"
  using assms(2)
proof (cases rule: ttl_update_cases)
  case refused
  then show ?thesis using wf by simp
next
  case (updated i)
  then have i: "i < length t" by (simp add: index_of_Some)
  then have "map flow_id t' = map flow_id t"
    by (simp add: updated map_update) (metis list_update_id map_update nth_map)
  then show ?thesis
    using wf i by (auto simp: ttl_wf_def updated intro: update_ok dest!: set_update_subset_insert [THEN subsetD])
next
  case added
  then have "\<forall>e\<in>set t. flow_id e \<noteq> flow_id (fresh_entry (time 0) ttl p)"
    using wf fresh_flow by (auto simp: index_of_None ttl_wf_def ttl_entry_ok_def)
  then show ?thesis
    using wf added by (auto simp: ttl_wf_def)
next
  case (replaced i)
  then have "\<forall>e\<in>set t. flow_id e \<noteq> flow_id (fresh_entry (time 1) ttl p)"
    using wf fresh_flow by (auto simp: index_of_None ttl_wf_def ttl_entry_ok_def)
  then show ?thesis
    using wf replaced distinct_replace [of flow_id t "fresh_entry (time 1) ttl p" i]
    by (auto simp: ttl_wf_def dest!: set_update_subset_insert [THEN subsetD])
qed

lemma expire_loop_eq:
  "expire_loop now i t removed =
     (removed + int (length (filter (ttl_timed_out now) (drop i t))),
      take i t @ filter (\<lambda>e. \<not> ttl_timed_out now e) (drop i t))"
proof (induction now i t removed rule: expire_loop.induct)
  case (1 now i t removed)
  show ?case
  proof (cases "i < length t")
    case True
    then have d: "drop i t = t ! i # drop (Suc i) t" "take (Suc i) t = take i t @ [t ! i]"
      by (simp_all add: Cons_nth_drop_Suc take_Suc_conv_app_nth)
    have [simp]: "min (length t) i = i" using True by simp
    show ?thesis
      using 1 True by (subst expire_loop.simps) (simp add: d)
  next
    case False
    then show ?thesis by (subst expire_loop.simps) simp
  qed
qed

lemma ttl_cleanup_expired_eq:
  "ttl_tracker_cleanup_expired now t =
     (int (length (filter (ttl_timed_out now) t)), filter (\<lambda>e. \<not> ttl_timed_out now e) t)"
  by (simp add: ttl_tracker_cleanup_expired_def expire_loop_eq)

lemma ttl_wf_cleanup_expired: "ttl_wf t \<Longrightarrow> ttl_wf (snd (ttl_tracker_cleanup_expired now t))"
  unfolding ttl_cleanup_expired_eq ttl_wf_def
  by (auto simp: distinct_map_filter intro: order_trans [OF length_filter_le])

section \<open>Histories of the tracker\<close>

inductive ttl_step :: "ttl_table \<Rightarrow> ttl_table \<Rightarrow> bool" where
  step_update: "ttl_track_update time packet ttl t = Inr (r, t') \<Longrightarrow> ttl_step t t'"
| step_expire: "ttl_step t (snd (ttl_tracker_cleanup_expired now t))"
| step_init: "ttl_step t (snd (ttl_tracker_init t))"
| step_cleanup: "ttl_step t (snd (ttl_tracker_cleanup t))"

inductive_cases ttl_stepE [elim]: "ttl_step t t'"

lemma ttl_wf_Nil [simp]: "ttl_wf []"
  by (simp add: ttl_wf_def)

lemma ttl_wf_step: "ttl_step t t' \<Longrightarrow> ttl_wf t \<Longrightarrow> ttl_wf t'"
proof (induction rule: ttl_step.induct)
  case (step_update time packet ttl t r t')
  then show ?case
    using ttl_wf_update by (cases packet) (auto simp: ttl_track_update_def)
qed (simp_all add: ttl_wf_cleanup_expired ttl_tracker_init_def ttl_tracker_cleanup_def)

interpretation ttl_run: invariant_system "\<lambda>t. t = []" ttl_step ttl_wf
  by unfold_locales (auto intro: ttl_wf_step)

definition ttl_record :: "(nat \<Rightarrow> int) \<times> u8 \<Rightarrow> packet_t \<Rightarrow> ttl_table \<Rightarrow> int \<times> ttl_table" where
  "ttl_record x p t = (case ttl_track_update (fst x) (Some p) (snd x) t of Inl _ \<Rightarrow> (-1, t) | Inr y \<Rightarrow> y)"

lemma ttl_record_eq: "ttl_track_update time (Some p) ttl t = Inr (ttl_record (time, ttl) p t)"
  using ttl_update_defined [of time p ttl t] by (auto simp: ttl_record_def)

definition ttl_tracked :: "packet_t \<Rightarrow> ttl_table \<Rightarrow> nat option" where
  "ttl_tracked p t = index_of (\<lambda>e. ttl_match e p) t"

lemma ttl_update_found:
  assumes "ttl_track_update time (Some p) ttl t = Inr (r, t')" "r = 0"
  shows "ttl_tracked p t' \<noteq> None"
  using assms(1)
proof (cases rule: ttl_update_cases)
  case (updated i)
  then show ?thesis by (simp add: ttl_tracked_def index_of_update index_of_Some)
next
  case added
  then show ?thesis by (simp add: ttl_tracked_def index_of_append)
next
  case (replaced i)
  then have "i < length t" using oldest_learning_spec [OF replaced(4)] by simp
  then have "fresh_entry (time 1) ttl p \<in> set t'" unfolding replaced(5) by (rule set_update_memI)
  then show ?thesis
    unfolding ttl_tracked_def index_of_None using fresh_match by blast
qed (use assms(2) in simp)

interpretation ttl_flow: flow_table ttl_wf ttl_record ttl_tracked
proof unfold_locales
  fix t :: ttl_table and x p
  have u: "ttl_track_update (fst x) (Some p) (snd x) t = Inr (fst (ttl_record x p t), snd (ttl_record x p t))"
    by (simp add: ttl_record_eq)
  show "ttl_wf t \<Longrightarrow> ttl_wf (snd (ttl_record x p t))" using u by (rule ttl_wf_update [rotated])
  show "fst (ttl_record x p t) = 0 \<Longrightarrow> ttl_tracked p (snd (ttl_record x p t)) \<noteq> None"
    by (rule ttl_update_found [OF u])
  show "fst (ttl_record x p t) \<noteq> 0 \<Longrightarrow> snd (ttl_record x p t) = t"
    using u by (cases rule: ttl_update_cases) auto
qed

interpretation ttl_expiry: expiring_table ttl_wf "\<lambda>t. t" ttl_timed_out ttl_tracker_cleanup_expired
proof unfold_locales
  fix t :: ttl_table and now later :: int and e
  show "ttl_wf t \<Longrightarrow> ttl_wf (snd (ttl_tracker_cleanup_expired now t))" by (rule ttl_wf_cleanup_expired)
  show "now \<le> later \<Longrightarrow> ttl_timed_out now e \<Longrightarrow> ttl_timed_out later e" by (simp add: ttl_timed_out_def)
qed (simp_all add: ttl_cleanup_expired_eq)

section \<open>Learning\<close>

text \<open>The packets of one flow: of one IP version, between the same two end points, in either direction.  Only the
  first word of an IPv4 address counts.\<close>

definition flow_addr :: "packet_t \<Rightarrow> ip_words \<Rightarrow> ip_words" where
  "flow_addr p a = (if p_is_ipv6 p then a else (ip0 a, 0, 0, 0))"

definition flow_source :: "packet_t \<Rightarrow> ip_words \<times> u16" where
  "flow_source p = (flow_addr p (p_src_ip p), p_src_port p)"

definition flow_dest :: "packet_t \<Rightarrow> ip_words \<times> u16" where
  "flow_dest p = (flow_addr p (p_dst_ip p), p_dst_port p)"

definition same_flow :: "packet_t \<Rightarrow> packet_t \<Rightarrow> bool" where
  "same_flow p q \<longleftrightarrow> p_is_ipv6 p = p_is_ipv6 q \<and>
     (flow_source p = flow_source q \<and> flow_dest p = flow_dest q \<or>
      flow_source p = flow_dest q \<and> flow_dest p = flow_source q)"

lemma same_flow_match: "same_flow p q \<Longrightarrow> ttl_match e q = ttl_match e p"
  by (cases "p_is_ipv6 p") (auto simp: same_flow_def flow_source_def flow_dest_def flow_addr_def ttl_match_def)

definition tracked_type :: "packet_t \<Rightarrow> bool" where
  "tracked_type p \<longleftrightarrow> p_type p = PACKET_IPV4_TCP \<or> p_type p = PACKET_IPV6_TCP"

text \<open>\<open>ttl_feed fs\<close> records the packets of \<open>fs\<close> one after the other, each with the results of \<open>time\<close> during
  the call and its TTL, and collects what the calls return.\<close>

type_synonym arrival = "packet_t \<times> (nat \<Rightarrow> int) \<times> u8"

abbreviation arrival_ttl :: "arrival \<Rightarrow> u8" where "arrival_ttl f \<equiv> snd (snd f)"

fun ttl_feed :: "arrival list \<Rightarrow> ttl_table \<Rightarrow> (int list \<times> ttl_table) cres" where
  "ttl_feed [] t = Inr ([], t)"
| "ttl_feed ((p, time, ttl) # fs) t =
     bindC (ttl_track_update time (Some p) ttl t) (\<lambda>(r, t').
       bindC (ttl_feed fs t') (\<lambda>(rs, t''). Inr (r # rs, t'')))"

lemma ttl_feed_append:
  "ttl_feed (fs @ gs) t =
     bindC (ttl_feed fs t) (\<lambda>(rs, t'). bindC (ttl_feed gs t') (\<lambda>(rs', t''). Inr (rs @ rs', t'')))"
proof (induction fs t rule: ttl_feed.induct)
  case (1 t)
  show ?case by (cases "ttl_feed gs t") auto
next
  case (2 p time ttl fs t)
  obtain r t' where u: "ttl_track_update time (Some p) ttl t = Inr (r, t')"
    using ttl_update_defined [of time p ttl t] by blast
  have "ttl_feed (fs @ gs) t' =
      bindC (ttl_feed fs t') (\<lambda>(rs, t'). bindC (ttl_feed gs t') (\<lambda>(rs', t''). Inr (rs @ rs', t'')))"
    using 2 [OF u refl] .
  then show ?case
    by (cases "ttl_feed fs t'") (auto simp: u bindC_def split: sum.splits)
qed

definition learned :: "ttl_track_entry_t \<Rightarrow> u8 list \<Rightarrow> bool" where
  "learned e xs \<longleftrightarrow>
     te_original_ttl e = xs ! 0 \<and> (te_is_established e \<longleftrightarrow> 10 \<le> length xs) \<and>
     te_min_ttl e = Min (set (take 10 xs)) \<and> te_max_ttl e = Max (set (take 10 xs)) \<and>
     te_ttl_delta e = xs ! 0 - last (take 10 xs) \<and>
     (\<not> te_is_established e \<longrightarrow> te_packet_count e = of_nat (length xs))"

lemma learned_fresh: "learned (fresh_entry now ttl p) [ttl]"
  by (simp add: learned_def fresh_entry_def ttl_entry_zero_def Let_def)

lemma learn_nonzero:
  assumes "te_min_ttl e \<noteq> 0" "te_max_ttl e \<noteq> 0" "te_original_ttl e \<noteq> 0"
  shows "te_original_ttl (learn x e) = te_original_ttl e" "te_ttl_delta (learn x e) = te_original_ttl e - x"
    "te_min_ttl (learn x e) = min x (te_min_ttl e)" "te_max_ttl (learn x e) = max x (te_max_ttl e)"
  using assms by (auto simp: learn_def Let_def min_def max_def)

lemma learned_update:
  assumes l: "learned e xs" and ne: "xs \<noteq> []" and nz: "0 \<notin> set xs"
  shows "learned (update_entry now x e) (xs @ [x])"
proof (cases "10 \<le> length xs")
  case True
  then have "te_is_established e" using l by (simp add: learned_def)
  then show ?thesis
    using l True ne by (auto simp: learned_def update_entry_def nth_append)
next
  case False
  define e1 where "e1 = e\<lparr>te_last_seen := now, te_packet_count := te_packet_count e + 1\<rparr>"
  have est: "\<not> te_is_established e" and cnt: "te_packet_count e = of_nat (length xs)"
    using l False by (auto simp: learned_def)
  have tk: "take 10 xs = xs" "take 10 (xs @ [x]) = xs @ [x]" using False by simp_all
  have "Min (set xs) \<in> set xs" "Max (set xs) \<in> set xs" "xs ! 0 \<in> set xs" using ne by auto
  then have nz1: "te_min_ttl e1 \<noteq> 0" "te_max_ttl e1 \<noteq> 0" "te_original_ttl e1 \<noteq> 0"
    using l nz tk by (auto simp: learned_def e1_def)
  have e1: "te_min_ttl e1 = te_min_ttl e" "te_max_ttl e1 = te_max_ttl e"
    "te_original_ttl e1 = te_original_ttl e" "te_packet_count e1 = te_packet_count e + 1"
    by (simp_all add: e1_def)
  have u: "update_entry now x e = learn x e1"
    using est by (simp add: update_entry_def e1_def)
  have c10: "TTL_LEARNING_PACKETS \<le> te_packet_count e + 1 \<longleftrightarrow> 10 \<le> length (xs @ [x])"
  proof -
    have "unat (te_packet_count e + 1) = length xs + 1"
      using False by (simp add: cnt unat_word_ariths unat_of_nat)
    then show ?thesis by (simp add: TTL_LEARNING_PACKETS_def word_le_nat_alt)
  qed
  then have "te_is_established (learn x e1) \<longleftrightarrow> 10 \<le> length (xs @ [x])"
    using est by (simp add: learn_est e1_def)
  then show ?thesis
    using l ne cnt unfolding u learned_def tk
    by (simp add: learn_nonzero [OF nz1] e1 nth_append min.commute max.commute)
qed

text \<open>What is assumed of the packets that are recorded: their type is tracked, they belong to the flow of \<open>p\<close> and
  their TTL is not zero.\<close>

definition flow_of :: "packet_t \<Rightarrow> arrival list \<Rightarrow> bool" where
  "flow_of p fs \<longleftrightarrow> list_all (\<lambda>(q, time, ttl). tracked_type q \<and> same_flow p q \<and> ttl \<noteq> 0) fs"

lemma ttl_feed_learns:
  assumes new: "\<forall>e\<in>set t. \<not> ttl_match e p" and room: "length t < MAX_TTL_ENTRIES"
    and "fs \<noteq> []" "flow_of p fs"
  shows "\<exists>e. ttl_feed fs t = Inr (replicate (length fs) 0, t @ [e]) \<and> ttl_match e p \<and> learned e (map arrival_ttl fs)"
  using assms(3,4)
proof (induction fs rule: rev_induct)
  case (snoc f fs)
  obtain q time x where f: "f = (q, time, x)" by (cases f)
  have q: "tracked_type q" "same_flow p q" "x \<noteq> 0" and fs: "flow_of p fs"
    using snoc.prems(2) by (auto simp: f flow_of_def)
  note m = same_flow_match [OF q(2)]
  have none: "index_of (\<lambda>e. ttl_match e q) t = None" using new by (simp add: index_of_None m)
  have rec: "replicate (length (fs @ [f])) (0::int) = replicate (length fs) 0 @ [0]"
    using replicate_append_same [of "length fs" "0::int"] by simp
  show ?case
  proof (cases "fs = []")
    case True
    have "ttl_track_update time (Some q) x t = Inr (0, t @ [fresh_entry (time 0) x q])"
      using q(1) room none by (auto simp: tracked_type_def ttl_track_update_def find_ttl_entry_eq)
    moreover have "ttl_match (fresh_entry (time 0) x q) p" using m fresh_match by blast
    ultimately show ?thesis using True learned_fresh by (auto simp: f)
  next
    case False
    then obtain e where e: "ttl_feed fs t = Inr (replicate (length fs) 0, t @ [e])" "ttl_match e p"
      "learned e (map arrival_ttl fs)"
      using snoc.IH fs by auto
    have "ttl_track_update time (Some q) x (t @ [e]) = Inr (0, t @ [update_entry (time 0) x e])"
      using q(1) e(2) m none by (auto simp: tracked_type_def ttl_track_update_def find_ttl_entry_eq index_of_append)
    then have "ttl_feed (fs @ [f]) t = Inr (replicate (length fs) 0 @ [0], t @ [update_entry (time 0) x e])"
      by (simp add: ttl_feed_append e(1) f)
    moreover have "0 \<notin> set (map arrival_ttl fs)" using fs by (auto simp: flow_of_def list_all_iff)
    ultimately show ?thesis
      using e False learned_update [OF e(3), of "time 0" x] unfolding rec by (auto simp: f)
  qed
qed simp

section \<open>Properties\<close>

text \<open>
  C32. The TTL table stays well formed through every history of updates (of any packets, null included),
  expiries and restarts: never more than 1024 entries, all of protocol TCP with \<open>min_ttl \<le> max_ttl\<close>, the
  learning ones with 1 to 9 packets counted, and no two entries for one flow, in either direction.
\<close>

theorem ttl_table_invariant:
  assumes "ttl_step\<^sup>*\<^sup>* [] t"
  shows "length t \<le> 1024 \<and> distinct (map flow_id t) \<and>
    (\<forall>e \<in> set t. te_protocol e = 6 \<and> te_min_ttl e \<le> te_max_ttl e \<and>
       (te_is_established e \<or> 1 \<le> te_packet_count e \<and> te_packet_count e < 10))"
  using ttl_run.reachable_inv [OF refl assms] by (auto simp: ttl_wf_def ttl_entry_ok_def ttl_consts)

lemma ttl_step_fresh:
  "p_type p = PACKET_IPV4_TCP \<Longrightarrow> ttl_step [] [fresh_entry now ttl p]"
  by (rule step_update [of "\<lambda>_. now" "Some p" ttl])
    (simp add: ttl_track_update_def find_ttl_entry_def MAX_TTL_ENTRIES_def)

text \<open>A client, the answers to it and a second client, with the table after four packets.\<close>

definition flow_a :: packet_t where
  "flow_a = packet_zero\<lparr>p_type := PACKET_IPV4_TCP, p_src_ip := (1, 0, 0, 0), p_dst_ip := (2, 0, 0, 0),
     p_src_port := 4000, p_dst_port := 443\<rparr>"

definition flow_a_back :: packet_t where
  "flow_a_back = packet_zero\<lparr>p_type := PACKET_IPV4_TCP, p_src_ip := (2, 0, 0, 0), p_dst_ip := (1, 0, 0, 0),
     p_src_port := 443, p_dst_port := 4000\<rparr>"

definition flow_b :: packet_t where
  "flow_b = flow_a\<lparr>p_src_port := 4001\<rparr>"

lemmas flow_samples = flow_a_def flow_a_back_def flow_b_def packet_zero_def

definition sample_flows :: ttl_table where
  "sample_flows = [update_entry 8 57 (update_entry 6 60 (fresh_entry 5 64 flow_a)), fresh_entry 7 50 flow_b]"

lemma sample_flows_reached: "ttl_step\<^sup>*\<^sup>* [] sample_flows"
proof -
  let ?a = "fresh_entry 5 64 flow_a"
  have "ttl_step [] [?a]" by (rule ttl_step_fresh) (simp add: flow_samples)
  moreover have "ttl_step [?a] [update_entry 6 60 ?a]"
    by (rule step_update [of "\<lambda>_. 6" "Some flow_a_back" 60])
      (simp add: ttl_track_update_def find_ttl_entry_eq ttl_match_def fresh_entry_def Let_def flow_samples)
  moreover have "ttl_step [update_entry 6 60 ?a] [update_entry 6 60 ?a, fresh_entry 7 50 flow_b]"
    by (rule step_update [of "\<lambda>_. 7" "Some flow_b" 50])
      (simp add: ttl_track_update_def find_ttl_entry_eq ttl_match_def fresh_entry_def Let_def MAX_TTL_ENTRIES_def flow_samples)
  moreover have "ttl_step [update_entry 6 60 ?a, fresh_entry 7 50 flow_b] sample_flows"
    unfolding sample_flows_def by (rule step_update [of "\<lambda>_. 8" "Some flow_a" 57])
      (simp add: ttl_track_update_def find_ttl_entry_eq ttl_match_def fresh_entry_def Let_def flow_samples)
  ultimately show ?thesis by (meson rtranclp.rtrancl_into_rtrancl rtranclp.rtrancl_refl)
qed

theorem ttl_table_invariant_witness:
  "ttl_step\<^sup>*\<^sup>* [] sample_flows \<and> map te_packet_count sample_flows = [3, 1] \<and> distinct (map flow_id sample_flows) \<and>
   list_all (\<lambda>e. te_min_ttl e \<le> te_max_ttl e \<and> te_packet_count e < 10) sample_flows"
proof -
  have "\<not> te_is_established e" if "e \<in> set sample_flows" for e
    using that by (auto simp: sample_flows_def update_entry_def learn_def fresh_entry_def Let_def ttl_consts)
  moreover have "map te_packet_count sample_flows = [3, 1]" by (simp add: sample_flows_def)
  ultimately show ?thesis
    using ttl_table_invariant [OF sample_flows_reached] sample_flows_reached by (auto simp: list_all_iff)
qed


text \<open>Nine packets of the client and, as the tenth, an answer, beside the flow of another client.\<close>

definition sample_arrivals :: "arrival list" where
  "sample_arrivals = replicate 9 (flow_a, \<lambda>_. 5, 60) @ [(flow_a_back, \<lambda>_. 9, 57)]"


text \<open>
  C33. The replacement policy.  Recording a packet changes an existing entry only in two ways: the entry is the
  first that matches the packet and is updated, or the table is full, no entry matches, and the entry is
  a learning one not seen later than any other learning entry.  In particular no established entry is
  ever lost to a new flow.
\<close>

theorem ttl_replacement_policy:
  assumes "ttl_track_update time (Some p) ttl t = Inr (r, t')" "j < length t"
  shows "j < length t' \<and>
    (t' ! j = t ! j \<or>
     (ttl_match (t ! j) p \<and> (\<forall>i<j. \<not> ttl_match (t ! i) p) \<and> t' ! j = update_entry (time 0) ttl (t ! j)) \<or>
     (MAX_TTL_ENTRIES \<le> length t \<and> (\<forall>e\<in>set t. \<not> ttl_match e p) \<and> \<not> te_is_established (t ! j) \<and>
      (\<forall>e\<in>set t. te_is_established e \<or> te_last_seen (t ! j) \<le> te_last_seen e)))"
  using assms(1)
proof (cases rule: ttl_update_cases)
  case refused
  then show ?thesis using assms(2) by simp
next
  case (updated i)
  then show ?thesis using assms(2) by (cases "i = j") (auto simp: index_of_Some)
next
  case added
  then show ?thesis using assms(2) by (simp add: nth_append)
next
  case (replaced i)
  then show ?thesis
    using assms(2) oldest_learning_spec [OF replaced(4)] oldest_learning_least [OF replaced(4)]
    by (cases "i = j") (auto simp: index_of_None)
qed

theorem ttl_replacement_policy_witness:
  "case ttl_track_update (\<lambda>_. 9) (Some (packet_zero\<lparr>p_type := PACKET_IPV4_TCP\<rparr>)) 50
          [fresh_entry 5 64 (packet_zero\<lparr>p_type := PACKET_IPV4_TCP\<rparr>)] of
     Inl _ \<Rightarrow> False | Inr (r, t') \<Rightarrow> 0 < length t'"
proof -
  have "ttl_track_update (\<lambda>_. 9) (Some (packet_zero\<lparr>p_type := PACKET_IPV4_TCP\<rparr>)) 50
          [fresh_entry 5 64 (packet_zero\<lparr>p_type := PACKET_IPV4_TCP\<rparr>)] =
        Inr (0, [update_entry 9 50 (fresh_entry 5 64 (packet_zero\<lparr>p_type := PACKET_IPV4_TCP\<rparr>))])"
    by (simp add: ttl_track_update_def find_ttl_entry_eq)
  from ttl_replacement_policy [OF this, of 0] show ?thesis
    by (simp add: ttl_track_update_def find_ttl_entry_eq)
qed

text \<open>
  C40. The automatic TTL.  The result lies within the configured bounds whenever these are ordered; but
  the distance \<open>ttl_1 - connection_ttl\<close> is computed in 8 bits and wraps around: with the default parameters
  (1, 4, 3, 10) the result is 10 for every connection TTL from 2 on, whatever the distance of the server, and
  3 for 0 and 1.
\<close>

theorem auto_ttl_values:
  "(ttl_max < ttl_min \<or>
    ttl_min \<le> ttl_get_auto_ttl c a b ttl_min ttl_max \<and> ttl_get_auto_ttl c a b ttl_min ttl_max \<le> ttl_max) \<and>
   ttl_get_auto_ttl c 1 4 3 10 = (if 2 \<le> c then 10 else 3)"
proof (intro conjI)
  show "ttl_max < ttl_min \<or>
    ttl_min \<le> ttl_get_auto_ttl c a b ttl_min ttl_max \<and> ttl_get_auto_ttl c a b ttl_min ttl_max \<le> ttl_max"
    by (auto simp: ttl_get_auto_ttl_def Let_def)
  have "unat c < 256" using unsigned_less [of c] by simp
  then show "ttl_get_auto_ttl c 1 4 3 10 = (if 2 \<le> c then 10 else 3)"
    by (auto simp: ttl_get_auto_ttl_def Let_def word_le_nat_alt word_less_nat_alt unat_sub_if' word_unat_eq_iff)
qed

end
