(* ===== verification/DnsTracker.thy ===== *)
theory DnsTracker
  imports NetUtils FlowTable
begin

text \<open>
  \<open>src/tracking/dns_tracker.c\<close>: the table of DNS exchanges.  The vendored hash table \<open>utils/uthash.h\<close> is seen
  through its documented behaviour: the elements are kept in insertion order, \<open>HASH_ADD_STR\<close> appends
  without looking for an equal key, \<open>HASH_ITER\<close> visits them in order and allows deletion of the current
  one, and \<open>HASH_FIND_STR\<close>, the parameter \<open>hash_find\<close>, returns some element with the key, or null when there is
  none (among equal keys the choice depends on the bucket expansions).  That contract is the locale \<open>uthash\<close>.
  The result of \<open>time (NULL)\<close> is \<open>now\<close>; the log output is left out.
\<close>

section \<open>State\<close>

record dns_conntrack_info_t =
  di_valid :: bool
  di_client_ip :: ip_words
  di_dns_server_ip :: ip_words
  di_client_port :: u16
  di_dns_server_port :: u16
  di_timestamp :: int

record dns_conntrack_entry_t =
  de_key :: string
  de_info :: dns_conntrack_info_t
  de_last_seen :: int

type_synonym dns_table = "dns_conntrack_entry_t list"
type_synonym hash_find = "string \<Rightarrow> dns_table \<Rightarrow> nat option"

definition DNS_TRACKING_TIMEOUT :: int where "DNS_TRACKING_TIMEOUT = 60"

section \<open>Operations\<close>

definition dns_tracker_init :: "dns_table \<Rightarrow> int \<times> dns_table" where
  "dns_tracker_init t = (0, [])"

fun delete_all :: "dns_table \<Rightarrow> dns_table" where
  "delete_all [] = []"
| "delete_all (e # es) = delete_all es"

definition dns_tracker_cleanup :: "dns_table \<Rightarrow> int \<times> dns_table" where
  "dns_tracker_cleanup t = (0, delete_all t)"

text \<open>The conversion \<open>%0nx\<close> of a value of at most \<open>n\<close> hexadecimal digits.\<close>

definition hex_char :: "nat \<Rightarrow> char" where
  "hex_char d = ''0123456789abcdef'' ! d"

fun hex_fixed :: "nat \<Rightarrow> nat \<Rightarrow> string" where
  "hex_fixed 0 v = []"
| "hex_fixed (Suc n) v = hex_fixed n (v div 16) @ [hex_char (v mod 16)]"

definition dns_key :: "u32 \<Rightarrow> u32 \<Rightarrow> u16 \<Rightarrow> u16 \<Rightarrow> string" where
  "dns_key sa da sp dp =
     hex_fixed 8 (unat sa) @ '':'' @ hex_fixed 8 (unat da) @ '':'' @
     hex_fixed 4 (unat sp) @ '':'' @ hex_fixed 4 (unat dp)"

definition is_dns :: "packet_t \<Rightarrow> bool" where
  "is_dns p \<longleftrightarrow> \<not> (p_type p \<noteq> PACKET_IPV4_UDP_DATA \<or> (p_src_port p \<noteq> 53 \<and> p_dst_port p \<noteq> 53))"

definition dns_info :: "int \<Rightarrow> packet_t \<Rightarrow> dns_conntrack_info_t" where
  "dns_info now p =
     (if p_src_port p = 53
      then \<lparr>di_valid = True, di_client_ip = p_dst_ip p, di_dns_server_ip = p_src_ip p,
            di_client_port = p_dst_port p, di_dns_server_port = p_src_port p, di_timestamp = now\<rparr>
      else \<lparr>di_valid = True, di_client_ip = p_src_ip p, di_dns_server_ip = p_dst_ip p,
            di_client_port = p_src_port p, di_dns_server_port = p_dst_port p, di_timestamp = now\<rparr>)"

text \<open>\<open>malloc_ok\<close>: whether the allocation of the entry succeeds.\<close>

definition dns_tracker_add :: "bool \<Rightarrow> int \<Rightarrow> packet_t option \<Rightarrow> dns_table \<Rightarrow> int \<times> dns_table" where
  "dns_tracker_add malloc_ok now packet t =
     (case packet of None \<Rightarrow> (-1, t)
      | Some p \<Rightarrow>
          if \<not> is_dns p then (-1, t)
          else if \<not> malloc_ok then (-1, t)
          else (0, t @ [\<lparr>de_key = dns_key (ip0 (p_src_ip p)) (ip0 (p_dst_ip p)) (p_src_port p) (p_dst_port p),
                         de_info = dns_info now p, de_last_seen = di_timestamp (dns_info now p)\<rparr>]))"

text \<open>The search of \<open>dns_tracker_lookup\<close>: the forward key, then the reverse key.\<close>

definition dns_find_entry :: "hash_find \<Rightarrow> packet_t \<Rightarrow> dns_table \<Rightarrow> nat option" where
  "dns_find_entry hash_find p t =
     (let entry = hash_find (dns_key (ip0 (p_src_ip p)) (ip0 (p_dst_ip p)) (p_src_port p) (p_dst_port p)) t in
      case entry of
        None \<Rightarrow> hash_find (dns_key (ip0 (p_dst_ip p)) (ip0 (p_src_ip p)) (p_dst_port p) (p_src_port p)) t
      | Some i \<Rightarrow> Some i)"

definition dns_tracker_lookup ::
  "hash_find \<Rightarrow> int \<Rightarrow> packet_t option \<Rightarrow> dns_conntrack_info_t option \<Rightarrow> dns_table \<Rightarrow>
   int \<times> dns_conntrack_info_t option \<times> dns_table" where
  "dns_tracker_lookup hash_find now packet info t =
     (case (packet, info) of
        (Some p, Some f) \<Rightarrow>
          if \<not> is_dns p then (-1, info, t)
          else
            (case dns_find_entry hash_find p t of
               None \<Rightarrow> (-1, info, t)
             | Some i \<Rightarrow> (0, Some (de_info (t ! i)), t[i := (t ! i)\<lparr>de_last_seen := now\<rparr>]))
      | _ \<Rightarrow> (-1, info, t))"

text \<open>\<open>info0\<close> is the uninitialised local that \<open>dns_tracker_update\<close> passes as out parameter.\<close>

definition dns_tracker_update ::
  "hash_find \<Rightarrow> dns_conntrack_info_t \<Rightarrow> bool \<Rightarrow> int \<Rightarrow> packet_t option \<Rightarrow> dns_table \<Rightarrow> int \<times> dns_table" where
  "dns_tracker_update hash_find info0 malloc_ok now packet t =
     (case dns_tracker_lookup hash_find now packet (Some info0) t of
        (r, _, t') \<Rightarrow> if r = 0 then (0, t') else dns_tracker_add malloc_ok now packet t')"

definition dns_timed_out :: "int \<Rightarrow> dns_conntrack_entry_t \<Rightarrow> bool" where
  "dns_timed_out now e \<longleftrightarrow> now - de_last_seen e > DNS_TRACKING_TIMEOUT"

fun dns_expire_loop :: "int \<Rightarrow> dns_table \<Rightarrow> int \<Rightarrow> int \<times> dns_table" where
  "dns_expire_loop now [] removed = (removed, [])"
| "dns_expire_loop now (e # es) removed =
     (if dns_timed_out now e then dns_expire_loop now es (removed + 1)
      else (case dns_expire_loop now es removed of (r, es') \<Rightarrow> (r, e # es')))"

definition dns_tracker_cleanup_expired :: "int \<Rightarrow> dns_table \<Rightarrow> int \<times> dns_table" where
  "dns_tracker_cleanup_expired now t = dns_expire_loop now t 0"

fun count_active :: "int \<Rightarrow> dns_table \<Rightarrow> size_t \<Rightarrow> size_t" where
  "count_active now [] active = active"
| "count_active now (e # es) active =
     count_active now es (if now - de_last_seen e \<le> DNS_TRACKING_TIMEOUT then active + 1 else active)"

definition dns_tracker_get_stats ::
  "int \<Rightarrow> size_t option \<Rightarrow> size_t option \<Rightarrow> dns_table \<Rightarrow> size_t option \<times> size_t option" where
  "dns_tracker_get_stats now total_entries active_entries t =
     (map_option (\<lambda>_. of_nat (length t)) total_entries,
      map_option (\<lambda>_. count_active now t 0) active_entries)"

definition dns_should_redirect :: "goodbyedpi_config_t \<Rightarrow> packet_t option \<Rightarrow> int" where
  "dns_should_redirect config packet =
     (case packet of None \<Rightarrow> 0
      | Some p \<Rightarrow>
          if p_type p \<noteq> PACKET_IPV4_UDP_DATA \<or> p_dst_port p \<noteq> 53 then 0
          else if \<not> cfg_dns_redirect_ipv4 config then 0
          else 1)"

definition dns_get_configured_server ::
  "goodbyedpi_config_t \<Rightarrow> u32 option \<Rightarrow> u16 option \<Rightarrow> int \<times> u32 option \<times> u16 option" where
  "dns_get_configured_server config server_ip server_port =
     (case (server_ip, server_port) of
        (Some ip, Some port) \<Rightarrow>
          if cfg_dns_server_v4 config = [] then (-1, server_ip, server_port)
          else (case parse_ipv4_address (Some (cfg_dns_server_v4 config)) server_ip of
                  (r, ip') \<Rightarrow> if r \<noteq> 0 then (-1, ip', server_port)
                             else (0, ip', Some (cfg_dns_port_v4 config)))
      | _ \<Rightarrow> (-1, server_ip, server_port))"

section \<open>The composite key\<close>

lemma hex_char_inj: "a < 16 \<Longrightarrow> b < 16 \<Longrightarrow> hex_char a = hex_char b \<Longrightarrow> a = b"
  using nth_eq_iff_index_eq [of "''0123456789abcdef''" a b] by (simp add: hex_char_def)

lemma length_hex_fixed [simp]: "length (hex_fixed n v) = n"
  by (induction n arbitrary: v) simp_all

lemma hex_fixed_inj: "a < 16 ^ n \<Longrightarrow> b < 16 ^ n \<Longrightarrow> hex_fixed n a = hex_fixed n b \<Longrightarrow> a = b"
proof (induction n arbitrary: a b)
  case (Suc n)
  have "hex_fixed n (a div 16) = hex_fixed n (b div 16)" "hex_char (a mod 16) = hex_char (b mod 16)"
    using Suc.prems(3) by simp_all
  moreover have "a div 16 < 16 ^ n" "b div 16 < 16 ^ n"
    using Suc.prems(1,2) by (simp_all add: less_mult_imp_div_less mult.commute)
  ultimately have "a div 16 = b div 16" "a mod 16 = b mod 16"
    using Suc.IH hex_char_inj by simp_all
  then show ?case by (metis div_mult_mod_eq)
qed simp

lemma hex_u32: "hex_fixed 8 (unat (a :: u32)) = hex_fixed 8 (unat b) \<longleftrightarrow> a = b"
  using hex_fixed_inj [of "unat a" 8 "unat b"] unsigned_less [of a] unsigned_less [of b]
  by (auto simp: word_unat_eq_iff)

lemma hex_u16: "hex_fixed 4 (unat (a :: u16)) = hex_fixed 4 (unat b) \<longleftrightarrow> a = b"
  using hex_fixed_inj [of "unat a" 4 "unat b"] unsigned_less [of a] unsigned_less [of b]
  by (auto simp: word_unat_eq_iff)

lemma dns_key_inj [simp]:
  "dns_key a b c d = dns_key a' b' c' d' \<longleftrightarrow> a = a' \<and> b = b' \<and> c = c' \<and> d = d'"
  by (simp add: dns_key_def hex_u32 hex_u16 append_eq_append_conv del: hex_fixed.simps)

lemma length_dns_key [simp]: "length (dns_key a b c d) = 27"
  by (simp add: dns_key_def del: hex_fixed.simps)

section \<open>Invariant\<close>

text \<open>The two end points of an exchange, in either order.\<close>

definition exchange :: "dns_conntrack_info_t \<Rightarrow> ((u32 \<times> u16) \<times> (u32 \<times> u16)) set" where
  "exchange i =
     (let c = (ip0 (di_client_ip i), di_client_port i); s = (ip0 (di_dns_server_ip i), di_dns_server_port i)
      in {(c, s), (s, c)})"

text \<open>An entry carries the key and the information of one DNS packet.\<close>

definition dns_entry_ok :: "dns_conntrack_entry_t \<Rightarrow> bool" where
  "dns_entry_ok e \<longleftrightarrow>
     (\<exists>p now. is_dns p \<and> de_info e = dns_info now p \<and>
        de_key e = dns_key (ip0 (p_src_ip p)) (ip0 (p_dst_ip p)) (p_src_port p) (p_dst_port p))"

definition dns_wf :: "dns_table \<Rightarrow> bool" where
  "dns_wf t \<longleftrightarrow> (\<forall>e\<in>set t. dns_entry_ok e) \<and> distinct (map (\<lambda>e. exchange (de_info e)) t)"

lemma exchange_info:
  "exchange (dns_info now p) =
     {((ip0 (p_src_ip p), p_src_port p), (ip0 (p_dst_ip p), p_dst_port p)),
      ((ip0 (p_dst_ip p), p_dst_port p), (ip0 (p_src_ip p), p_src_port p))}"
  by (auto simp: exchange_def dns_info_def Let_def)

lemma exchange_keys:
  assumes "dns_entry_ok e" "exchange (de_info e) = exchange (dns_info now p)"
  shows "de_key e = dns_key (ip0 (p_src_ip p)) (ip0 (p_dst_ip p)) (p_src_port p) (p_dst_port p) \<or>
         de_key e = dns_key (ip0 (p_dst_ip p)) (ip0 (p_src_ip p)) (p_dst_port p) (p_src_port p)"
  using assms by (auto simp: dns_entry_ok_def exchange_info doubleton_eq_iff)

lemma dns_wf_Nil [simp]: "dns_wf []"
  by (simp add: dns_wf_def)

lemma dns_wf_touch:
  assumes "dns_wf t"
  shows "dns_wf (t[i := (t ! i)\<lparr>de_last_seen := now\<rparr>])"
proof (cases "i < length t")
  case True
  have "map (\<lambda>e. exchange (de_info e)) (t[i := (t ! i)\<lparr>de_last_seen := now\<rparr>]) = map (\<lambda>e. exchange (de_info e)) t"
    using True by (simp add: map_update) (metis list_update_id nth_map map_update)
  moreover have "dns_entry_ok ((t ! i)\<lparr>de_last_seen := now\<rparr>)"
    using assms True by (auto simp: dns_wf_def dns_entry_ok_def dest!: nth_mem)
  ultimately show ?thesis
    using assms by (auto simp: dns_wf_def dest!: set_update_subset_insert [THEN subsetD])
next
  case False
  then show ?thesis using assms by (simp add: list_update_beyond)
qed

lemma dns_expire_eq:
  "dns_expire_loop now t n =
     (n + int (length (filter (dns_timed_out now) t)), filter (\<lambda>e. \<not> dns_timed_out now e) t)"
  by (induction t arbitrary: n) auto

lemma dns_cleanup_expired_eq:
  "dns_tracker_cleanup_expired now t =
     (int (length (filter (dns_timed_out now) t)), filter (\<lambda>e. \<not> dns_timed_out now e) t)"
  by (simp add: dns_tracker_cleanup_expired_def dns_expire_eq)

lemma delete_all_Nil [simp]: "delete_all t = []"
  by (induction t) simp_all

lemma dns_wf_expired: "dns_wf t \<Longrightarrow> dns_wf (snd (dns_tracker_cleanup_expired now t))"
  by (auto simp: dns_cleanup_expired_eq dns_wf_def distinct_map_filter)

interpretation dns_expiry: expiring_table dns_wf "\<lambda>t. t" dns_timed_out dns_tracker_cleanup_expired
proof unfold_locales
  fix t :: dns_table and now later :: int and e
  show "dns_wf t \<Longrightarrow> dns_wf (snd (dns_tracker_cleanup_expired now t))" by (rule dns_wf_expired)
  show "now \<le> later \<Longrightarrow> dns_timed_out now e \<Longrightarrow> dns_timed_out later e" by (simp add: dns_timed_out_def)
qed (simp_all add: dns_cleanup_expired_eq)

section \<open>The hash table contract\<close>

locale uthash =
  fixes hash_find :: "string \<Rightarrow> dns_conntrack_entry_t list \<Rightarrow> nat option"
  assumes find_Some: "hash_find k t = Some i \<Longrightarrow> i < length t \<and> de_key (t ! i) = k"
    and find_None: "hash_find k t = None \<Longrightarrow> e \<in> set t \<Longrightarrow> de_key e \<noteq> k"
begin

lemma find_entry_Some:
  assumes "dns_find_entry hash_find p t = Some i"
  shows "i < length t \<and>
    (de_key (t ! i) = dns_key (ip0 (p_src_ip p)) (ip0 (p_dst_ip p)) (p_src_port p) (p_dst_port p) \<or>
     de_key (t ! i) = dns_key (ip0 (p_dst_ip p)) (ip0 (p_src_ip p)) (p_dst_port p) (p_src_port p))"
  using assms find_Some by (auto simp: dns_find_entry_def Let_def split: option.splits)

lemma find_entry_None:
  assumes "dns_find_entry hash_find p t = None" "e \<in> set t"
  shows "de_key e \<noteq> dns_key (ip0 (p_src_ip p)) (ip0 (p_dst_ip p)) (p_src_port p) (p_dst_port p) \<and>
         de_key e \<noteq> dns_key (ip0 (p_dst_ip p)) (ip0 (p_src_ip p)) (p_dst_port p) (p_src_port p)"
  using assms find_None [OF _ assms(2)] by (auto simp: dns_find_entry_def Let_def split: option.splits)

lemma find_entry_exchange:
  assumes "dns_wf t" "dns_find_entry hash_find p t = Some i" "is_dns p"
  shows "exchange (de_info (t ! i)) = exchange (dns_info now p)"
proof -
  have "dns_entry_ok (t ! i)" using assms(1) find_entry_Some [OF assms(2)] by (simp add: dns_wf_def)
  then show ?thesis
    using find_entry_Some [OF assms(2)]
    by (auto simp: dns_entry_ok_def exchange_info doubleton_eq_iff)
qed

lemma update_cases:
  assumes "dns_tracker_update hash_find info0 m now (Some p) t = (r, t')"
  obtains (refused) "r = -1" "t' = t"
    | (touched) i where "r = 0" "is_dns p" "dns_find_entry hash_find p t = Some i"
        "t' = t[i := (t ! i)\<lparr>de_last_seen := now\<rparr>]"
    | (added) "r = 0" "is_dns p" "dns_find_entry hash_find p t = None"
        "t' = t @ [\<lparr>de_key = dns_key (ip0 (p_src_ip p)) (ip0 (p_dst_ip p)) (p_src_port p) (p_dst_port p),
                    de_info = dns_info now p, de_last_seen = now\<rparr>]"
proof (cases "is_dns p")
  case False
  then have "r = -1" "t' = t"
    using assms by (simp_all add: dns_tracker_update_def dns_tracker_lookup_def dns_tracker_add_def)
  then show ?thesis by (rule refused)
next
  case dns: True
  have ts: "di_timestamp (dns_info now p) = now" by (simp add: dns_info_def)
  show ?thesis
  proof (cases "dns_find_entry hash_find p t")
    case (Some i)
    then have "r = 0" "t' = t[i := (t ! i)\<lparr>de_last_seen := now\<rparr>]"
      using assms dns by (simp_all add: dns_tracker_update_def dns_tracker_lookup_def)
    then show ?thesis using touched [OF _ dns Some] by simp
  next
    case None
    show ?thesis
    proof (cases m)
      case True
      with None show ?thesis
        using assms dns added [OF _ dns None]
        by (simp add: dns_tracker_update_def dns_tracker_lookup_def dns_tracker_add_def ts)
    next
      case False
      then have "r = -1" "t' = t"
        using assms dns None
        by (simp_all add: dns_tracker_update_def dns_tracker_lookup_def dns_tracker_add_def)
      then show ?thesis by (rule refused)
    qed
  qed
qed

lemma wf_update:
  assumes "dns_wf t" "dns_tracker_update hash_find info0 m now (Some p) t = (r, t')"
  shows "dns_wf t'"
  using assms(2)
proof (cases rule: update_cases)
  case (touched i)
  then show ?thesis using assms(1) dns_wf_touch by simp
next
  case added
  have "exchange (de_info e) \<noteq> exchange (dns_info now p)" if "e \<in> set t" for e
    using exchange_keys find_entry_None [OF added(3) that] assms(1) that by (auto simp: dns_wf_def)
  then show ?thesis
    using assms(1) added(2) by (force simp: dns_wf_def added(4) dns_entry_ok_def)
qed (use assms(1) in simp)

lemma update_finds:
  assumes "dns_tracker_update hash_find info0 m now (Some p) t = (0, t')"
  shows "dns_find_entry hash_find p t' \<noteq> None"
proof -
  have "\<exists>e\<in>set t'. de_key e = dns_key (ip0 (p_src_ip p)) (ip0 (p_dst_ip p)) (p_src_port p) (p_dst_port p) \<or>
      de_key e = dns_key (ip0 (p_dst_ip p)) (ip0 (p_src_ip p)) (p_dst_port p) (p_src_port p)"
    using assms
  proof (cases rule: update_cases)
    case (touched i)
    then have i: "(t ! i)\<lparr>de_last_seen := now\<rparr> \<in> set t'"
      using find_entry_Some [OF touched(3)] by (simp add: set_update_memI)
    show ?thesis by (rule bexI [OF _ i]) (use find_entry_Some [OF touched(3)] in simp)
  qed auto
  then show ?thesis using find_entry_None by blast
qed

end

text \<open>The contract of the hash table gives the contract of a flow table.\<close>

sublocale uthash \<subseteq> dns_flow: flow_table dns_wf
  "\<lambda>(info0, m, now) p. dns_tracker_update hash_find info0 m now (Some p)"
  "dns_find_entry hash_find"
proof unfold_locales
  fix x :: "dns_conntrack_info_t \<times> bool \<times> int" and p t
  obtain info0 m now where x: "x = (info0, m, now)" by (cases x)
  obtain r t' where u: "dns_tracker_update hash_find info0 m now (Some p) t = (r, t')" by fastforce
  show "dns_wf t \<Longrightarrow> dns_wf (snd ((\<lambda>(info0, m, now) p. dns_tracker_update hash_find info0 m now (Some p)) x p t))"
    using wf_update [OF _ u] by (simp add: x u)
  show "fst ((\<lambda>(info0, m, now) p. dns_tracker_update hash_find info0 m now (Some p)) x p t) = 0 \<Longrightarrow>
      dns_find_entry hash_find p (snd ((\<lambda>(info0, m, now) p. dns_tracker_update hash_find info0 m now (Some p)) x p t)) \<noteq> None"
    using update_finds [of info0 m now p t t'] by (simp add: x u)
  show "fst ((\<lambda>(info0, m, now) p. dns_tracker_update hash_find info0 m now (Some p)) x p t) \<noteq> 0 \<Longrightarrow>
      snd ((\<lambda>(info0, m, now) p. dns_tracker_update hash_find info0 m now (Some p)) x p t) = t"
    using u by (cases rule: update_cases) (simp_all add: x u)
qed

text \<open>A table whose search visits the elements in insertion order.\<close>

definition hash_find_first :: hash_find where
  "hash_find_first k t = index_of (\<lambda>e. de_key e = k) t"

interpretation first: uthash hash_find_first
  by unfold_locales (auto simp: hash_find_first_def index_of_Some index_of_None)

section \<open>Histories of the tracker\<close>

inductive dns_step :: "hash_find \<Rightarrow> dns_table \<Rightarrow> dns_table \<Rightarrow> bool" for hash_find where
  step_update: "dns_step hash_find t (snd (dns_tracker_update hash_find info0 m now packet t))"
| step_lookup: "dns_step hash_find t (snd (snd (dns_tracker_lookup hash_find now packet info t)))"
| step_expire: "dns_step hash_find t (snd (dns_tracker_cleanup_expired now t))"
| step_init: "dns_step hash_find t (snd (dns_tracker_init t))"
| step_cleanup: "dns_step hash_find t (snd (dns_tracker_cleanup t))"

lemma dns_wf_lookup: "dns_wf t \<Longrightarrow> dns_wf (snd (snd (dns_tracker_lookup hash_find now packet info t)))"
  by (auto simp: dns_tracker_lookup_def dns_wf_touch split: option.split)

lemma dns_update_null: "dns_tracker_update hash_find info0 m now None t = (-1, t)"
  by (simp add: dns_tracker_update_def dns_tracker_lookup_def dns_tracker_add_def)

context uthash
begin

lemma dns_step_wf: "dns_step hash_find t t' \<Longrightarrow> dns_wf t \<Longrightarrow> dns_wf t'"
proof (induction rule: dns_step.induct)
  case (step_update t info0 m now packet)
  then show ?case
    using wf_update [of t info0 m now] by (cases packet) (simp_all add: dns_update_null prod_eq_iff)
qed (simp_all add: dns_wf_lookup dns_wf_expired dns_tracker_init_def dns_tracker_cleanup_def)

lemma dns_reachable_wf: "(dns_step hash_find)\<^sup>*\<^sup>* [] t \<Longrightarrow> dns_wf t"
  by (induction rule: rtranclp_induct) (auto intro: dns_step_wf)

end

section \<open>Properties\<close>

text \<open>What the entry found for a response says of the exchange.\<close>

lemma dns_entry_roles:
  assumes "dns_entry_ok e"
    and "de_key e = dns_key s c 53 cp \<or> de_key e = dns_key c s cp 53" "cp \<noteq> 53"
  shows "ip0 (di_client_ip (de_info e)) = c \<and> di_client_port (de_info e) = cp \<and>
         ip0 (di_dns_server_ip (de_info e)) = s \<and> di_dns_server_port (de_info e) = 53"
  using assms by (auto simp: dns_entry_ok_def dns_info_def split: if_splits)

context uthash
begin

lemma find_entry_swapped:
  assumes "ip0 (p_src_ip r) = ip0 (p_dst_ip q)" "ip0 (p_dst_ip r) = ip0 (p_src_ip q)"
    and "p_src_port r = p_dst_port q" "p_dst_port r = p_src_port q"
    and "dns_find_entry hash_find q t \<noteq> None"
  shows "dns_find_entry hash_find r t \<noteq> None"
proof
  assume none: "dns_find_entry hash_find r t = None"
  obtain i where i: "dns_find_entry hash_find q t = Some i" using assms(5) by auto
  have "t ! i \<in> set t" using find_entry_Some [OF i] by simp
  then show False
    using find_entry_None [OF none] find_entry_Some [OF i] assms(1-4) by auto
qed

lemma update_length:
  assumes "dns_tracker_update hash_find info0 m now (Some p) t = (0, t')"
  shows "length t' = (if dns_find_entry hash_find p t = None then length t + 1 else length t)"
  using assms by (cases rule: update_cases) auto

end

text \<open>
  C21. A DNS query recorded by \<open>dns_tracker_update\<close> is found again from its response: in any well-formed table,
  once the update of a query from a client port other than 53 succeeds, \<open>dns_tracker_lookup\<close> of the packet with
  swapped addresses and ports succeeds and names the client and the server of the query; the table
  stays well formed, and the update changes the number of entries only when the exchange was unknown.
\<close>

theorem dns_response_finds_query:
  assumes "uthash hash_find" "dns_wf t"
    and "dns_tracker_update hash_find info0 m now (Some q) t = (0, t')"
    and "p_dst_port q = 53" "p_src_port q \<noteq> 53"
    and "p_type r = PACKET_IPV4_UDP_DATA" "ip0 (p_src_ip r) = ip0 (p_dst_ip q)" "ip0 (p_dst_ip r) = ip0 (p_src_ip q)"
    and "p_src_port r = 53" "p_dst_port r = p_src_port q"
  shows "\<exists>i t''. dns_tracker_lookup hash_find later (Some r) (Some info1) t' = (0, Some i, t'') \<and>
           ip0 (di_client_ip i) = ip0 (p_src_ip q) \<and> di_client_port i = p_src_port q \<and>
           ip0 (di_dns_server_ip i) = ip0 (p_dst_ip q) \<and> di_dns_server_port i = 53 \<and>
           dns_wf t'' \<and>
           length t' = (if dns_find_entry hash_find q t = None then length t + 1 else length t)"
proof -
  note update = assms(3)
  have found: "dns_find_entry hash_find r t' \<noteq> None"
    using uthash.find_entry_swapped [OF assms(1)] uthash.update_finds [OF assms(1) update] assms(4,7-10) by metis
  then obtain k where k: "dns_find_entry hash_find r t' = Some k" by auto
  have wf: "dns_wf t'" using uthash.wf_update [OF assms(1,2) update] .
  have pos: "k < length t'"
    "de_key (t' ! k) = dns_key (ip0 (p_dst_ip q)) (ip0 (p_src_ip q)) 53 (p_src_port q) \<or>
     de_key (t' ! k) = dns_key (ip0 (p_src_ip q)) (ip0 (p_dst_ip q)) (p_src_port q) 53"
    using uthash.find_entry_Some [OF assms(1) k] assms(7-10) by simp_all
  then have "dns_entry_ok (t' ! k)" using wf by (simp add: dns_wf_def)
  from dns_entry_roles [OF this pos(2) assms(5)] show ?thesis
    using k assms(6,9) dns_wf_touch [OF wf] uthash.update_length [OF assms(1) update]
    by (simp add: dns_tracker_lookup_def is_dns_def)
qed

definition sample_query :: packet_t where
  "sample_query = packet_zero\<lparr>p_type := PACKET_IPV4_UDP_DATA, p_src_ip := (1, 0, 0, 0),
                              p_dst_ip := (8, 0, 0, 0), p_src_port := 4000, p_dst_port := 53\<rparr>"

definition sample_response :: packet_t where
  "sample_response = packet_zero\<lparr>p_type := PACKET_IPV4_UDP_DATA, p_src_ip := (8, 0, 0, 0),
                                 p_dst_ip := (1, 0, 0, 0), p_src_port := 53, p_dst_port := 4000\<rparr>"

lemma first_uthash: "uthash hash_find_first"
  by (rule first.uthash_axioms)

lemma sample_query_update:
  "dns_tracker_update hash_find_first (dns_info 0 sample_query) True 7 (Some sample_query) [] =
     (0, [\<lparr>de_key = dns_key 1 8 4000 53, de_info = dns_info 7 sample_query, de_last_seen = 7\<rparr>])"
  by (simp add: dns_tracker_update_def dns_tracker_lookup_def dns_tracker_add_def dns_find_entry_def
      hash_find_first_def is_dns_def dns_info_def sample_query_def)

theorem dns_response_finds_query_witness:
  "\<exists>i t''. dns_tracker_lookup hash_find_first 9 (Some sample_response) (Some (dns_info 0 sample_query))
       (snd (dns_tracker_update hash_find_first (dns_info 0 sample_query) True 7 (Some sample_query) [])) = (0, Some i, t'') \<and>
     ip0 (di_client_ip i) = 1 \<and> di_client_port i = 4000"
  using dns_response_finds_query [OF first_uthash dns_wf_Nil sample_query_update, of sample_response 9 "dns_info 0 sample_query"]
  unfolding sample_query_update by (auto simp: sample_query_def sample_response_def)

lemma dns_entry_port:
  assumes "dns_entry_ok e"
  shows "di_client_port (de_info e) = 53 \<or> di_dns_server_port (de_info e) = 53"
proof -
  obtain p now where "is_dns p" "de_info e = dns_info now p"
    using assms unfolding dns_entry_ok_def by blast
  then show ?thesis by (cases "p_src_port p = 53") (simp_all add: is_dns_def dns_info_def)
qed

text \<open>
  C34. No exchange is recorded twice as long as packets enter the table through \<open>dns_tracker_update\<close>: after any
  history of updates, lookups, expiries and restarts, whatever element the hash table returns for a key, no
  two entries share their end points in either direction, and every entry belongs to a DNS packet.
\<close>

theorem dns_exchanges_unique:
  assumes "uthash hash_find" "(dns_step hash_find)\<^sup>*\<^sup>* [] t"
  shows "distinct (map (\<lambda>e. exchange (de_info e)) t) \<and>
         (\<forall>e\<in>set t. di_client_port (de_info e) = 53 \<or> di_dns_server_port (de_info e) = 53)"
  using uthash.dns_reachable_wf [OF assms] dns_entry_port unfolding dns_wf_def by blast

theorem dns_exchanges_unique_witness:
  "distinct (map (\<lambda>e. exchange (de_info e))
     (snd (dns_tracker_update hash_find_first (dns_info 0 sample_query) True 7 (Some sample_query) [])))"
  by (rule conjunct1 [OF dns_exchanges_unique [OF first_uthash r_into_rtranclp [of "dns_step hash_find_first",
      OF dns_step.step_update]]])

text \<open>
  \<open>dns_tracker_add\<close> itself does not look for its key: adding a DNS packet twice leaves two entries with one key
  in the table, and the statistics count the exchange twice.
\<close>

theorem dns_add_duplicates:
  "case dns_tracker_add True 1 (Some sample_query) [] of (r, t) \<Rightarrow>
   case dns_tracker_add True 2 (Some sample_query) t of (r', t') \<Rightarrow>
     r = 0 \<and> r' = 0 \<and> \<not> distinct (map de_key t') \<and>
     dns_tracker_get_stats 2 (Some 0) (Some 0) t' = (Some 2, Some 2)"
  by (simp add: dns_tracker_add_def dns_tracker_get_stats_def is_dns_def dns_info_def sample_query_def
      DNS_TRACKING_TIMEOUT_def)

end
