(* ===== verification/Uthash.thy ===== *)
theory Uthash
  imports FlowTable
begin

text \<open>
  \<open>src/utils/uthash.h\<close>, the hash table behind the DNS tracker, as the macros that \<open>tracking/dns_tracker.c\<close> uses
  expand with the default settings (fatal out-of-memory, no Bloom filter, Jenkins hash).

  Elements and their hash handles are identified by an address; the fields of the handles are one function per field
  (\<open>ut_heap\<close>), so that pointer updates are function updates.  Two doubly linked lists run through the
  handles: the application order (\<open>app_next\<close>, \<open>app_prev\<close>) and, per bucket, a chain (\<open>hh_next\<close>,
  \<open>hh_prev\<close>).  A loop over a chain is a partial function: \<open>None\<close> is a loop that does not end,
  which the invariant \<open>ut_rep\<close> excludes.  \<open>uthash_fatal\<close>, the exit of the process when memory runs out,
  is the result \<open>Exit_oom\<close>.
\<close>

section \<open>Data\<close>

type_synonym addr = nat

record ut_heap =
  app_prev :: "addr \<Rightarrow> addr option"
  app_next :: "addr \<Rightarrow> addr option"
  hh_prev :: "addr \<Rightarrow> addr option"
  hh_next :: "addr \<Rightarrow> addr option"
  hh_key :: "addr \<Rightarrow> bytes"
  hh_keylen :: "addr \<Rightarrow> u32"
  hh_hashv :: "addr \<Rightarrow> u32"

record ut_bucket =
  bkt_head :: "addr option"
  bkt_count :: u32
  bkt_expand_mult :: u32

record ut_table =
  ut_buckets :: "ut_bucket list"
  num_buckets :: u32
  log2_num_buckets :: u32
  num_items :: u32
  ut_tail :: "addr option"
  ideal_chain_maxlen :: u32
  nonideal_items :: u32
  ineff_expands :: u32
  noexpand :: u32

text \<open>The variable that heads the table, the table it leads to and the memory.\<close>

record ut_state =
  ut_head :: "addr option"
  ut_tbl :: ut_table
  ut_mem :: ut_heap

datatype ut_stop = Exit_oom | Fault c_fault

type_synonym 'a ut = "(ut_stop + 'a) option"

definition bindU :: "'a ut \<Rightarrow> ('a \<Rightarrow> 'b ut) \<Rightarrow> 'b ut" where
  "bindU m f = (case m of None \<Rightarrow> None | Some (Inl e) \<Rightarrow> Some (Inl e) | Some (Inr x) \<Rightarrow> f x)"

lemma bindU_simps [simp]:
  "bindU None f = None" "bindU (Some (Inl e)) f = Some (Inl e)" "bindU (Some (Inr x)) f = f x"
  by (simp_all add: bindU_def)

text \<open>A checked access to a buffer inside one of the macros.\<close>

definition liftU :: "'a cres \<Rightarrow> 'a ut" where
  "liftU r = (case r of Inl f \<Rightarrow> Some (Inl (Fault f)) | Inr x \<Rightarrow> Some (Inr x))"

lemma liftU_simps [simp]: "liftU (Inl f) = Some (Inl (Fault f))" "liftU (Inr x) = Some (Inr x)"
  by (simp_all add: liftU_def)

definition bucket_zero :: ut_bucket where
  "bucket_zero = \<lparr>bkt_head = None, bkt_count = 0, bkt_expand_mult = 0\<rparr>"

definition HASH_INITIAL_NUM_BUCKETS :: u32 where "HASH_INITIAL_NUM_BUCKETS = 32"
definition HASH_INITIAL_NUM_BUCKETS_LOG2 :: u32 where "HASH_INITIAL_NUM_BUCKETS_LOG2 = 5"
definition HASH_BKT_CAPACITY_THRESH :: u32 where "HASH_BKT_CAPACITY_THRESH = 10"

definition sizeof_bucket :: size_t where "sizeof_bucket = 16"
definition sizeof_table :: size_t where "sizeof_table = 64"

section \<open>The hash function\<close>

definition HASH_JEN_MIX :: "u32 \<times> u32 \<times> u32 \<Rightarrow> u32 \<times> u32 \<times> u32" where
  "HASH_JEN_MIX abc =
     (let (a, b, c) = abc;
          a = a - b; a = a - c; a = a XOR drop_bit 13 c;
          b = b - c; b = b - a; b = b XOR push_bit 8 a;
          c = c - a; c = c - b; c = c XOR drop_bit 13 b;
          a = a - b; a = a - c; a = a XOR drop_bit 12 c;
          b = b - c; b = b - a; b = b XOR push_bit 16 a;
          c = c - a; c = c - b; c = c XOR drop_bit 5 b;
          a = a - b; a = a - c; a = a XOR drop_bit 3 c;
          b = b - c; b = b - a; b = b XOR push_bit 10 a;
          c = c - a; c = c - b; c = c XOR drop_bit 15 b
      in (a, b, c))"

text \<open>\<open>(unsigned) key[n] << sh\<close>, for a byte inside the key; the fall-through switch adds the bytes that are left.\<close>

definition key_byte :: "bytes \<Rightarrow> nat \<Rightarrow> nat \<Rightarrow> u32" where
  "key_byte key n sh = (if n < length key then push_bit sh (ucast (key ! n)) else 0)"

definition key_word :: "bytes \<Rightarrow> nat \<Rightarrow> u32" where
  "key_word key n = key_byte key n 0 + key_byte key (n + 1) 8 + key_byte key (n + 2) 16 + key_byte key (n + 3) 24"

function jen_loop :: "u32 \<times> u32 \<times> u32 \<Rightarrow> bytes \<Rightarrow> (u32 \<times> u32 \<times> u32) \<times> bytes" where
  "jen_loop (i, j, hashv) key =
     (if 12 \<le> length key
      then jen_loop (HASH_JEN_MIX (i + key_word key 0, j + key_word key 4, hashv + key_word key 8)) (drop 12 key)
      else ((i, j, hashv), key))"
  by pat_completeness auto
termination
  by (relation "measure (\<lambda>(s, key). length key)") auto

declare jen_loop.simps [simp del]

definition HASH_JEN :: "bytes \<Rightarrow> u32" where
  "HASH_JEN key =
     (case jen_loop (0x9e3779b9, 0x9e3779b9, 0xfeedbeef) key of ((i, j, hashv), key') \<Rightarrow>
        let hashv = hashv + of_nat (length key);
            hashv = hashv + key_byte key' 10 24 + key_byte key' 9 16 + key_byte key' 8 8;
            j = j + key_byte key' 7 24 + key_byte key' 6 16 + key_byte key' 5 8 + key_byte key' 4 0;
            i = i + key_byte key' 3 24 + key_byte key' 2 16 + key_byte key' 1 8 + key_byte key' 0 0
        in snd (snd (HASH_JEN_MIX (i, j, hashv))))"

section \<open>Buckets\<close>

definition HASH_TO_BKT :: "u32 \<Rightarrow> u32 \<Rightarrow> u32" where
  "HASH_TO_BKT hashv num_bkts = hashv AND (num_bkts - 1)"

text \<open>\<open>HASH_KEYCMP\<close> is \<open>memcmp\<close> of \<open>keylen\<close> bytes; both keys hold that many.\<close>

partial_function (option) find_in_bkt :: "ut_heap \<Rightarrow> bytes \<Rightarrow> u32 \<Rightarrow> u32 \<Rightarrow> addr option \<Rightarrow> addr option option" where [code]:
  "find_in_bkt m key keylen hashval out =
     (case out of None \<Rightarrow> Some None
      | Some a \<Rightarrow>
          if hh_hashv m a = hashval \<and> hh_keylen m a = keylen \<and>
             take (unat keylen) (hh_key m a) = take (unat keylen) key
          then Some (Some a)
          else find_in_bkt m key keylen hashval (hh_next m a))"

text \<open>\<open>_he_thh\<close> walks one old chain and pushes each handle in front of its new bucket.\<close>

definition grow_bucket :: "u32 \<Rightarrow> ut_bucket \<Rightarrow> u32 \<Rightarrow> ut_bucket \<times> u32" where
  "grow_bucket ideal k nonideal =
     (let k1 = k\<lparr>bkt_count := bkt_count k + 1\<rparr> in
      if bkt_count k1 > ideal
      then (if bkt_count k1 > bkt_expand_mult k1 * ideal
            then k1\<lparr>bkt_expand_mult := bkt_expand_mult k1 + 1\<rparr> else k1, nonideal + 1)
      else (k1, nonideal))"

definition push_chain :: "addr \<Rightarrow> addr option \<Rightarrow> ut_heap \<Rightarrow> ut_heap" where
  "push_chain x front m =
     (let m1 = m\<lparr>hh_prev := (hh_prev m)(x := None), hh_next := (hh_next m)(x := front)\<rparr> in
      case front of None \<Rightarrow> m1 | Some y \<Rightarrow> m1\<lparr>hh_prev := (hh_prev m1)(y := Some x)\<rparr>)"

partial_function (option) expand_chain ::
  "u32 \<Rightarrow> u32 \<Rightarrow> addr option \<Rightarrow> ut_heap \<Rightarrow> ut_bucket list \<Rightarrow> u32 \<Rightarrow> (ut_heap \<times> ut_bucket list \<times> u32) ut" where [code]:
  "expand_chain nb2 ideal thh m new nonideal =
     (case thh of None \<Rightarrow> Some (Inr (m, new, nonideal))
      | Some x \<Rightarrow>
          (let hh_nxt = hh_next m x; b = unat (HASH_TO_BKT (hh_hashv m x) nb2) in
           if b < length new
           then (case grow_bucket ideal (new ! b) nonideal of (k, nonideal') \<Rightarrow>
                   expand_chain nb2 ideal hh_nxt (push_chain x (bkt_head k) m)
                     (new[b := k\<lparr>bkt_head := Some x\<rparr>]) nonideal')
           else Some (Inl (Fault OutOfBounds))))"

fun expand_all ::
  "u32 \<Rightarrow> u32 \<Rightarrow> ut_bucket list \<Rightarrow> ut_heap \<Rightarrow> ut_bucket list \<Rightarrow> u32 \<Rightarrow> (ut_heap \<times> ut_bucket list \<times> u32) ut" where
  "expand_all nb2 ideal [] m new nonideal = Some (Inr (m, new, nonideal))"
| "expand_all nb2 ideal (k # ks) m new nonideal =
     bindU (expand_chain nb2 ideal (bkt_head k) m new nonideal)
       (\<lambda>(m', new', nonideal'). expand_all nb2 ideal ks m' new' nonideal')"

definition HASH_EXPAND_BUCKETS :: "(size_t \<Rightarrow> bool) \<Rightarrow> ut_heap \<Rightarrow> ut_table \<Rightarrow> (ut_heap \<times> ut_table) ut" where
  "HASH_EXPAND_BUCKETS malloc m t =
     (if \<not> malloc (sizeof_bucket * ucast (num_buckets t) * 2) then Some (Inl Exit_oom)
      else
        let new = replicate (unat (num_buckets t) * 2) bucket_zero;
            ideal = drop_bit (unat (log2_num_buckets t + 1)) (num_items t) +
                    (if num_items t AND (num_buckets t * 2 - 1) \<noteq> 0 then 1 else 0)
        in bindU (expand_all (num_buckets t * 2) ideal (take (unat (num_buckets t)) (ut_buckets t)) m new 0)
             (\<lambda>(m', new', nonideal).
                let ineff = (if nonideal > drop_bit 1 (num_items t) then ineff_expands t + 1 else 0) in
                Some (Inr (m', t\<lparr>ideal_chain_maxlen := ideal, nonideal_items := nonideal,
                                num_buckets := num_buckets t * 2, log2_num_buckets := log2_num_buckets t + 1,
                                ut_buckets := new', ineff_expands := ineff,
                                noexpand := (if ineff > 1 then 1 else noexpand t)\<rparr>))))"

definition HASH_ADD_TO_BKT :: "(size_t \<Rightarrow> bool) \<Rightarrow> nat \<Rightarrow> addr \<Rightarrow> ut_heap \<Rightarrow> ut_table \<Rightarrow> (ut_heap \<times> ut_table) ut" where
  "HASH_ADD_TO_BKT malloc b x m t =
     (if b < length (ut_buckets t)
      then (let k = ut_buckets t ! b;
                k1 = k\<lparr>bkt_count := bkt_count k + 1, bkt_head := Some x\<rparr>;
                m1 = push_chain x (bkt_head k) m;
                t1 = t\<lparr>ut_buckets := (ut_buckets t)[b := k1]\<rparr>
            in if bkt_count k1 \<ge> (bkt_expand_mult k1 + 1) * HASH_BKT_CAPACITY_THRESH \<and> noexpand t1 = 0
               then HASH_EXPAND_BUCKETS malloc m1 t1
               else Some (Inr (m1, t1)))
      else Some (Inl (Fault OutOfBounds)))"

definition HASH_DEL_IN_BKT :: "nat \<Rightarrow> addr \<Rightarrow> ut_heap \<Rightarrow> ut_table \<Rightarrow> (ut_heap \<times> ut_table) ut" where
  "HASH_DEL_IN_BKT b x m t =
     (if b < length (ut_buckets t)
      then (let k = ut_buckets t ! b;
                k1 = k\<lparr>bkt_count := bkt_count k - 1\<rparr>;
                k2 = (if bkt_head k1 = Some x then k1\<lparr>bkt_head := hh_next m x\<rparr> else k1);
                m1 = (case hh_prev m x of None \<Rightarrow> m
                      | Some y \<Rightarrow> m\<lparr>hh_next := (hh_next m)(y := hh_next m x)\<rparr>);
                m2 = (case hh_next m1 x of None \<Rightarrow> m1
                      | Some z \<Rightarrow> m1\<lparr>hh_prev := (hh_prev m1)(z := hh_prev m1 x)\<rparr>)
            in Some (Inr (m2, t\<lparr>ut_buckets := (ut_buckets t)[b := k2]\<rparr>)))
      else Some (Inl (Fault OutOfBounds)))"

section \<open>The table\<close>

definition HASH_MAKE_TABLE :: "(size_t \<Rightarrow> bool) \<Rightarrow> addr \<Rightarrow> ut_table ut" where
  "HASH_MAKE_TABLE malloc add =
     (if \<not> malloc sizeof_table then Some (Inl Exit_oom)
      else if \<not> malloc (ucast HASH_INITIAL_NUM_BUCKETS * sizeof_bucket) then Some (Inl Exit_oom)
      else Some (Inr \<lparr>ut_buckets = replicate (unat HASH_INITIAL_NUM_BUCKETS) bucket_zero,
                      num_buckets = HASH_INITIAL_NUM_BUCKETS, log2_num_buckets = HASH_INITIAL_NUM_BUCKETS_LOG2,
                      num_items = 0, ut_tail = Some add, ideal_chain_maxlen = 0, nonideal_items = 0,
                      ineff_expands = 0, noexpand = 0\<rparr>))"

definition HASH_APPEND_LIST :: "addr \<Rightarrow> ut_state \<Rightarrow> ut_state ut" where
  "HASH_APPEND_LIST add s =
     (case ut_tail (ut_tbl s) of None \<Rightarrow> Some (Inl (Fault NullDeref))
      | Some l \<Rightarrow>
          (let m = ut_mem s;
               m1 = m\<lparr>app_next := (app_next m)(add := None), app_prev := (app_prev m)(add := Some l)\<rparr>;
               m2 = m1\<lparr>app_next := (app_next m1)(l := Some add)\<rparr>
           in Some (Inr (s\<lparr>ut_mem := m2, ut_tbl := (ut_tbl s)\<lparr>ut_tail := Some add\<rparr>\<rparr>))))"

definition HASH_ADD_TO_TABLE :: "(size_t \<Rightarrow> bool) \<Rightarrow> u32 \<Rightarrow> addr \<Rightarrow> ut_state \<Rightarrow> ut_state ut" where
  "HASH_ADD_TO_TABLE malloc hashval add s =
     (let t = (ut_tbl s)\<lparr>num_items := num_items (ut_tbl s) + 1\<rparr>;
          b = unat (HASH_TO_BKT hashval (num_buckets t))
      in bindU (HASH_ADD_TO_BKT malloc b add (ut_mem s) t) (\<lambda>(m', t'). Some (Inr (s\<lparr>ut_mem := m', ut_tbl := t'\<rparr>))))"

definition HASH_ADD_KEYPTR_BYHASHVALUE ::
  "(size_t \<Rightarrow> bool) \<Rightarrow> bytes \<Rightarrow> u32 \<Rightarrow> u32 \<Rightarrow> addr \<Rightarrow> ut_state \<Rightarrow> ut_state ut" where
  "HASH_ADD_KEYPTR_BYHASHVALUE malloc key keylen hashval add s =
     (let m = ut_mem s;
          m1 = m\<lparr>hh_hashv := (hh_hashv m)(add := hashval), hh_key := (hh_key m)(add := key),
                 hh_keylen := (hh_keylen m)(add := keylen)\<rparr>;
          s1 = s\<lparr>ut_mem := m1\<rparr>
      in bindU
           (case ut_head s1 of
              None \<Rightarrow>
                (let m2 = m1\<lparr>app_next := (app_next m1)(add := None), app_prev := (app_prev m1)(add := None)\<rparr> in
                 bindU (HASH_MAKE_TABLE malloc add) (\<lambda>t.
                   Some (Inr (s1\<lparr>ut_mem := m2, ut_tbl := t, ut_head := Some add\<rparr>))))
            | Some _ \<Rightarrow> HASH_APPEND_LIST add s1)
           (HASH_ADD_TO_TABLE malloc hashval add))"

text \<open>\<open>HASH_ADD_STR\<close> and \<open>HASH_FIND_STR\<close>: the key is a string without its terminator.\<close>

definition HASH_ADD :: "(size_t \<Rightarrow> bool) \<Rightarrow> bytes \<Rightarrow> addr \<Rightarrow> ut_state \<Rightarrow> ut_state ut" where
  "HASH_ADD malloc key add s =
     HASH_ADD_KEYPTR_BYHASHVALUE malloc key (of_nat (length key)) (HASH_JEN key) add s"

definition HASH_FIND_BYHASHVALUE :: "bytes \<Rightarrow> u32 \<Rightarrow> u32 \<Rightarrow> ut_state \<Rightarrow> addr option ut" where
  "HASH_FIND_BYHASHVALUE key keylen hashval s =
     (case ut_head s of None \<Rightarrow> Some (Inr None)
      | Some _ \<Rightarrow>
          (let b = unat (HASH_TO_BKT hashval (num_buckets (ut_tbl s))) in
           if b < length (ut_buckets (ut_tbl s))
           then map_option Inr (find_in_bkt (ut_mem s) key keylen hashval (bkt_head (ut_buckets (ut_tbl s) ! b)))
           else Some (Inl (Fault OutOfBounds))))"

definition HASH_FIND :: "bytes \<Rightarrow> ut_state \<Rightarrow> addr option ut" where
  "HASH_FIND key s =
     (case ut_head s of None \<Rightarrow> Some (Inr None)
      | Some _ \<Rightarrow> HASH_FIND_BYHASHVALUE key (of_nat (length key)) (HASH_JEN key) s)"

definition HASH_DELETE_HH :: "addr \<Rightarrow> ut_state \<Rightarrow> ut_state ut" where
  "HASH_DELETE_HH x s =
     (let m = ut_mem s; t = ut_tbl s in
      if app_prev m x = None \<and> app_next m x = None then Some (Inr (s\<lparr>ut_head := None\<rparr>))
      else
        let t1 = (if ut_tail t = Some x then t\<lparr>ut_tail := app_prev m x\<rparr> else t);
            (m1, head1) = (case app_prev m x of
                 Some y \<Rightarrow> (m\<lparr>app_next := (app_next m)(y := app_next m x)\<rparr>, ut_head s)
               | None \<Rightarrow> (m, app_next m x));
            m2 = (case app_next m1 x of None \<Rightarrow> m1
                  | Some z \<Rightarrow> m1\<lparr>app_prev := (app_prev m1)(z := app_prev m1 x)\<rparr>);
            b = unat (HASH_TO_BKT (hh_hashv m2 x) (num_buckets t1))
        in bindU (HASH_DEL_IN_BKT b x m2 t1) (\<lambda>(m3, t2).
             Some (Inr (s\<lparr>ut_head := head1, ut_mem := m3, ut_tbl := t2\<lparr>num_items := num_items t2 - 1\<rparr>\<rparr>))))"

definition HASH_CLEAR :: "ut_state \<Rightarrow> ut_state" where
  "HASH_CLEAR s = (if ut_head s \<noteq> None then s\<lparr>ut_head := None\<rparr> else s)"

definition HASH_COUNT :: "ut_state \<Rightarrow> u32" where
  "HASH_COUNT s = (if ut_head s \<noteq> None then num_items (ut_tbl s) else 0)"

text \<open>\<open>HASH_ITER\<close> with a body that deletes the current element when \<open>cond\<close> holds, as the tracker's clean-up
  loops do: the successor \<open>tmp\<close> is read before the body runs.  \<open>freed\<close> lists the elements that the body deletes
  and hands to \<open>free\<close>, in order.\<close>

partial_function (option) iter_delete ::
  "(addr \<Rightarrow> bool) \<Rightarrow> addr option \<Rightarrow> addr option \<Rightarrow> ut_state \<Rightarrow> addr list \<Rightarrow> (addr list \<times> ut_state) ut" where [code]:
  "iter_delete cond el tmp s freed =
     (case el of None \<Rightarrow> Some (Inr (freed, s))
      | Some x \<Rightarrow>
          if cond x
          then (case HASH_DELETE_HH x s of
                  None \<Rightarrow> None
                | Some (Inl e) \<Rightarrow> Some (Inl e)
                | Some (Inr s') \<Rightarrow>
                    iter_delete cond tmp (case tmp of None \<Rightarrow> None | Some y \<Rightarrow> app_next (ut_mem s') y) s' (freed @ [x]))
          else iter_delete cond tmp (case tmp of None \<Rightarrow> None | Some y \<Rightarrow> app_next (ut_mem s) y) s freed)"

definition HASH_ITER_DELETE :: "(addr \<Rightarrow> bool) \<Rightarrow> ut_state \<Rightarrow> (addr list \<times> ut_state) ut" where
  "HASH_ITER_DELETE cond s =
     iter_delete cond (ut_head s) (case ut_head s of None \<Rightarrow> None | Some x \<Rightarrow> app_next (ut_mem s) x) s []"

section \<open>The integrity check\<close>

text \<open>\<open>HASH_FSCK\<close> of the debug build: \<open>False\<close> stands for \<open>HASH_OOPS\<close>.  \<open>fsck_walk\<close> walks a list from \<open>thh\<close> with links \<open>nx\<close>,
  compares the back links \<open>pv\<close> with the element before and counts; \<open>None\<close> inside is an \<open>HASH_OOPS\<close>.\<close>

partial_function (option) fsck_walk ::
  "(addr \<Rightarrow> addr option) \<Rightarrow> (addr \<Rightarrow> addr option) \<Rightarrow> addr option \<Rightarrow> addr option \<Rightarrow> u32 \<Rightarrow> u32 option option" where [code]:
  "fsck_walk nx pv prev thh count =
     (case thh of None \<Rightarrow> Some (Some count)
      | Some x \<Rightarrow> if prev \<noteq> pv x then Some None else fsck_walk nx pv (Some x) (nx x) (count + 1))"

fun fsck_buckets :: "ut_heap \<Rightarrow> ut_bucket list \<Rightarrow> u32 \<Rightarrow> u32 option option" where
  "fsck_buckets m [] count = Some (Some count)"
| "fsck_buckets m (k # ks) count =
     (case fsck_walk (hh_next m) (hh_prev m) None (bkt_head k) 0 of
        None \<Rightarrow> None
      | Some None \<Rightarrow> Some None
      | Some (Some c) \<Rightarrow> if bkt_count k \<noteq> c then Some None else fsck_buckets m ks (count + c))"

definition HASH_FSCK :: "ut_state \<Rightarrow> bool option" where
  "HASH_FSCK s =
     (case ut_head s of None \<Rightarrow> Some True
      | Some h \<Rightarrow>
          (let m = ut_mem s; t = ut_tbl s in
           case fsck_buckets m (take (unat (num_buckets t)) (ut_buckets t)) 0 of
             None \<Rightarrow> None
           | Some None \<Rightarrow> Some False
           | Some (Some count) \<Rightarrow>
               if count \<noteq> num_items t then Some False
               else (case fsck_walk (app_next m) (app_prev m) None (Some h) 0 of
                       None \<Rightarrow> None
                     | Some None \<Rightarrow> Some False
                     | Some (Some c) \<Rightarrow> Some (c = num_items t))))"

end
