(* ===== verification/UthashCorrect.thy ===== *)
theory UthashCorrect
  imports Uthash
begin

text \<open>
  The hash table of \<open>src/utils/uthash.h\<close> represents a list of elements.  \<open>dll\<close> relates a doubly linked list in memory to the
  list of its addresses; \<open>ut_rep\<close> is the representation invariant of the table.  Adding appends, deleting
  removes, the bucket expansion changes nothing, searching finds an element with the key exactly when there is one,
  and the integrity check of the debug build never complains.
\<close>

section \<open>Doubly linked lists\<close>

fun dll :: "(addr \<Rightarrow> addr option) \<Rightarrow> (addr \<Rightarrow> addr option) \<Rightarrow> addr option \<Rightarrow> addr option \<Rightarrow> addr list \<Rightarrow> bool" where
  "dll nx pv q p [] \<longleftrightarrow> p = None"
| "dll nx pv q p (x # xs) \<longleftrightarrow> p = Some x \<and> pv x = q \<and> dll nx pv (Some x) (nx x) xs"

lemma dll_nx_other [simp]: "y \<notin> set xs \<Longrightarrow> dll (nx(y := v)) pv q p xs = dll nx pv q p xs"
  by (induction xs arbitrary: q p) auto

lemma dll_pv_other [simp]: "y \<notin> set xs \<Longrightarrow> dll nx (pv(y := v)) q p xs = dll nx pv q p xs"
  by (induction xs arbitrary: q p) auto

lemma dll_cong:
  "(\<And>x. x \<in> set xs \<Longrightarrow> nx x = nx' x \<and> pv x = pv' x) \<Longrightarrow> dll nx pv q p xs = dll nx' pv' q p xs"
  by (induction xs arbitrary: q p) auto

lemma dll_head: "dll nx pv q p xs \<Longrightarrow> p = (case xs of [] \<Rightarrow> None | x # _ \<Rightarrow> Some x)"
  by (cases xs) auto

lemma dll_next_in: "dll nx pv q p xs \<Longrightarrow> x \<in> set xs \<Longrightarrow> nx x = Some y \<Longrightarrow> y \<in> set xs"
proof (induction xs arbitrary: q p)
  case (Cons a xs)
  then show ?case by (cases xs) auto
qed simp

lemma dll_prev_in:
  "dll nx pv q p xs \<Longrightarrow> x \<in> set xs \<Longrightarrow> pv x = (if p = Some x then q else pv x) \<and>
   (p \<noteq> Some x \<longrightarrow> (\<exists>y \<in> set xs. pv x = Some y))"
proof (induction xs arbitrary: q p)
  case (Cons a xs)
  show ?case
  proof (cases "x = a")
    case False
    then have "x \<in> set xs" "dll nx pv (Some a) (nx a) xs" "p = Some a" using Cons.prems by auto
    then show ?thesis using Cons.IH [of "Some a" "nx a"] False by (cases "nx a = Some x") auto
  qed (use Cons.prems in auto)
qed simp

lemma dll_push:
  assumes "dll nx pv None p xs" "distinct xs" "x \<notin> set xs"
  shows "dll (nx(x := p)) (case p of None \<Rightarrow> pv(x := None) | Some y \<Rightarrow> (pv(x := None))(y := Some x)) None (Some x) (x # xs)"
  using assms by (cases xs) auto

lemma dll_append:
  assumes "dll nx pv q p xs" "distinct xs" "xs \<noteq> []" "a \<notin> set xs"
  shows "dll ((nx(a := None))(last xs := Some a)) (pv(a := Some (last xs))) q p (xs @ [a])"
  using assms
proof (induction xs arbitrary: q p)
  case (Cons x xs)
  show ?case
  proof (cases "xs = []")
    case False
    then have "x \<noteq> last xs" using Cons.prems(2) last_in_set by force
    then show ?thesis using Cons False by auto
  qed (use Cons.prems in auto)
qed simp

lemma dll_delete:
  assumes "dll nx pv q p xs" "distinct xs" "x \<in> set xs" "\<And>y. q = Some y \<Longrightarrow> y \<notin> set xs"
  defines "nx' \<equiv> (case pv x of None \<Rightarrow> nx | Some y \<Rightarrow> nx(y := nx x))"
    and "pv' \<equiv> (case nx x of None \<Rightarrow> pv | Some z \<Rightarrow> pv(z := pv x))"
  shows "dll nx' pv' q (if p = Some x then nx x else p) (remove1 x xs)"
  using assms(1-4)
proof (induction xs arbitrary: q p)
  case (Cons a xs)
  have a: "p = Some a" "pv a = q" "dll nx pv (Some a) (nx a) xs" "a \<notin> set xs" "distinct xs"
    using Cons.prems by auto
  show ?case
  proof (cases "a = x")
    case True
    have "dll nx' pv' q (nx x) xs"
    proof (cases xs)
      case Nil
      then show ?thesis using a True by simp
    next
      case (Cons b zs)
      then have b: "nx x = Some b" "dll nx pv (Some b) (nx b) zs" "b \<notin> set zs" "distinct zs" "b \<noteq> x"
        using a True by auto
      have "nx' y = nx y" if "y \<in> set xs" for y
        using that Cons.prems(4) a True by (auto simp: nx'_def split: option.splits)
      moreover have "pv' y = pv y" if "y \<in> set zs" for y
        using that b by (auto simp: pv'_def)
      moreover have "pv' b = q" using b a True by (simp add: pv'_def)
      ultimately show ?thesis
        using b Cons dll_cong [of zs nx nx' pv pv' "Some b" "nx b"] by simp
    qed
    then show ?thesis using a True by simp
  next
    case False
    then have x: "x \<in> set xs" using Cons.prems by simp
    have IH: "dll nx' pv' (Some a) (if nx a = Some x then nx x else nx a) (remove1 x xs)"
      using Cons.IH [OF a(3,5) x] a(4) by simp
    have "nx' a = (if nx a = Some x then nx x else nx a)"
      using dll_prev_in [OF a(3) x] a(4) by (auto simp: nx'_def split: option.splits if_splits)
    moreover have "pv' a = pv a"
      using dll_next_in [OF a(3) x] a(4) by (auto simp: pv'_def split: option.splits)
    ultimately show ?thesis using IH a False by simp
  qed
qed simp

section \<open>Buckets\<close>

text \<open>The buckets hold the elements of \<open>S\<close>, each in the bucket of its hash value.\<close>

definition buckets_rep :: "ut_heap \<Rightarrow> nat \<Rightarrow> ut_bucket list \<Rightarrow> addr set \<Rightarrow> bool" where
  "buckets_rep m n bs S \<longleftrightarrow>
     length bs = n \<and>
     (\<forall>b < n. \<exists>ys. dll (hh_next m) (hh_prev m) None (bkt_head (bs ! b)) ys \<and> distinct ys \<and>
        set ys = {x \<in> S. unat (HASH_TO_BKT (hh_hashv m x) (of_nat n)) = b} \<and>
        bkt_count (bs ! b) = of_nat (length ys))"

text \<open>The chain of one bucket, and the buckets after the change of one of them.\<close>

definition chain_at :: "ut_heap \<Rightarrow> nat \<Rightarrow> addr set \<Rightarrow> nat \<Rightarrow> ut_bucket \<Rightarrow> addr list \<Rightarrow> bool" where
  "chain_at m n S b k ys \<longleftrightarrow> dll (hh_next m) (hh_prev m) None (bkt_head k) ys \<and> distinct ys \<and>
     set ys = {x \<in> S. unat (HASH_TO_BKT (hh_hashv m x) (of_nat n)) = b} \<and> bkt_count k = of_nat (length ys)"

lemma buckets_rep_chains: "buckets_rep m n bs S \<longleftrightarrow> length bs = n \<and> (\<forall>b < n. \<exists>ys. chain_at m n S b (bs ! b) ys)"
  by (simp only: buckets_rep_def chain_at_def)

lemma buckets_rep_update:
  assumes "buckets_rep m n bs S" "b < n" "chain_at m' n S' b k ys"
    and "\<And>c ys. c < n \<Longrightarrow> c \<noteq> b \<Longrightarrow> chain_at m n S c (bs ! c) ys \<Longrightarrow> chain_at m' n S' c (bs ! c) ys"
  shows "buckets_rep m' n (bs[b := k]) S'"
  using assms unfolding buckets_rep_chains by (metis length_list_update nth_list_update)

lemma to_bkt_bound: "l < 32 \<Longrightarrow> unat (HASH_TO_BKT h (of_nat (2 ^ l))) < 2 ^ l"
proof -
  assume l: "l < 32"
  have "HASH_TO_BKT h (of_nat (2 ^ l)) = take_bit l h"
    by (simp add: HASH_TO_BKT_def take_bit_eq_mask mask_eq_decr_exp)
  then show ?thesis
    using l by (simp add: unsigned_take_bit_eq)
qed

lemma buckets_rep_empty:
  "buckets_rep m n (replicate n bucket_zero) {}"
  by (auto simp: buckets_rep_def bucket_zero_def intro!: exI [of _ "[]"])

lemma push_chain_simps [simp]:
  "hh_next (push_chain x f m) = (hh_next m)(x := f)"
  "hh_prev (push_chain x f m) =
     (case f of None \<Rightarrow> (hh_prev m)(x := None) | Some y \<Rightarrow> ((hh_prev m)(x := None))(y := Some x))"
  "hh_hashv (push_chain x f m) = hh_hashv m" "hh_key (push_chain x f m) = hh_key m"
  "hh_keylen (push_chain x f m) = hh_keylen m" "app_next (push_chain x f m) = app_next m"
  "app_prev (push_chain x f m) = app_prev m"
  by (auto simp: push_chain_def Let_def split: option.split)

lemma buckets_rep_push:
  assumes rep: "buckets_rep m n bs S" and x: "x \<notin> S" "finite S"
    and b: "b = unat (HASH_TO_BKT (hh_hashv m x) (of_nat n))" "b < n"
    and k: "bkt_head k = Some x" "bkt_count k = bkt_count (bs ! b) + 1"
  shows "buckets_rep (push_chain x (bkt_head (bs ! b)) m) n (bs[b := k]) (insert x S)"
proof -
  let ?m = "push_chain x (bkt_head (bs ! b)) m"
  obtain ys where ys: "chain_at m n S b (bs ! b) ys" using rep b(2) by (auto simp: buckets_rep_chains)
  have xs: "x \<notin> set ys" using ys x by (simp add: chain_at_def)
  have "set (x # ys) = {y \<in> insert x S. unat (HASH_TO_BKT (hh_hashv m y) (of_nat n)) = b}"
    using ys b(1) by (auto simp: chain_at_def)
  then have own: "chain_at ?m n (insert x S) b k (x # ys)"
    using dll_push [of "hh_next m" "hh_prev m" "bkt_head (bs ! b)" ys x] ys xs k by (simp add: chain_at_def)
  have other: "chain_at ?m n (insert x S) c (bs ! c) zs" if c: "c \<noteq> b" "chain_at m n S c (bs ! c) zs" for c zs
  proof -
    have xz: "x \<notin> set zs" using c(2) x by (simp add: chain_at_def)
    have "bkt_head (bs ! b) = Some z \<Longrightarrow> z \<notin> set zs" for z
      using ys c by (cases ys) (auto simp: chain_at_def)
    then have "dll (hh_next ?m) (hh_prev ?m) None (bkt_head (bs ! c)) zs"
      using c(2) xz by (cases "bkt_head (bs ! b)") (simp_all add: chain_at_def)
    then show ?thesis using c b(1) by (auto simp: chain_at_def)
  qed
  show ?thesis by (rule buckets_rep_update [OF rep b(2) own other])
qed

section \<open>Expansion\<close>

text \<open>What no operation on the chains touches.\<close>

definition same_handles :: "ut_heap \<Rightarrow> ut_heap \<Rightarrow> bool" where
  "same_handles m m' \<longleftrightarrow>
     hh_hashv m' = hh_hashv m \<and> hh_key m' = hh_key m \<and> hh_keylen m' = hh_keylen m \<and>
     app_next m' = app_next m \<and> app_prev m' = app_prev m"

lemma same_handles_refl [simp]: "same_handles m m"
  by (simp add: same_handles_def)

lemma same_handles_trans: "same_handles m m' \<Longrightarrow> same_handles m' m'' \<Longrightarrow> same_handles m m''"
  by (simp add: same_handles_def)

lemma same_handles_push [simp]: "same_handles m (push_chain x f m)"
  by (simp add: same_handles_def)

text \<open>The forward links alone.\<close>

fun nchain :: "(addr \<Rightarrow> addr option) \<Rightarrow> addr option \<Rightarrow> addr list \<Rightarrow> bool" where
  "nchain nx p [] \<longleftrightarrow> p = None"
| "nchain nx p (x # xs) \<longleftrightarrow> p = Some x \<and> nchain nx (nx x) xs"

lemma dll_nchain: "dll nx pv q p xs \<Longrightarrow> nchain nx p xs"
  by (induction xs arbitrary: q p) auto

lemma nchain_cong: "(\<And>x. x \<in> set xs \<Longrightarrow> nx x = nx' x) \<Longrightarrow> nchain nx p xs = nchain nx' p xs"
  by (induction xs arbitrary: p) auto

lemma nchain_other [simp]: "y \<notin> set xs \<Longrightarrow> nchain (nx(y := v)) p xs = nchain nx p xs"
  by (induction xs arbitrary: p) auto

lemma grow_bucket_simps:
  "grow_bucket ideal k ni = (k', ni') \<Longrightarrow> bkt_head k' = bkt_head k \<and> bkt_count k' = bkt_count k + 1"
  by (auto simp: grow_bucket_def Let_def split: if_splits)

lemma expand_chain_rep:
  assumes "l < 32" "n = 2 ^ l" "finite P"
    and "buckets_rep m n new P" "nchain (hh_next m) p ys" "distinct ys" "set ys \<inter> P = {}"
  shows "\<exists>m' new' ni'. expand_chain (of_nat n) ideal p m new ni = Some (Inr (m', new', ni')) \<and>
    buckets_rep m' n new' (P \<union> set ys) \<and> same_handles m m' \<and>
    (\<forall>y. y \<notin> set ys \<longrightarrow> hh_next m' y = hh_next m y)"
  using assms(3-)
proof (induction ys arbitrary: p m new ni P)
  case Nil
  then show ?case by (subst expand_chain.simps) simp
next
  case (Cons x ys)
  let ?b = "unat (HASH_TO_BKT (hh_hashv m x) (of_nat n))"
  have b: "?b < n" using to_bkt_bound [OF assms(1)] assms(2) by simp
  obtain k ni1 where g: "grow_bucket ideal (new ! ?b) ni = (k, ni1)" by fastforce
  note gk = grow_bucket_simps [OF g]
  let ?m = "push_chain x (bkt_head (new ! ?b)) m"
  have rep: "buckets_rep ?m n (new[?b := k\<lparr>bkt_head := Some x\<rparr>]) (insert x P)"
    using Cons.prems gk b by (intro buckets_rep_push) auto
  have nch: "nchain (hh_next ?m) (hh_next m x) ys" and fin: "finite (insert x P)"
    and ds: "distinct ys" "set ys \<inter> insert x P = {}"
    using Cons.prems by auto
  obtain m' new' ni' where
    r: "expand_chain (of_nat n) ideal (hh_next m x) ?m (new[?b := k\<lparr>bkt_head := Some x\<rparr>]) ni1 = Some (Inr (m', new', ni'))"
      "buckets_rep m' n new' (insert x P \<union> set ys)" "same_handles ?m m'" "\<forall>y. y \<notin> set ys \<longrightarrow> hh_next m' y = hh_next ?m y"
    using Cons.IH [OF fin rep nch ds, of ni1] by blast
  have "expand_chain (of_nat n) ideal p m new ni = Some (Inr (m', new', ni'))"
    using Cons.prems b r(1) g gk
    by (subst expand_chain.simps) (simp add: buckets_rep_def Let_def)
  moreover have "same_handles m m'" using r(3) same_handles_push same_handles_trans by blast
  ultimately show ?case using r(2,4) by auto
qed

lemma below_Suc: "{x \<in> S. f x < i} \<union> {x \<in> S. f x = i} = {x \<in> S. f x < i + (1::nat)}"
  by auto

lemma expand_all_rep:
  assumes "l2 < 32" "n2 = 2 ^ l2" "finite S" and rep: "buckets_rep m0 n bs S"
    and "i \<le> n" "buckets_rep m n2 new {x \<in> S. unat (HASH_TO_BKT (hh_hashv m0 x) (of_nat n)) < i}"
    and "same_handles m0 m"
    and "\<forall>y\<in>S. i \<le> unat (HASH_TO_BKT (hh_hashv m0 y) (of_nat n)) \<longrightarrow> hh_next m y = hh_next m0 y"
  shows "\<exists>m' new' ni'. expand_all (of_nat n2) ideal (drop i bs) m new ni = Some (Inr (m', new', ni')) \<and>
    buckets_rep m' n2 new' {x \<in> S. unat (HASH_TO_BKT (hh_hashv m0 x) (of_nat n)) < n} \<and> same_handles m0 m'"
  using assms(5-)
proof (induction "n - i" arbitrary: i m new ni)
  case 0
  have "length bs = n" using rep by (simp add: buckets_rep_def)
  then have "i = n" "drop i bs = []" using 0 by auto
  then show ?case using 0(3,4) by auto
next
  case (Suc d)
  let ?B = "\<lambda>x. unat (HASH_TO_BKT (hh_hashv m0 x) (of_nat n))"
  have i: "i < n" "length bs = n" using Suc.hyps(2) rep by (auto simp: buckets_rep_def)
  then have d: "drop i bs = bs ! i # drop (i + 1) bs" by (simp add: Cons_nth_drop_Suc)
  obtain ys where ys: "dll (hh_next m0) (hh_prev m0) None (bkt_head (bs ! i)) ys" "distinct ys"
    "set ys = {x \<in> S. ?B x = i}"
    using rep i unfolding buckets_rep_def by blast
  have same_next: "nchain (hh_next m) (bkt_head (bs ! i)) ys = nchain (hh_next m0) (bkt_head (bs ! i)) ys"
    by (rule nchain_cong) (use ys(3) Suc.prems(4) in simp)
  have nch: "nchain (hh_next m) (bkt_head (bs ! i)) ys"
    unfolding same_next using dll_nchain [OF ys(1)] .
  have disj: "set ys \<inter> {x \<in> S. ?B x < i} = {}" using ys(3) by auto
  have fin: "finite {x \<in> S. ?B x < i}" using assms(3) by simp
  obtain m1 new1 ni1 where
    r: "expand_chain (of_nat n2) ideal (bkt_head (bs ! i)) m new ni = Some (Inr (m1, new1, ni1))"
      "buckets_rep m1 n2 new1 ({x \<in> S. ?B x < i} \<union> set ys)" "same_handles m m1" "\<forall>y. y \<notin> set ys \<longrightarrow> hh_next m1 y = hh_next m y"
    using expand_chain_rep [OF assms(1,2) fin Suc.prems(2) nch ys(2) disj, of ideal ni]
    by (elim exE conjE) (rule that)
  have "{x \<in> S. ?B x < i} \<union> set ys = {x \<in> S. ?B x < i + 1}"
    unfolding ys(3) by (rule below_Suc)
  then have rep1: "buckets_rep m1 n2 new1 {x \<in> S. ?B x < i + 1}" using r(2) by simp
  have same1: "same_handles m0 m1" using r(3) Suc.prems(3) same_handles_trans by blast
  have keep: "\<forall>y\<in>S. i + 1 \<le> ?B y \<longrightarrow> hh_next m1 y = hh_next m0 y"
  proof (intro ballI impI)
    fix y assume y: "y \<in> S" "i + 1 \<le> ?B y"
    then have "y \<notin> set ys" unfolding ys(3) by simp
    then show "hh_next m1 y = hh_next m0 y" using r(4) Suc.prems(4) y by simp
  qed
  have step: "d = n - (i + 1)" "i + 1 \<le> n" using Suc.hyps(2) i(1) by linarith+
  have "expand_all (of_nat n2) ideal (drop i bs) m new ni = expand_all (of_nat n2) ideal (drop (i + 1) bs) m1 new1 ni1"
    unfolding d expand_all.simps r(1) by simp
  then show ?case using Suc.hyps(1) [OF step rep1 same1 keep, of ni1] by (simp only:)
qed

text \<open>The table: a power of two of buckets.\<close>

definition tbl_rep :: "ut_heap \<Rightarrow> ut_table \<Rightarrow> addr set \<Rightarrow> bool" where
  "tbl_rep m t S \<longleftrightarrow>
     (\<exists>l. l < 32 \<and> num_buckets t = of_nat (2 ^ l) \<and> log2_num_buckets t = of_nat l \<and>
          buckets_rep m (2 ^ l) (ut_buckets t) S)"

text \<open>An allocator that refuses blocks of 64 gigabytes.\<close>

definition malloc_bounded :: "(size_t \<Rightarrow> bool) \<Rightarrow> bool" where
  "malloc_bounded malloc \<longleftrightarrow> (\<forall>n. malloc n \<longrightarrow> n < 2 ^ 36)"

lemma unat_pow2:
  assumes "l < 32"
  shows "unat (of_nat (2 ^ l) :: u32) = 2 ^ l"
proof -
  have "(2::nat) ^ l < 2 ^ 32" using assms by (intro power_strict_increasing) auto
  then show ?thesis by (simp only: unat_of_nat) simp
qed

lemma expand_size:
  assumes "l < 32"
  shows "unat (sizeof_bucket * ucast (of_nat (2 ^ l) :: u32) * 2 :: size_t) = 2 ^ (l + 5)"
proof -
  have "(ucast (of_nat (2 ^ l) :: u32) :: size_t) = of_nat (unat (of_nat (2 ^ l) :: u32))"
    by (simp only: of_nat_unat)
  then have u: "(ucast (of_nat (2 ^ l) :: u32) :: size_t) = of_nat (2 ^ l)"
    by (simp only: unat_pow2 [OF assms])
  have "(sizeof_bucket * of_nat (2 ^ l) * 2 :: size_t) = of_nat (2 ^ (l + 5))"
    by (simp add: sizeof_bucket_def power_add)
  moreover have "(2::nat) ^ (l + 5) < 2 ^ 64"
    using assms by (intro power_strict_increasing) auto
  ultimately show ?thesis
    unfolding u by (simp only: unat_of_nat) simp
qed

lemma HASH_EXPAND_succeeds:
  assumes "tbl_rep m t S" "finite S" "malloc_bounded malloc" and True: "malloc (sizeof_bucket * ucast (num_buckets t) * 2)"
  shows "\<exists>m' t'. HASH_EXPAND_BUCKETS malloc m t = Some (Inr (m', t')) \<and> tbl_rep m' t' S \<and> same_handles m m' \<and>
       num_items t' = num_items t \<and> ut_tail t' = ut_tail t"
proof -
  obtain l where l: "l < 32" "num_buckets t = of_nat (2 ^ l)" "log2_num_buckets t = of_nat l"
    "buckets_rep m (2 ^ l) (ut_buckets t) S"
    using assms(1) by (auto simp: tbl_rep_def)
  have "sizeof_bucket * ucast (num_buckets t) * 2 < 2 ^ 36"
    using True assms(3) by (simp add: malloc_bounded_def)
  then have "(2::nat) ^ (l + 5) < 2 ^ 36"
    using expand_size [OF l(1)] by (simp add: word_less_nat_alt l(2))
  then have l2: "Suc l < 32" using power_less_imp_less_exp [of "2::nat" "l + 5" 36] by simp
  have nb: "num_buckets t * 2 = of_nat (2 ^ Suc l)" "log2_num_buckets t + 1 = of_nat (Suc l)"
    "unat (num_buckets t) = 2 ^ l" "unat (num_buckets t) * 2 = 2 ^ Suc l"
    using l(2,3) unat_pow2 [OF l(1)] by (simp_all add: mult.commute)
  have len: "take (2 ^ l) (ut_buckets t) = drop 0 (ut_buckets t)"
    using l(4) by (simp add: buckets_rep_def)
  have all: "{x \<in> S. unat (HASH_TO_BKT (hh_hashv m x) (of_nat (2 ^ l))) < 2 ^ l} = S"
    using to_bkt_bound [OF l(1)] by auto
  define ideal where "ideal = drop_bit (unat (log2_num_buckets t + 1)) (num_items t) +
                    (if num_items t AND (num_buckets t * 2 - 1) \<noteq> 0 then 1 else 0)"
  have start: "buckets_rep m (2 ^ Suc l) (replicate (2 ^ Suc l) bucket_zero)
      {x \<in> S. unat (HASH_TO_BKT (hh_hashv m x) (of_nat (2 ^ l))) < 0}"
    using buckets_rep_empty by simp
  obtain m' new' ni' where r:
    "expand_all (of_nat (2 ^ Suc l)) ideal (drop 0 (ut_buckets t)) m (replicate (2 ^ Suc l) bucket_zero) 0 =
       Some (Inr (m', new', ni'))"
    "buckets_rep m' (2 ^ Suc l) new' S" "same_handles m m'"
    using expand_all_rep [OF l2 refl assms(2) l(4) _ start same_handles_refl, of ideal 0] all by auto
  define ineff where "ineff = (if ni' > drop_bit 1 (num_items t) then ineff_expands t + 1 else 0)"
  define t' where "t' = t\<lparr>ideal_chain_maxlen := ideal, nonideal_items := ni',
      num_buckets := of_nat (2 ^ Suc l), log2_num_buckets := of_nat (Suc l),
      ut_buckets := new', ineff_expands := ineff, noexpand := (if ineff > 1 then 1 else noexpand t)\<rparr>"
  have "HASH_EXPAND_BUCKETS malloc m t = Some (Inr (m', t'))"
    using True unfolding HASH_EXPAND_BUCKETS_def ideal_def [symmetric] nb(4)
    unfolding nb(1-3) len Let_def r(1) t'_def ineff_def by simp
  moreover have "tbl_rep m' t' S"
    unfolding tbl_rep_def using l2 r(2) by (intro exI [of _ "Suc l"]) (simp add: t'_def)
  ultimately show ?thesis using r(3) by (simp add: t'_def)
qed

lemma HASH_EXPAND_rep:
  assumes "tbl_rep m t S" "finite S" "malloc_bounded malloc"
  shows "HASH_EXPAND_BUCKETS malloc m t = Some (Inl Exit_oom) \<or>
    (\<exists>m' t'. HASH_EXPAND_BUCKETS malloc m t = Some (Inr (m', t')) \<and> tbl_rep m' t' S \<and> same_handles m m' \<and>
       num_items t' = num_items t \<and> ut_tail t' = ut_tail t)"
  using HASH_EXPAND_succeeds [OF assms]
  by (cases "malloc (sizeof_bucket * ucast (num_buckets t) * 2)") (simp_all add: HASH_EXPAND_BUCKETS_def)

section \<open>Adding to and deleting from a bucket\<close>

lemma tbl_rep_bkt:
  assumes "tbl_rep m t S"
  shows "unat (HASH_TO_BKT h (num_buckets t)) < length (ut_buckets t)"
  using assms to_bkt_bound by (auto simp: tbl_rep_def buckets_rep_def)

text \<open>\<^const>\<open>HASH_ADD_TO_BKT\<close> before it looks at the capacity.\<close>

definition push_bkt :: "nat \<Rightarrow> addr \<Rightarrow> ut_heap \<Rightarrow> ut_table \<Rightarrow> ut_heap \<times> ut_table" where
  "push_bkt b x m t =
     (push_chain x (bkt_head (ut_buckets t ! b)) m,
      t\<lparr>ut_buckets := (ut_buckets t)[b := (ut_buckets t ! b)\<lparr>bkt_count := bkt_count (ut_buckets t ! b) + 1, bkt_head := Some x\<rparr>]\<rparr>)"

definition bkt_full :: "nat \<Rightarrow> ut_table \<Rightarrow> bool" where
  "bkt_full b t \<longleftrightarrow>
     bkt_count (ut_buckets t ! b) \<ge> (bkt_expand_mult (ut_buckets t ! b) + 1) * HASH_BKT_CAPACITY_THRESH \<and> noexpand t = 0"

lemma HASH_ADD_TO_BKT_eq:
  assumes "b < length (ut_buckets t)" "push_bkt b x m t = (m1, t1)"
  shows "HASH_ADD_TO_BKT malloc b x m t = (if bkt_full b t1 then HASH_EXPAND_BUCKETS malloc m1 t1 else Some (Inr (m1, t1)))"
  using assms by (auto simp: HASH_ADD_TO_BKT_def push_bkt_def bkt_full_def Let_def)

lemma push_bkt_rep:
  assumes "tbl_rep m t S" "finite S" "x \<notin> S"
    and "b = unat (HASH_TO_BKT (hh_hashv m x) (num_buckets t))" "push_bkt b x m t = (m1, t1)"
  shows "tbl_rep m1 t1 (insert x S)" "same_handles m m1" "num_items t1 = num_items t" "ut_tail t1 = ut_tail t"
    "num_buckets t1 = num_buckets t"
proof -
  obtain l where l: "l < 32" "num_buckets t = of_nat (2 ^ l)" "log2_num_buckets t = of_nat l"
    "buckets_rep m (2 ^ l) (ut_buckets t) S"
    using assms(1) by (auto simp: tbl_rep_def)
  have b: "b = unat (HASH_TO_BKT (hh_hashv m x) (of_nat (2 ^ l)))" using assms(4) l(2) by (simp only:)
  then have b2: "b < 2 ^ l" using to_bkt_bound [OF l(1)] by simp
  have "buckets_rep m1 (2 ^ l) (ut_buckets t1) (insert x S)"
    using assms(5) buckets_rep_push [OF l(4) assms(3,2) b b2] by (auto simp: push_bkt_def)
  then show "tbl_rep m1 t1 (insert x S)"
    unfolding tbl_rep_def using l(1-3) assms(5) by (intro exI [of _ l]) (auto simp: push_bkt_def)
qed (use assms(5) in \<open>auto simp: push_bkt_def\<close>)

lemma HASH_ADD_TO_BKT_rep:
  assumes "tbl_rep m t S" "finite S" "x \<notin> S" "malloc_bounded malloc"
    and "b = unat (HASH_TO_BKT (hh_hashv m x) (num_buckets t))"
  shows "HASH_ADD_TO_BKT malloc b x m t = Some (Inl Exit_oom) \<or>
    (\<exists>m' t'. HASH_ADD_TO_BKT malloc b x m t = Some (Inr (m', t')) \<and> tbl_rep m' t' (insert x S) \<and> same_handles m m' \<and>
       num_items t' = num_items t \<and> ut_tail t' = ut_tail t)"
proof -
  obtain m1 t1 where p: "push_bkt b x m t = (m1, t1)" by fastforce
  note r = push_bkt_rep [OF assms(1-3,5) p]
  have b: "b < length (ut_buckets t)" using tbl_rep_bkt [OF assms(1)] by (simp add: assms(5))
  show ?thesis
  proof (cases "bkt_full b t1")
    case True
    have fin: "finite (insert x S)" using assms(2) by simp
    from HASH_EXPAND_rep [OF r(1) fin assms(4)] show ?thesis
      unfolding HASH_ADD_TO_BKT_eq [OF b p] if_P [OF True]
    proof (elim disjE exE conjE)
      fix m' t' assume e: "HASH_EXPAND_BUCKETS malloc m1 t1 = Some (Inr (m', t'))" "tbl_rep m' t' (insert x S)"
        "same_handles m1 m'" "num_items t' = num_items t1" "ut_tail t' = ut_tail t1"
      show "HASH_EXPAND_BUCKETS malloc m1 t1 = Some (Inl Exit_oom) \<or>
        (\<exists>m' t'. HASH_EXPAND_BUCKETS malloc m1 t1 = Some (Inr (m', t')) \<and> tbl_rep m' t' (insert x S) \<and> same_handles m m' \<and>
           num_items t' = num_items t \<and> ut_tail t' = ut_tail t)"
        by (intro disjI2 exI conjI, rule e(1), rule e(2)) (use e(4,5) r(3,4) same_handles_trans [OF r(2) e(3)] in simp_all)
    qed (simp only: simp_thms)
  next
    case False
    show ?thesis unfolding HASH_ADD_TO_BKT_eq [OF b p] if_not_P [OF False] using r(1-4) by blast
  qed
qed

lemma dll_no_self:
  assumes "dll nx pv q p xs" "distinct xs" "x \<in> set xs" "\<And>y. q = Some y \<Longrightarrow> y \<notin> set xs"
  shows "pv x \<noteq> Some x" "nx x \<noteq> Some x"
  using assms
proof (induction xs arbitrary: q p)
  case (Cons a xs)
  { case 1 then show ?case using Cons.IH(1) [of "Some a" "nx a"] by (cases "x = a") auto }
  { case 2 then show ?case using Cons.IH(2) [of "Some a" "nx a"] by (cases "x = a"; cases xs) auto }
qed simp_all

definition unlink_chain :: "addr \<Rightarrow> ut_heap \<Rightarrow> ut_heap" where
  "unlink_chain x m =
     m\<lparr>hh_next := (case hh_prev m x of None \<Rightarrow> hh_next m | Some y \<Rightarrow> (hh_next m)(y := hh_next m x)),
       hh_prev := (case hh_next m x of None \<Rightarrow> hh_prev m | Some z \<Rightarrow> (hh_prev m)(z := hh_prev m x))\<rparr>"

lemma unlink_simps [simp]: "same_handles m (unlink_chain x m)" "hh_hashv (unlink_chain x m) = hh_hashv m"
  by (simp_all add: unlink_chain_def same_handles_def)

lemma HASH_DEL_IN_BKT_eq:
  assumes "hh_prev m x \<noteq> Some x" "b < length (ut_buckets t)"
  shows "HASH_DEL_IN_BKT b x m t =
    (let k = ut_buckets t ! b in
     Some (Inr (unlink_chain x m, t\<lparr>ut_buckets := (ut_buckets t)[b :=
       k\<lparr>bkt_count := bkt_count k - 1, bkt_head := (if bkt_head k = Some x then hh_next m x else bkt_head k)\<rparr>]\<rparr>)))"
  using assms by (auto simp: HASH_DEL_IN_BKT_def unlink_chain_def Let_def split: option.split)

lemma buckets_rep_delete:
  assumes rep: "buckets_rep m n bs S" and x: "x \<in> S"
    and b: "b = unat (HASH_TO_BKT (hh_hashv m x) (of_nat n))" "b < n"
    and k: "bkt_head k = (if bkt_head (bs ! b) = Some x then hh_next m x else bkt_head (bs ! b))"
      "bkt_count k = bkt_count (bs ! b) - 1"
  shows "buckets_rep (unlink_chain x m) n (bs[b := k]) (S - {x}) \<and> hh_prev m x \<noteq> Some x"
proof -
  let ?m = "unlink_chain x m"
  obtain ys where chain: "chain_at m n S b (bs ! b) ys" using rep b(2) by (auto simp: buckets_rep_chains)
  then have ys: "dll (hh_next m) (hh_prev m) None (bkt_head (bs ! b)) ys" "distinct ys"
    "set ys = {x \<in> S. unat (HASH_TO_BKT (hh_hashv m x) (of_nat n)) = b}" "bkt_count (bs ! b) = of_nat (length ys)"
    by (simp_all add: chain_at_def)
  have xy: "x \<in> set ys" using x b(1) ys(3) by simp
  have d: "dll (hh_next ?m) (hh_prev ?m) None (bkt_head k) (remove1 x ys)"
    using dll_delete [OF ys(1,2) xy] by (simp add: unlink_chain_def k(1))
  have "bkt_count k = of_nat (length (remove1 x ys))"
    using xy k(2) ys(4) length_pos_if_in_set [OF xy] by (simp add: length_remove1 of_nat_diff Suc_leI)
  moreover have "set (remove1 x ys) = {y \<in> S - {x}. unat (HASH_TO_BKT (hh_hashv m y) (of_nat n)) = b}"
    using ys(2,3) by auto
  ultimately have own: "chain_at ?m n (S - {x}) b k (remove1 x ys)" using d ys(2) by (simp add: chain_at_def)
  have other: "chain_at ?m n (S - {x}) c (bs ! c) zs" if c: "c \<noteq> b" "chain_at m n S c (bs ! c) zs" for c zs
  proof -
    have dj: "y \<notin> set zs" if "y \<in> set ys" for y using that ys(3) c by (auto simp: chain_at_def)
    have "hh_prev m x = Some y \<Longrightarrow> y \<in> set ys" for y
      using dll_prev_in [OF ys(1) xy] by (auto split: if_splits)
    moreover have "hh_next m x = Some y \<Longrightarrow> y \<in> set ys" for y using dll_next_in [OF ys(1) xy] .
    ultimately have "dll (hh_next ?m) (hh_prev ?m) None (bkt_head (bs ! c)) zs"
      using c(2) dj by (auto simp: unlink_chain_def chain_at_def split: option.split)
    then show ?thesis using c b(1) by (auto simp: chain_at_def)
  qed
  have "buckets_rep ?m n (bs[b := k]) (S - {x})" by (rule buckets_rep_update [OF rep b(2) own other])
  then show ?thesis using dll_no_self(1) [OF ys(1,2) xy] by simp
qed

lemma HASH_DEL_IN_BKT_rep:
  assumes "tbl_rep m t S" "x \<in> S" "b = unat (HASH_TO_BKT (hh_hashv m x) (num_buckets t))"
  shows "\<exists>m' t'. HASH_DEL_IN_BKT b x m t = Some (Inr (m', t')) \<and> tbl_rep m' t' (S - {x}) \<and> same_handles m m' \<and>
       num_items t' = num_items t \<and> ut_tail t' = ut_tail t"
proof -
  obtain l where l: "l < 32" "num_buckets t = of_nat (2 ^ l)" "log2_num_buckets t = of_nat l"
    "buckets_rep m (2 ^ l) (ut_buckets t) S"
    using assms(1) by (auto simp: tbl_rep_def)
  have b: "b < 2 ^ l" "b < length (ut_buckets t)"
    using to_bkt_bound [OF l(1)] tbl_rep_bkt [OF assms(1)] by (simp_all add: assms(3) l(2))
  have bk: "b = unat (HASH_TO_BKT (hh_hashv m x) (of_nat (2 ^ l)))" using assms(3) l(2) by (simp only:)
  define k where "k = ut_buckets t ! b"
  define k' where "k' = k\<lparr>bkt_count := bkt_count k - 1, bkt_head := (if bkt_head k = Some x then hh_next m x else bkt_head k)\<rparr>"
  define t' where "t' = t\<lparr>ut_buckets := (ut_buckets t)[b := k']\<rparr>"
  have k': "bkt_head k' = (if bkt_head (ut_buckets t ! b) = Some x then hh_next m x else bkt_head (ut_buckets t ! b))"
    "bkt_count k' = bkt_count (ut_buckets t ! b) - 1"
    by (simp_all add: k'_def k_def)
  have r: "buckets_rep (unlink_chain x m) (2 ^ l) (ut_buckets t') (S - {x})" "hh_prev m x \<noteq> Some x"
    using buckets_rep_delete [OF l(4) assms(2) bk b(1) k'] by (simp_all add: t'_def)
  have "tbl_rep (unlink_chain x m) t' (S - {x})"
    unfolding tbl_rep_def using l(1-3) r(1) by (intro exI [of _ l]) (simp add: t'_def)
  moreover have "HASH_DEL_IN_BKT b x m t = Some (Inr (unlink_chain x m, t'))"
    using HASH_DEL_IN_BKT_eq [OF r(2) b(2)] by (simp add: Let_def t'_def k'_def k_def)
  ultimately show ?thesis by (simp add: t'_def)
qed

end
