(* ===== verification/UthashRep.thy ===== *)
theory UthashRep
  imports UthashCorrect
begin

text \<open>
  The representation invariant \<open>ut_rep\<close> of the hash table of \<open>src/utils/uthash.h\<close> and the specification of its
  operations over the list of the elements in application order.
\<close>

section \<open>Representation\<close>

definition keys_ok :: "ut_heap \<Rightarrow> addr list \<Rightarrow> bool" where
  "keys_ok m xs \<longleftrightarrow>
     (\<forall>x \<in> set xs. hh_hashv m x = HASH_JEN (hh_key m x) \<and> hh_keylen m x = of_nat (length (hh_key m x)) \<and>
        length (hh_key m x) < 2 ^ 32)"

definition ut_rep :: "ut_state \<Rightarrow> addr list \<Rightarrow> bool" where
  "ut_rep s xs \<longleftrightarrow>
     distinct xs \<and> length xs < 2 ^ 32 \<and>
     dll (app_next (ut_mem s)) (app_prev (ut_mem s)) None (ut_head s) xs \<and> keys_ok (ut_mem s) xs \<and>
     (xs \<noteq> [] \<longrightarrow> ut_tail (ut_tbl s) = Some (last xs) \<and> num_items (ut_tbl s) = of_nat (length xs) \<and>
        tbl_rep (ut_mem s) (ut_tbl s) (set xs))"

lemma ut_rep_Nil [simp]: "ut_rep s [] \<longleftrightarrow> ut_head s = None"
  by (simp add: ut_rep_def keys_ok_def)

lemma ut_rep_head: "ut_rep s xs \<Longrightarrow> ut_head s = (case xs of [] \<Rightarrow> None | x # _ \<Rightarrow> Some x)"
  unfolding ut_rep_def using dll_head by blast

lemma buckets_rep_cong:
  assumes "hh_next m' = hh_next m" "hh_prev m' = hh_prev m" "\<And>x. x \<in> S \<Longrightarrow> hh_hashv m' x = hh_hashv m x"
  shows "buckets_rep m' n bs S = buckets_rep m n bs S"
proof -
  have "{x \<in> S. unat (HASH_TO_BKT (hh_hashv m' x) (of_nat n)) = b} = {x \<in> S. unat (HASH_TO_BKT (hh_hashv m x) (of_nat n)) = b}" for b
    using assms(3) by auto
  then show ?thesis using assms(1,2) by (simp add: buckets_rep_def)
qed

lemma tbl_rep_cong:
  assumes "hh_next m' = hh_next m" "hh_prev m' = hh_prev m" "\<And>x. x \<in> S \<Longrightarrow> hh_hashv m' x = hh_hashv m x"
    and "num_buckets t' = num_buckets t" "log2_num_buckets t' = log2_num_buckets t" "ut_buckets t' = ut_buckets t"
  shows "tbl_rep m' t' S = tbl_rep m t S"
  unfolding tbl_rep_def assms(4-6) using buckets_rep_cong [OF assms(1-3)] by simp

lemma bucket_chain:
  assumes "tbl_rep m t S" "b < length (ut_buckets t)"
  obtains ys where "dll (hh_next m) (hh_prev m) None (bkt_head (ut_buckets t ! b)) ys" "set ys \<subseteq> S"
proof -
  obtain l where "buckets_rep m (2 ^ l) (ut_buckets t) S" using assms(1) by (auto simp: tbl_rep_def)
  then have "\<exists>ys. dll (hh_next m) (hh_prev m) None (bkt_head (ut_buckets t ! b)) ys \<and> set ys \<subseteq> S"
    using assms(2) unfolding buckets_rep_def by fastforce
  then show ?thesis using that by blast
qed

lemma same_keys_ok: "same_handles m m' \<Longrightarrow> keys_ok m' xs = keys_ok m xs"
  by (simp add: same_handles_def keys_ok_def)

section \<open>Adding\<close>

text \<open>The memory and the lists after the links of the application order are set, before the bucket is.\<close>

lemma HASH_MAKE_TABLE_cases:
  obtains "HASH_MAKE_TABLE malloc a = Some (Inl Exit_oom)"
  | t where "HASH_MAKE_TABLE malloc a = Some (Inr t)" "ut_tail t = Some a" "num_items t = 0" "tbl_rep m t {}"
proof (cases "malloc sizeof_table \<and> malloc (ucast HASH_INITIAL_NUM_BUCKETS * sizeof_bucket)")
  case False
  then show ?thesis using that(1) by (auto simp: HASH_MAKE_TABLE_def)
next
  case True
  have "tbl_rep m \<lparr>ut_buckets = replicate (unat HASH_INITIAL_NUM_BUCKETS) bucket_zero,
      num_buckets = HASH_INITIAL_NUM_BUCKETS, log2_num_buckets = HASH_INITIAL_NUM_BUCKETS_LOG2,
      num_items = 0, ut_tail = Some a, ideal_chain_maxlen = 0, nonideal_items = 0,
      ineff_expands = 0, noexpand = 0\<rparr> {}"
    unfolding tbl_rep_def
    by (intro exI [of _ 5])
      (simp add: HASH_INITIAL_NUM_BUCKETS_def HASH_INITIAL_NUM_BUCKETS_LOG2_def buckets_rep_empty)
  then show ?thesis using that(2) True by (simp add: HASH_MAKE_TABLE_def)
qed

lemma HASH_ADD_TO_TABLE_rep:
  assumes "distinct ys" "a \<in> set ys" "length ys < 2 ^ 32" "malloc_bounded malloc"
    and "dll (app_next (ut_mem s)) (app_prev (ut_mem s)) None (ut_head s) ys"
    and "keys_ok (ut_mem s) ys" "ut_tail (ut_tbl s) = Some (last ys)"
    and "num_items (ut_tbl s) + 1 = of_nat (length ys)" "tbl_rep (ut_mem s) (ut_tbl s) (set ys - {a})"
  shows "HASH_ADD_TO_TABLE malloc (hh_hashv (ut_mem s) a) a s = Some (Inl Exit_oom) \<or>
    (\<exists>s'. HASH_ADD_TO_TABLE malloc (hh_hashv (ut_mem s) a) a s = Some (Inr s') \<and> ut_rep s' ys \<and>
       same_handles (ut_mem s) (ut_mem s'))"
proof -
  define t where "t = (ut_tbl s)\<lparr>num_items := num_items (ut_tbl s) + 1\<rparr>"
  define b where "b = unat (HASH_TO_BKT (hh_hashv (ut_mem s) a) (num_buckets t))"
  have rep: "tbl_rep (ut_mem s) t (set ys - {a})"
    using assms(9) tbl_rep_cong [of "ut_mem s" "ut_mem s" "set ys - {a}" t "ut_tbl s"] by (simp add: t_def)
  have ins: "insert a (set ys - {a}) = set ys" using assms(2) by auto
  consider "HASH_ADD_TO_BKT malloc b a (ut_mem s) t = Some (Inl Exit_oom)"
    | m' t' where "HASH_ADD_TO_BKT malloc b a (ut_mem s) t = Some (Inr (m', t'))"
        "tbl_rep m' t' (set ys)" "same_handles (ut_mem s) m'" "num_items t' = num_items t" "ut_tail t' = ut_tail t"
    using HASH_ADD_TO_BKT_rep [OF rep _ _ assms(4) b_def] unfolding ins by auto
  then show ?thesis
  proof cases
    case 1
    then show ?thesis by (simp add: HASH_ADD_TO_TABLE_def Let_def t_def b_def)
  next
    case 2
    let ?s = "s\<lparr>ut_mem := m', ut_tbl := t'\<rparr>"
    have "HASH_ADD_TO_TABLE malloc (hh_hashv (ut_mem s) a) a s = Some (Inr ?s)"
      using 2(1) by (simp add: HASH_ADD_TO_TABLE_def Let_def t_def b_def)
    moreover have "ut_rep ?s ys"
      using assms(1,3,5-8) 2(2-5) same_keys_ok [OF 2(3)] by (simp add: ut_rep_def t_def same_handles_def)
    ultimately show ?thesis using 2(3) by simp
  qed
qed

text \<open>Once the element is linked into the application order, at whatever place, the bucket completes the insertion.\<close>

lemma HASH_ADD_from:
  assumes rep: "ut_rep s xs" and ys: "distinct ys" "set ys = insert a (set xs)" "length ys = length xs + 1"
    and key: "length key < 2 ^ 32" "length xs + 1 < 2 ^ 32" and mb: "malloc_bounded malloc"
    and m1: "hh_hashv (ut_mem s1) = (hh_hashv (ut_mem s))(a := HASH_JEN key)"
      "hh_key (ut_mem s1) = (hh_key (ut_mem s))(a := key)"
      "hh_keylen (ut_mem s1) = (hh_keylen (ut_mem s))(a := of_nat (length key))"
    and l: "dll (app_next (ut_mem s1)) (app_prev (ut_mem s1)) None (ut_head s1) ys"
      "ut_tail (ut_tbl s1) = Some (last ys)" "num_items (ut_tbl s1) = of_nat (length xs)"
      "tbl_rep (ut_mem s1) (ut_tbl s1) (set xs)"
  shows "HASH_ADD_TO_TABLE malloc (HASH_JEN key) a s1 = Some (Inl Exit_oom) \<or>
    (\<exists>s'. HASH_ADD_TO_TABLE malloc (HASH_JEN key) a s1 = Some (Inr s') \<and> ut_rep s' ys \<and>
       hh_key (ut_mem s') = (hh_key (ut_mem s))(a := key))"
proof -
  have a: "a \<notin> set xs"
  proof
    assume "a \<in> set xs"
    then have "length ys = length xs"
      using ys(1,2) rep distinct_card [of xs] distinct_card [of ys] by (simp add: ut_rep_def insert_absorb)
    then show False using ys(3) by simp
  qed
  have "keys_ok (ut_mem s1) ys"
    using rep a key(1) m1 ys(2) by (auto simp: keys_ok_def ut_rep_def)
  moreover have "set ys - {a} = set xs" using ys(2) a by auto
  ultimately have "HASH_ADD_TO_TABLE malloc (hh_hashv (ut_mem s1) a) a s1 = Some (Inl Exit_oom) \<or>
    (\<exists>s'. HASH_ADD_TO_TABLE malloc (hh_hashv (ut_mem s1) a) a s1 = Some (Inr s') \<and> ut_rep s' ys \<and>
      same_handles (ut_mem s1) (ut_mem s'))"
    using HASH_ADD_TO_TABLE_rep [of ys a malloc s1] ys key mb l by simp
  then show ?thesis using m1(1,2) by (auto simp: same_handles_def)
qed

lemma HASH_ADD_empty_rep:
  assumes rep: "ut_rep s []" and key: "length key < 2 ^ 32" and mb: "malloc_bounded malloc"
  shows "HASH_ADD malloc key a s = Some (Inl Exit_oom) \<or>
    (\<exists>s'. HASH_ADD malloc key a s = Some (Inr s') \<and> ut_rep s' [a] \<and> hh_key (ut_mem s') = (hh_key (ut_mem s))(a := key))"
proof -
  let ?m = "ut_mem s"
  let ?m2 = "?m\<lparr>hh_hashv := (hh_hashv ?m)(a := HASH_JEN key), hh_key := (hh_key ?m)(a := key),
      hh_keylen := (hh_keylen ?m)(a := of_nat (length key)),
      app_next := (app_next ?m)(a := None), app_prev := (app_prev ?m)(a := None)\<rparr>"
  have h: "ut_head s = None" using rep by simp
  show ?thesis
  proof (rule HASH_MAKE_TABLE_cases [where malloc = malloc and a = a and m = ?m2])
    assume "HASH_MAKE_TABLE malloc a = Some (Inl Exit_oom)"
    then show ?thesis using h by (simp add: HASH_ADD_def HASH_ADD_KEYPTR_BYHASHVALUE_def Let_def)
  next
    fix t assume t: "HASH_MAKE_TABLE malloc a = Some (Inr t)" "ut_tail t = Some a" "num_items t = 0" "tbl_rep ?m2 t {}"
    have "HASH_ADD malloc key a s =
        HASH_ADD_TO_TABLE malloc (HASH_JEN key) a (s\<lparr>ut_mem := ?m2, ut_tbl := t, ut_head := Some a\<rparr>)"
      using h t(1) by (simp add: HASH_ADD_def HASH_ADD_KEYPTR_BYHASHVALUE_def Let_def)
    moreover have "HASH_ADD_TO_TABLE malloc (HASH_JEN key) a (s\<lparr>ut_mem := ?m2, ut_tbl := t, ut_head := Some a\<rparr>) =
        Some (Inl Exit_oom) \<or>
      (\<exists>s'. HASH_ADD_TO_TABLE malloc (HASH_JEN key) a (s\<lparr>ut_mem := ?m2, ut_tbl := t, ut_head := Some a\<rparr>) = Some (Inr s') \<and>
        ut_rep s' [a] \<and> hh_key (ut_mem s') = (hh_key ?m)(a := key))"
      by (rule HASH_ADD_from [OF rep _ _ _ key _ mb]) (use t in simp_all)
    ultimately show ?thesis by simp
  qed
qed

text \<open>The fields of the handle that every insertion sets first.\<close>

definition set_handle :: "addr \<Rightarrow> bytes \<Rightarrow> ut_heap \<Rightarrow> ut_heap" where
  "set_handle a key m = m\<lparr>hh_hashv := (hh_hashv m)(a := HASH_JEN key), hh_key := (hh_key m)(a := key),
     hh_keylen := (hh_keylen m)(a := of_nat (length key))\<rparr>"

lemma HASH_APPEND_LIST_rep:
  assumes rep: "ut_rep s xs" and ne: "xs \<noteq> []" and a: "a \<notin> set xs"
  obtains s1 where "HASH_APPEND_LIST a (s\<lparr>ut_mem := set_handle a key (ut_mem s)\<rparr>) = Some (Inr s1)"
    "hh_hashv (ut_mem s1) = (hh_hashv (ut_mem s))(a := HASH_JEN key)" "hh_key (ut_mem s1) = (hh_key (ut_mem s))(a := key)"
    "hh_keylen (ut_mem s1) = (hh_keylen (ut_mem s))(a := of_nat (length key))"
    "dll (app_next (ut_mem s1)) (app_prev (ut_mem s1)) None (ut_head s1) (xs @ [a])"
    "ut_tail (ut_tbl s1) = Some a" "num_items (ut_tbl s1) = of_nat (length xs)" "tbl_rep (ut_mem s1) (ut_tbl s1) (set xs)"
    "num_buckets (ut_tbl s1) = num_buckets (ut_tbl s)"
proof -
  define m where "m = ut_mem s"
  define m2 where "m2 = (set_handle a key m)\<lparr>app_prev := (app_prev m)(a := Some (last xs)),
      app_next := ((app_next m)(a := None))(last xs := Some a)\<rparr>"
  define s1 where "s1 = s\<lparr>ut_mem := m2, ut_tbl := (ut_tbl s)\<lparr>ut_tail := Some a\<rparr>\<rparr>"
  have l: "ut_tail (ut_tbl s) = Some (last xs)" "num_items (ut_tbl s) = of_nat (length xs)"
    "tbl_rep m (ut_tbl s) (set xs)" "dll (app_next m) (app_prev m) None (ut_head s) xs" "distinct xs"
    using rep ne by (auto simp: ut_rep_def m_def)
  have eq: "HASH_APPEND_LIST a (s\<lparr>ut_mem := set_handle a key (ut_mem s)\<rparr>) = Some (Inr s1)"
    using l(1) by (simp add: HASH_APPEND_LIST_def Let_def s1_def m2_def m_def set_handle_def)
  have "hh_hashv m2 x = hh_hashv m x" if "x \<in> set xs" for x using that a by (auto simp: m2_def set_handle_def)
  then have "tbl_rep (ut_mem s1) (ut_tbl s1) (set xs)"
    using l(3) tbl_rep_cong [of m2 m "set xs" "ut_tbl s1" "ut_tbl s"] by (simp add: s1_def m2_def set_handle_def)
  moreover have "dll (app_next (ut_mem s1)) (app_prev (ut_mem s1)) None (ut_head s1) (xs @ [a])"
    using dll_append [OF l(4,5) ne a] by (simp add: s1_def m2_def)
  ultimately show ?thesis using l(2) by (intro that [OF eq]) (simp_all add: s1_def m2_def m_def set_handle_def)
qed

lemma HASH_ADD_nonempty_rep:
  assumes rep: "ut_rep s xs" and ne: "xs \<noteq> []" and a: "a \<notin> set xs" and key: "length key < 2 ^ 32" "length xs + 1 < 2 ^ 32"
    and mb: "malloc_bounded malloc"
  shows "HASH_ADD malloc key a s = Some (Inl Exit_oom) \<or>
    (\<exists>s'. HASH_ADD malloc key a s = Some (Inr s') \<and> ut_rep s' (xs @ [a]) \<and>
       hh_key (ut_mem s') = (hh_key (ut_mem s))(a := key))"
proof -
  obtain h where h: "ut_head s = Some h" using ut_rep_head [OF rep] ne by (cases xs) auto
  show ?thesis
  proof (rule HASH_APPEND_LIST_rep [OF rep ne a, of key])
    fix s1 assume s1: "HASH_APPEND_LIST a (s\<lparr>ut_mem := set_handle a key (ut_mem s)\<rparr>) = Some (Inr s1)"
      "hh_hashv (ut_mem s1) = (hh_hashv (ut_mem s))(a := HASH_JEN key)" "hh_key (ut_mem s1) = (hh_key (ut_mem s))(a := key)"
      "hh_keylen (ut_mem s1) = (hh_keylen (ut_mem s))(a := of_nat (length key))"
      "dll (app_next (ut_mem s1)) (app_prev (ut_mem s1)) None (ut_head s1) (xs @ [a])"
      "ut_tail (ut_tbl s1) = Some a" "num_items (ut_tbl s1) = of_nat (length xs)" "tbl_rep (ut_mem s1) (ut_tbl s1) (set xs)"
    have eq: "HASH_ADD malloc key a s = HASH_ADD_TO_TABLE malloc (HASH_JEN key) a s1"
      using h s1(1) by (simp add: HASH_ADD_def HASH_ADD_KEYPTR_BYHASHVALUE_def Let_def set_handle_def)
    show ?thesis unfolding eq
      by (rule HASH_ADD_from [OF rep _ _ _ key mb s1(2-5) _ s1(7,8)]) (use rep a s1(6) in \<open>simp_all add: ut_rep_def\<close>)
  qed
qed

lemma HASH_ADD_rep:
  assumes "ut_rep s xs" "a \<notin> set xs" "length key < 2 ^ 32" "length xs + 1 < 2 ^ 32" "malloc_bounded malloc"
  shows "HASH_ADD malloc key a s = Some (Inl Exit_oom) \<or>
    (\<exists>s'. HASH_ADD malloc key a s = Some (Inr s') \<and> ut_rep s' (xs @ [a]) \<and>
       hh_key (ut_mem s') = (hh_key (ut_mem s))(a := key))"
  using HASH_ADD_empty_rep [of s key malloc a] HASH_ADD_nonempty_rep [of s xs a key malloc] assms
  by (cases "xs = []") simp_all

section \<open>Searching\<close>

definition key_match :: "ut_heap \<Rightarrow> bytes \<Rightarrow> addr \<Rightarrow> bool" where
  "key_match m key a \<longleftrightarrow>
     hh_hashv m a = HASH_JEN key \<and> hh_keylen m a = of_nat (length key) \<and>
     take (unat (of_nat (length key) :: u32)) (hh_key m a) = take (unat (of_nat (length key) :: u32)) key"

lemma key_match_iff:
  assumes "keys_ok m xs" "a \<in> set xs" "length key < 2 ^ 32"
  shows "key_match m key a \<longleftrightarrow> hh_key m a = key"
proof -
  have "length (hh_key m a) < 2 ^ 32" "hh_keylen m a = of_nat (length (hh_key m a))" "hh_hashv m a = HASH_JEN (hh_key m a)"
    using assms(1,2) by (auto simp: keys_ok_def)
  moreover have "(of_nat i :: u32) = of_nat j \<longleftrightarrow> i = j" if "i < 2 ^ 32" "j < 2 ^ 32" for i j
    using that by (simp add: of_nat_inverse word_unat_eq_iff unat_of_nat)
  moreover have "unat (of_nat (length key) :: u32) = length key"
    using assms(3) by (simp add: unat_of_nat)
  ultimately show ?thesis using assms(3) by (auto simp: key_match_def)
qed

lemma find_in_bkt_chain:
  "nchain (hh_next m) p ys \<Longrightarrow>
   find_in_bkt m key (of_nat (length key)) (HASH_JEN key) p = Some (List.find (key_match m key) ys)"
proof (induction ys arbitrary: p)
  case Nil
  then show ?case by (subst find_in_bkt.simps) simp
next
  case (Cons y ys)
  then have IH: "find_in_bkt m key (of_nat (length key)) (HASH_JEN key) (hh_next m y) = Some (List.find (key_match m key) ys)"
    and p: "p = Some y"
    by simp_all
  show ?case unfolding p by (subst find_in_bkt.simps) (simp add: IH key_match_def [of m key y])
qed

lemma HASH_FIND_rep:
  assumes rep: "ut_rep s xs" and key: "length key < 2 ^ 32"
  shows "\<exists>r. HASH_FIND key s = Some (Inr r) \<and>
    (case r of None \<Rightarrow> \<forall>x\<in>set xs. hh_key (ut_mem s) x \<noteq> key | Some a \<Rightarrow> a \<in> set xs \<and> hh_key (ut_mem s) a = key)"
proof (cases "xs = []")
  case True
  then show ?thesis using rep by (simp add: HASH_FIND_def)
next
  case False
  let ?m = "ut_mem s" and ?t = "ut_tbl s" and ?b = "unat (HASH_TO_BKT (HASH_JEN key) (num_buckets (ut_tbl s)))"
  have t: "tbl_rep ?m ?t (set xs)" and ko: "keys_ok ?m xs" using rep False by (auto simp: ut_rep_def)
  obtain l where l: "l < 32" "num_buckets ?t = of_nat (2 ^ l)" "buckets_rep ?m (2 ^ l) (ut_buckets ?t) (set xs)"
    using t by (auto simp: tbl_rep_def)
  have b: "?b < 2 ^ l" "?b < length (ut_buckets ?t)"
    using to_bkt_bound [OF l(1)] tbl_rep_bkt [OF t] by (simp_all add: l(2))
  obtain ys where ys: "dll (hh_next ?m) (hh_prev ?m) None (bkt_head (ut_buckets ?t ! ?b)) ys"
    "set ys = {x \<in> set xs. unat (HASH_TO_BKT (hh_hashv ?m x) (of_nat (2 ^ l))) = ?b}"
    using l(3) b(1) unfolding buckets_rep_def by blast
  have "HASH_FIND key s = Some (Inr (List.find (key_match ?m key) ys))"
    using find_in_bkt_chain [OF dll_nchain [OF ys(1)], of key] b(2) ut_rep_head [OF rep] False
    by (cases xs) (simp_all add: HASH_FIND_def HASH_FIND_BYHASHVALUE_def Let_def)
  moreover have "case List.find (key_match ?m key) ys of None \<Rightarrow> \<forall>x\<in>set xs. hh_key ?m x \<noteq> key
      | Some a \<Rightarrow> a \<in> set xs \<and> hh_key ?m a = key"
  proof (cases "List.find (key_match ?m key) ys")
    case None
    have "hh_key ?m x \<noteq> key" if x: "x \<in> set xs" for x
    proof
      assume k: "hh_key ?m x = key"
      then have "hh_hashv ?m x = HASH_JEN key" using ko x by (auto simp: keys_ok_def)
      then have "x \<in> set ys" unfolding ys(2) using x l(2) by simp
      then show False using None key_match_iff [OF ko x key] k by (auto simp: find_None_iff)
    qed
    then show ?thesis using None by simp
  next
    case (Some a)
    then have "a \<in> set ys" "key_match ?m key a" by (auto simp: find_Some_iff)
    moreover have "set ys \<subseteq> set xs" unfolding ys(2) by blast
    ultimately show ?thesis using Some key_match_iff [OF ko _ key] by auto
  qed
  ultimately show ?thesis by blast
qed

section \<open>Deleting\<close>

lemma dll_snoc_prev: "dll nx pv q p (xs @ [x]) \<Longrightarrow> pv x = (if xs = [] then q else Some (last xs))"
  by (induction xs arbitrary: q p) auto

lemma dll_mid_next: "dll nx pv q p (xs @ y # ys) \<Longrightarrow> nx y = (case ys of [] \<Rightarrow> None | z # _ \<Rightarrow> Some z)"
proof (induction xs arbitrary: q p)
  case Nil
  then show ?case using dll_head by fastforce
qed auto

lemma dll_single:
  assumes "dll nx pv None p xs" "distinct xs" "x \<in> set xs" "pv x = None" "nx x = None"
  shows "xs = [x]"
proof -
  have "p = Some x" using dll_prev_in [OF assms(1,3)] assms(4) by auto
  then obtain ys where "xs = x # ys" using assms(1) by (cases xs) auto
  then show ?thesis using assms(1,5) by (cases ys) auto
qed

lemma keys_ok_remove1: "keys_ok m xs \<Longrightarrow> keys_ok m (remove1 x xs)"
  using set_remove1_subset by (fastforce simp: keys_ok_def)

lemma last_remove1:
  assumes "distinct xs" "x \<in> set xs" "remove1 x xs \<noteq> []" "x \<noteq> last xs"
  shows "last (remove1 x xs) = last xs"
  using assms
proof (induction xs)
  case (Cons a xs)
  then show ?case by (cases xs) (auto split: if_splits)
qed simp

definition unlink_app :: "addr \<Rightarrow> ut_heap \<Rightarrow> ut_heap" where
  "unlink_app x m =
     m\<lparr>app_next := (case app_prev m x of None \<Rightarrow> app_next m | Some y \<Rightarrow> (app_next m)(y := app_next m x)),
       app_prev := (case app_next m x of None \<Rightarrow> app_prev m | Some z \<Rightarrow> (app_prev m)(z := app_prev m x))\<rparr>"

lemma unlink_app_simps [simp]:
  "hh_next (unlink_app x m) = hh_next m" "hh_prev (unlink_app x m) = hh_prev m"
  "hh_hashv (unlink_app x m) = hh_hashv m" "hh_key (unlink_app x m) = hh_key m"
  "hh_keylen (unlink_app x m) = hh_keylen m"
  by (simp_all add: unlink_app_def)

lemma HASH_DELETE_HH_eq:
  assumes "app_prev (ut_mem s) x \<noteq> Some x" "app_prev (ut_mem s) x \<noteq> None \<or> app_next (ut_mem s) x \<noteq> None"
  shows "HASH_DELETE_HH x s =
    (let m = ut_mem s; t = ut_tbl s;
         t1 = (if ut_tail t = Some x then t\<lparr>ut_tail := app_prev m x\<rparr> else t) in
     bindU (HASH_DEL_IN_BKT (unat (HASH_TO_BKT (hh_hashv m x) (num_buckets t))) x (unlink_app x m) t1) (\<lambda>(m3, t2).
       Some (Inr (s\<lparr>ut_head := (if app_prev m x = None then app_next m x else ut_head s),
                    ut_mem := m3, ut_tbl := t2\<lparr>num_items := num_items t2 - 1\<rparr>\<rparr>))))"
  using assms
  by (cases "app_prev (ut_mem s) x"; cases "app_next (ut_mem s) x")
    (auto simp: HASH_DELETE_HH_def unlink_app_def Let_def)

text \<open>The tail after a deletion: the predecessor of a deleted last element, unchanged otherwise.\<close>

lemma tail_remove1:
  assumes d: "dll nx pv None p xs" "distinct xs" "x \<in> set xs" and ne: "remove1 x xs \<noteq> []"
  shows "(if last xs = x then pv x else Some (last xs)) = Some (last (remove1 x xs))"
proof (cases "x = last xs")
  case True
  have "xs \<noteq> []" using d(3) by auto
  then have xs: "xs = butlast xs @ [x]" using append_butlast_last_id True by simp
  have nx: "x \<notin> set (butlast xs)"
  proof
    assume "x \<in> set (butlast xs)"
    then have "\<not> distinct (butlast xs @ [x])" by simp
    then show False using d(2) xs by simp
  qed
  have rm: "remove1 x xs = butlast xs" by (subst xs) (simp add: remove1_append nx)
  then have "pv x = Some (last (butlast xs))" using dll_snoc_prev [of nx pv None p "butlast xs" x] d(1) xs ne by simp
  then show ?thesis using True rm by simp
next
  case False
  then show ?thesis using last_remove1 [OF d(2,3) ne] by simp
qed

lemma HASH_DELETE_rep:
  assumes rep: "ut_rep s xs" and x: "x \<in> set xs"
  shows "\<exists>s'. HASH_DELETE_HH x s = Some (Inr s') \<and> ut_rep s' (remove1 x xs) \<and> hh_key (ut_mem s') = hh_key (ut_mem s)"
proof (cases "app_prev (ut_mem s) x = None \<and> app_next (ut_mem s) x = None")
  case True
  then have "xs = [x]" using dll_single [of _ _ _ xs x] rep x unfolding ut_rep_def by blast
  then show ?thesis using True by (simp add: HASH_DELETE_HH_def)
next
  case False
  let ?m = "ut_mem s" and ?t = "ut_tbl s"
  have d: "dll (app_next ?m) (app_prev ?m) None (ut_head s) xs" "distinct xs" and ne: "xs \<noteq> []"
    and len: "length xs < 2 ^ 32" "num_items ?t = of_nat (length xs)" and tl: "ut_tail ?t = Some (last xs)"
    and tb: "tbl_rep ?m ?t (set xs)" and ko: "keys_ok ?m xs"
    using rep x by (auto simp: ut_rep_def)
  define t1 where "t1 = (if ut_tail ?t = Some x then ?t\<lparr>ut_tail := app_prev ?m x\<rparr> else ?t)"
  have b1: "unat (HASH_TO_BKT (hh_hashv ?m x) (num_buckets ?t)) =
      unat (HASH_TO_BKT (hh_hashv (unlink_app x ?m) x) (num_buckets t1))"
    by (simp add: t1_def)
  have "tbl_rep (unlink_app x ?m) t1 (set xs)"
    using tb tbl_rep_cong [of "unlink_app x ?m" ?m "set xs" t1 ?t] by (simp add: t1_def)
  then obtain m' t' where r: "HASH_DEL_IN_BKT (unat (HASH_TO_BKT (hh_hashv ?m x) (num_buckets ?t))) x (unlink_app x ?m) t1 = Some (Inr (m', t'))"
    "tbl_rep m' t' (set xs - {x})" "same_handles (unlink_app x ?m) m'" "num_items t' = num_items t1" "ut_tail t' = ut_tail t1"
    using HASH_DEL_IN_BKT_rep [OF _ x] b1 by blast
  let ?h = "if app_prev ?m x = None then app_next ?m x else ut_head s"
  let ?s = "s\<lparr>ut_head := ?h, ut_mem := m', ut_tbl := t'\<lparr>num_items := num_items t' - 1\<rparr>\<rparr>"
  have del: "HASH_DELETE_HH x s = Some (Inr ?s)"
    using HASH_DELETE_HH_eq [of s x] dll_no_self(1) [OF d x] False r(1) by (simp add: Let_def t1_def)
  have hd: "ut_head s = Some x \<longleftrightarrow> app_prev ?m x = None"
    using dll_prev_in [OF d(1) x] by auto
  have dl: "dll (app_next m') (app_prev m') None ?h (remove1 x xs)"
    using dll_delete [OF d x] r(3) hd by (simp add: same_handles_def unlink_app_def)
  have ne': "remove1 x xs \<noteq> []"
  proof
    assume "remove1 x xs = []"
    then have "xs = [x]" using x d(2) by (cases xs) (auto split: if_splits)
    then show False using False d(1) by auto
  qed
  have tail: "ut_tail t' = Some (last (remove1 x xs))"
    using tail_remove1 [OF d x ne'] tl r(5) by (simp add: t1_def split: if_splits)
  have n: "num_items t' - 1 = of_nat (length (remove1 x xs))"
    using r(4) len(2) x length_pos_if_in_set [OF x] by (simp add: t1_def length_remove1 of_nat_diff Suc_leI)
  have tr: "tbl_rep m' (t'\<lparr>num_items := num_items t' - 1\<rparr>) (set (remove1 x xs))"
    using r(2) d(2) tbl_rep_cong [of m' m' "set xs - {x}" "t'\<lparr>num_items := num_items t' - 1\<rparr>" t'] by simp
  have "keys_ok m' (remove1 x xs)"
    using keys_ok_remove1 [OF ko] r(3) by (simp add: same_handles_def keys_ok_def)
  then have "ut_rep ?s (remove1 x xs)"
    using d(2) len(1) dl tail n tr length_remove1 [of x xs] by (auto simp: ut_rep_def)
  then show ?thesis using del r(3) by (simp add: same_handles_def)
qed

end
