(* ===== verification/UthashTable.thy ===== *)
theory UthashTable
  imports UthashRep
begin

text \<open>
  The rest of the specification of \<open>src/utils/uthash.h\<close>: iteration with deletion of the current element, the count, and the
  integrity check \<open>HASH_FSCK\<close>, which every table that satisfies \<open>ut_rep\<close> passes.
\<close>

section \<open>The contract of a table of keyed elements\<close>

text \<open>What a client relies on: the table holds a list of elements with their keys; adding appends unless
  memory runs out, searching finds an element with the key exactly when there is one, deleting removes.\<close>

locale keyed_table =
  fixes rep :: "'s \<Rightarrow> 'a list \<Rightarrow> bool"
    and key :: "'s \<Rightarrow> 'a \<Rightarrow> 'k"
    and env_ok :: "'e \<Rightarrow> bool"
    and key_ok :: "'k \<Rightarrow> bool"
    and capacity :: nat
    and add :: "'e \<Rightarrow> 'k \<Rightarrow> 'a \<Rightarrow> 's \<Rightarrow> 's ut"
    and find :: "'k \<Rightarrow> 's \<Rightarrow> 'a option ut"
    and del :: "'a \<Rightarrow> 's \<Rightarrow> 's ut"
  assumes rep_distinct: "rep s xs \<Longrightarrow> distinct xs"
    and add_rep: "rep s xs \<Longrightarrow> a \<notin> set xs \<Longrightarrow> key_ok k \<Longrightarrow> length xs + 1 < capacity \<Longrightarrow> env_ok e \<Longrightarrow>
      add e k a s = Some (Inl Exit_oom) \<or>
      (\<exists>s'. add e k a s = Some (Inr s') \<and> rep s' (xs @ [a]) \<and> key s' = (key s)(a := k))"
    and find_rep: "rep s xs \<Longrightarrow> key_ok k \<Longrightarrow>
      \<exists>r. find k s = Some (Inr r) \<and>
        (case r of None \<Rightarrow> \<forall>x\<in>set xs. key s x \<noteq> k | Some a \<Rightarrow> a \<in> set xs \<and> key s a = k)"
    and del_rep: "rep s xs \<Longrightarrow> x \<in> set xs \<Longrightarrow>
      \<exists>s'. del x s = Some (Inr s') \<and> rep s' (remove1 x xs) \<and> key s' = key s"
begin

lemma find_result:
  assumes "rep s xs" "key_ok k"
  shows "\<exists>r. find k s = Some (Inr r) \<and> (r = None \<longleftrightarrow> k \<notin> key s ` set xs) \<and> (\<forall>a. r = Some a \<longrightarrow> a \<in> set xs \<and> key s a = k)"
proof -
  obtain r where "find k s = Some (Inr r)" "case r of None \<Rightarrow> \<forall>x\<in>set xs. key s x \<noteq> k | Some a \<Rightarrow> a \<in> set xs \<and> key s a = k"
    using find_rep [OF assms] by blast
  then show ?thesis by (cases r) auto
qed

lemma find_absent:
  assumes "rep s xs" "key_ok k" "k \<notin> key s ` set xs"
  shows "find k s = Some (Inr None)"
  using find_result [OF assms(1,2)] assms(3) by auto

lemma find_unique:
  assumes "rep s xs" "key_ok (key s a)" "a \<in> set xs" "inj_on (key s) (set xs)"
  shows "find (key s a) s = Some (Inr (Some a))"
  using find_rep [OF assms(1,2)] assms(3,4) by (auto split: option.splits dest: inj_onD)

lemma find_same:
  assumes "rep s xs" "rep s' ys" "key_ok k" "inj_on (key s) (set xs)" "inj_on (key s') (set ys)"
    and "\<And>x. x \<in> set xs \<and> key s x = k \<longleftrightarrow> x \<in> set ys \<and> key s' x = k"
  shows "find k s' = find k s"
proof (cases "k \<in> key s ` set xs")
  case True
  then obtain a where a: "a \<in> set xs" "key s a = k" by blast
  then have b: "a \<in> set ys" "key s' a = k" using assms(6) [of a] by simp_all
  have "find k s = Some (Inr (Some a))" using find_unique [OF assms(1) _ a(1) assms(4)] a(2) assms(3) by simp
  moreover have "find k s' = Some (Inr (Some a))" using find_unique [OF assms(2) _ b(1) assms(5)] b(2) assms(3) by simp
  ultimately show ?thesis by simp
next
  case False
  have "k \<notin> key s' ` set ys"
  proof
    assume "k \<in> key s' ` set ys"
    then obtain y where "y \<in> set ys" "key s' y = k" by auto
    then have "y \<in> set xs" "key s y = k" using assms(6) [of y] by simp_all
    then show False using False by blast
  qed
  then show ?thesis using False find_absent [OF assms(1,3)] find_absent [OF assms(2,3)] by simp
qed

lemma find_after_add:
  assumes "rep s xs" "a \<notin> set xs" "key_ok k" "length xs + 1 < capacity" "env_ok e" "add e k a s = Some (Inr s')"
    and "inj_on (key s) (set xs)" "k \<notin> key s ` set xs"
  shows "find k s' = Some (Inr (Some a))" "key_ok j \<Longrightarrow> j \<noteq> k \<Longrightarrow> find j s' = find j s"
    "\<exists>s''. del a s' = Some (Inr s'') \<and> find k s'' = Some (Inr None)"
proof -
  have r: "rep s' (xs @ [a])" "key s' = (key s)(a := k)" using add_rep [OF assms(1-5)] assms(6) by auto
  have inj: "inj_on (key s') (set (xs @ [a]))" using assms(2,7,8) r(2) by (auto simp: inj_on_def)
  show f: "find k s' = Some (Inr (Some a))" using find_unique [OF r(1) _ _ inj, of a] r(2) assms(3) by simp
  show "find j s' = find j s" if "key_ok j" "j \<noteq> k"
    by (rule find_same [OF assms(1) r(1) that(1) assms(7) inj]) (use assms(2) r(2) that(2) in auto)
  obtain s'' where d: "del a s' = Some (Inr s'')" "rep s'' (remove1 a (xs @ [a]))" "key s'' = key s'"
    using del_rep [OF r(1), of a] by auto
  have "remove1 a (xs @ [a]) = xs" using assms(2) by (simp add: remove1_append)
  then have "rep s'' xs" "k \<notin> key s'' ` set xs" using d(2,3) r(2) assms(2,8) by auto
  then show "\<exists>s''. del a s' = Some (Inr s'') \<and> find k s'' = Some (Inr None)" using d(1) find_absent assms(3) by blast
qed

end

interpretation ut: keyed_table ut_rep "\<lambda>s. hh_key (ut_mem s)" malloc_bounded "\<lambda>k. length k < 2 ^ 32" "2 ^ 32"
  HASH_ADD HASH_FIND HASH_DELETE_HH
proof unfold_locales
  show "ut_rep s xs \<Longrightarrow> distinct xs" for s xs by (simp add: ut_rep_def)
qed (rule HASH_ADD_rep HASH_FIND_rep HASH_DELETE_rep; assumption)+

section \<open>Iteration\<close>

lemma ut_rep_next:
  assumes "ut_rep s (ds @ x # rs)"
  shows "app_next (ut_mem s) x = (case rs of [] \<Rightarrow> None | y # _ \<Rightarrow> Some y)"
  using assms dll_mid_next unfolding ut_rep_def by blast

lemma iter_delete_rep:
  assumes "ut_rep s (ds @ rs)" "el = (case rs of [] \<Rightarrow> None | x # _ \<Rightarrow> Some x)"
    and "tmp = (case rs of x # y # _ \<Rightarrow> Some y | _ \<Rightarrow> None)"
  shows "\<exists>s'. iter_delete cond el tmp s k = Some (Inr (k @ filter cond rs, s')) \<and>
    ut_rep s' (ds @ filter (\<lambda>x. \<not> cond x) rs) \<and> hh_key (ut_mem s') = hh_key (ut_mem s)"
  using assms
proof (induction rs arbitrary: ds s el tmp k)
  case Nil
  then show ?case by (subst iter_delete.simps) simp
next
  case (Cons x rs)
  have el: "el = Some x" using Cons.prems(2) by simp
  have tmp: "tmp = (case rs of [] \<Rightarrow> None | y # _ \<Rightarrow> Some y)" using Cons.prems(3) by (cases rs) simp_all
  have nxt: "(case tmp of None \<Rightarrow> None | Some y \<Rightarrow> app_next (ut_mem s') y) = (case rs of y # z # _ \<Rightarrow> Some z | _ \<Rightarrow> None)"
    if "ut_rep s' (es @ rs)" for s' es
    using that ut_rep_next [of s' es] unfolding tmp by (cases rs) (auto split: list.splits)
  show ?case
  proof (cases "cond x")
    case True
    have d: "x \<notin> set ds" using Cons.prems(1) by (simp add: ut_rep_def)
    obtain s1 where s1: "HASH_DELETE_HH x s = Some (Inr s1)" "ut_rep s1 (ds @ rs)" "hh_key (ut_mem s1) = hh_key (ut_mem s)"
      using HASH_DELETE_rep [OF Cons.prems(1), of x] d by (auto simp: remove1_append)
    show ?thesis
      using Cons.IH [OF s1(2) tmp nxt [OF s1(2)], of "k @ [x]"] True s1(1,3) unfolding el
      by (subst iter_delete.simps) simp
  next
    case False
    have r: "ut_rep s ((ds @ [x]) @ rs)" using Cons.prems(1) by simp
    show ?thesis
      using Cons.IH [OF r tmp nxt [OF r], of k] False unfolding el
      by (subst iter_delete.simps) simp
  qed
qed

lemma HASH_ITER_DELETE_rep:
  assumes "ut_rep s xs"
  shows "\<exists>s'. HASH_ITER_DELETE cond s = Some (Inr (filter cond xs, s')) \<and>
    ut_rep s' (filter (\<lambda>x. \<not> cond x) xs) \<and> hh_key (ut_mem s') = hh_key (ut_mem s)"
proof -
  have "(case ut_head s of None \<Rightarrow> None | Some x \<Rightarrow> app_next (ut_mem s) x) = (case xs of x # y # _ \<Rightarrow> Some y | _ \<Rightarrow> None)"
    using ut_rep_head [OF assms] ut_rep_next [of s "[]"] assms by (cases xs) (auto split: list.splits)
  from iter_delete_rep [of s "[]" xs, OF _ ut_rep_head [OF assms] this, of cond "[]"] show ?thesis
    using assms by (simp add: HASH_ITER_DELETE_def)
qed

lemma HASH_CLEAR_rep: "ut_rep (HASH_CLEAR s) []"
  by (simp add: HASH_CLEAR_def)

lemma HASH_COUNT_rep: "ut_rep s xs \<Longrightarrow> HASH_COUNT s = of_nat (length xs)"
  using ut_rep_head [of s xs] by (cases xs) (auto simp: HASH_COUNT_def ut_rep_def)

section \<open>The integrity check\<close>

lemma fsck_walk_dll:
  "dll nx pv q p xs \<Longrightarrow> fsck_walk nx pv q p n = Some (Some (n + of_nat (length xs)))"
proof (induction xs arbitrary: q p n)
  case Nil
  then show ?case by (subst fsck_walk.simps) simp
next
  case (Cons x xs)
  have "p = Some x" "pv x = q" and d: "dll nx pv (Some x) (nx x) xs" using Cons.prems by auto
  then show ?case
    using Cons.IH [OF d, of "n + 1"] by (subst fsck_walk.simps) (simp add: algebra_simps)
qed

lemma card_from_Suc:
  fixes f :: "addr \<Rightarrow> nat"
  assumes "finite S"
  shows "card {x \<in> S. i \<le> f x} = card {x \<in> S. f x = i} + card {x \<in> S. Suc i \<le> f x}"
proof -
  have "{x \<in> S. i \<le> f x} = {x \<in> S. f x = i} \<union> {x \<in> S. Suc i \<le> f x}" by auto
  then show ?thesis using assms by (simp add: card_Un_disjoint disjoint_iff)
qed

lemma fsck_buckets_rep:
  assumes "finite S" "length bs = n"
    and "\<And>b. b < n \<Longrightarrow> \<exists>ys. dll (hh_next m) (hh_prev m) None (bkt_head (bs ! b)) ys \<and> distinct ys \<and>
           set ys = {x \<in> S. f x = b} \<and> bkt_count (bs ! b) = of_nat (length ys)"
    and "\<And>x. x \<in> S \<Longrightarrow> f x < n" "i \<le> n"
  shows "fsck_buckets m (drop i bs) c = Some (Some (c + of_nat (card {x \<in> S. i \<le> f x})))"
  using assms(5)
proof (induction "n - i" arbitrary: i c)
  case 0
  then have "{x \<in> S. i \<le> f x} = {}" using assms(4) by fastforce
  then have "card {x \<in> S. i \<le> f x} = 0" by (simp only: card.empty)
  then show ?case using 0 assms(2) by simp
next
  case (Suc k)
  then have i: "i < n" by simp
  obtain ys where ys: "dll (hh_next m) (hh_prev m) None (bkt_head (bs ! i)) ys" "distinct ys"
    "set ys = {x \<in> S. f x = i}" "bkt_count (bs ! i) = of_nat (length ys)"
    using assms(3) [OF i] by blast
  have l: "length ys = card {x \<in> S. f x = i}" using ys(2,3) distinct_card by metis
  have "drop i bs = bs ! i # drop (Suc i) bs" using i assms(2) by (simp add: Cons_nth_drop_Suc)
  then show ?case
    using Suc.hyps(1) [of "Suc i" "c + of_nat (length ys)"] Suc.hyps(2) i fsck_walk_dll [OF ys(1), of 0] ys(4)
      card_from_Suc [OF assms(1), of i f]
    by (simp add: l algebra_simps)
qed

text \<open>With sound buckets the check compares the number of items with the length of the application order.\<close>

lemma HASH_FSCK_eq:
  assumes "tbl_rep (ut_mem s) (ut_tbl s) S" "finite S" "num_items (ut_tbl s) = of_nat (card S)" "ut_head s = Some h"
    and "dll (app_next (ut_mem s)) (app_prev (ut_mem s)) None (ut_head s) zs"
  shows "HASH_FSCK s = Some (of_nat (length zs) = num_items (ut_tbl s))"
proof -
  obtain l where l: "l < 32" "num_buckets (ut_tbl s) = of_nat (2 ^ l)" "buckets_rep (ut_mem s) (2 ^ l) (ut_buckets (ut_tbl s)) S"
    using assms(1) by (auto simp: tbl_rep_def)
  let ?f = "\<lambda>x. unat (HASH_TO_BKT (hh_hashv (ut_mem s) x) (of_nat (2 ^ l)))"
  have "fsck_buckets (ut_mem s) (drop 0 (ut_buckets (ut_tbl s))) 0 = Some (Some (0 + of_nat (card {x \<in> S. 0 \<le> ?f x})))"
    by (rule fsck_buckets_rep [where n = "2 ^ l", OF assms(2)])
      (use l(3) to_bkt_bound [OF l(1)] in \<open>unfold buckets_rep_def, blast+\<close>)
  moreover have "length (ut_buckets (ut_tbl s)) = 2 ^ l" using l(3) by (simp add: buckets_rep_def)
  ultimately show ?thesis
    using fsck_walk_dll [OF assms(5), of 0] assms(3,4) unat_pow2 [OF l(1)] l(2) by (simp add: HASH_FSCK_def Let_def)
qed

lemma HASH_FSCK_rep:
  assumes "ut_rep s xs"
  shows "HASH_FSCK s = Some True"
proof (cases xs)
  case Nil
  then show ?thesis using assms by (simp add: HASH_FSCK_def)
next
  case (Cons x ys)
  then show ?thesis
    using HASH_FSCK_eq [of s "set xs" x xs] assms ut_rep_head [OF assms] by (simp add: ut_rep_def distinct_card)
qed

section \<open>Reachable tables\<close>

text \<open>The first insertion into an empty table only needs the memory of the table and of its buckets.\<close>

lemma HASH_ADD_first:
  assumes "ut_head s = None" "malloc sizeof_table" "malloc (ucast HASH_INITIAL_NUM_BUCKETS * sizeof_bucket)"
  shows "\<exists>s'. HASH_ADD malloc key a s = Some (Inr s') \<and> num_buckets (ut_tbl s') = HASH_INITIAL_NUM_BUCKETS"
proof -
  have b: "unat (HASH_TO_BKT h HASH_INITIAL_NUM_BUCKETS) < 32" for h
    using to_bkt_bound [of 5 h] by (simp add: HASH_INITIAL_NUM_BUCKETS_def)
  have "\<not> (10::u32) \<le> 1" by (simp add: word_le_nat_alt)
  then show ?thesis
    using assms b [of "HASH_JEN key"]
    by (simp add: HASH_ADD_def HASH_ADD_KEYPTR_BYHASHVALUE_def HASH_MAKE_TABLE_def HASH_ADD_TO_TABLE_def
        HASH_ADD_TO_BKT_def Let_def bucket_zero_def HASH_BKT_CAPACITY_THRESH_def)
      (simp add: HASH_INITIAL_NUM_BUCKETS_def)
qed

text \<open>A further insertion only needs the memory to double the buckets.\<close>

lemma HASH_ADD_further:
  assumes rep: "ut_rep s xs" and ne: "xs \<noteq> []" and a: "a \<notin> set xs" and mb: "malloc_bounded malloc"
    and mem: "malloc (sizeof_bucket * ucast (num_buckets (ut_tbl s)) * 2)"
  shows "\<exists>s'. HASH_ADD malloc key a s = Some (Inr s')"
proof -
  obtain h where h: "ut_head s = Some h" using ut_rep_head [OF rep] ne by (cases xs) auto
  show ?thesis
  proof (rule HASH_APPEND_LIST_rep [OF rep ne a, of key])
    fix s1 assume s1: "HASH_APPEND_LIST a (s\<lparr>ut_mem := set_handle a key (ut_mem s)\<rparr>) = Some (Inr s1)"
      "hh_hashv (ut_mem s1) = (hh_hashv (ut_mem s))(a := HASH_JEN key)"
      "tbl_rep (ut_mem s1) (ut_tbl s1) (set xs)" "num_buckets (ut_tbl s1) = num_buckets (ut_tbl s)"
    let ?t = "(ut_tbl s1)\<lparr>num_items := num_items (ut_tbl s1) + 1\<rparr>"
    let ?b = "unat (HASH_TO_BKT (hh_hashv (ut_mem s1) a) (num_buckets ?t))"
    obtain m2 t2 where p: "push_bkt ?b a (ut_mem s1) ?t = (m2, t2)" by fastforce
    have t: "tbl_rep (ut_mem s1) ?t (set xs)"
      using s1(3) tbl_rep_cong [of "ut_mem s1" "ut_mem s1" "set xs" ?t "ut_tbl s1"] by simp
    note r = push_bkt_rep [OF t finite_set a refl p]
    have "\<exists>m' t'. HASH_EXPAND_BUCKETS malloc m2 t2 = Some (Inr (m', t'))"
      using HASH_EXPAND_succeeds [OF r(1) _ mb] mem s1(4) r(5) by auto
    then have "\<exists>m' t'. HASH_ADD_TO_BKT malloc ?b a (ut_mem s1) ?t = Some (Inr (m', t'))"
      unfolding HASH_ADD_TO_BKT_eq [OF tbl_rep_bkt [OF t] p] by auto
    then show ?thesis
      using h s1(1,2)
      by (auto simp: HASH_ADD_def HASH_ADD_KEYPTR_BYHASHVALUE_def HASH_ADD_TO_TABLE_def Let_def set_handle_def)
  qed
qed

text \<open>The tables that a program reaches by adding elements that are not in the table and deleting elements that are.\<close>

inductive ut_reach :: "(size_t \<Rightarrow> bool) \<Rightarrow> ut_state \<Rightarrow> addr list \<Rightarrow> bool" for malloc where
  reach_empty: "ut_head s = None \<Longrightarrow> ut_reach malloc s []"
| reach_add: "ut_reach malloc s xs \<Longrightarrow> a \<notin> set xs \<Longrightarrow> length key < 2 ^ 32 \<Longrightarrow> length xs + 1 < 2 ^ 32 \<Longrightarrow>
    HASH_ADD malloc key a s = Some (Inr s') \<Longrightarrow> ut_reach malloc s' (xs @ [a])"
| reach_delete: "ut_reach malloc s xs \<Longrightarrow> x \<in> set xs \<Longrightarrow> HASH_DELETE_HH x s = Some (Inr s') \<Longrightarrow>
    ut_reach malloc s' (remove1 x xs)"
| reach_iter: "ut_reach malloc s xs \<Longrightarrow> HASH_ITER_DELETE cond s = Some (Inr (freed, s')) \<Longrightarrow>
    ut_reach malloc s' (filter (\<lambda>x. \<not> cond x) xs)"

lemma ut_reach_rep:
  assumes "ut_reach malloc s xs" "malloc_bounded malloc"
  shows "ut_rep s xs"
  using assms(1)
proof induction
  case (reach_add s xs a key s')
  then show ?case using HASH_ADD_rep [OF reach_add.IH reach_add.hyps(2-4) assms(2)] by simp
next
  case (reach_delete s xs x s')
  then show ?case using HASH_DELETE_rep [OF reach_delete.IH reach_delete.hyps(2)] by simp
next
  case (reach_iter s xs cond freed s')
  then show ?case using HASH_ITER_DELETE_rep [OF reach_iter.IH, of cond] by auto
qed simp

section \<open>Properties\<close>

text \<open>
  C10. The hash table of \<open>uthash.h\<close> implements a list of elements: on a table that holds \<open>xs\<close>, \<open>HASH_ADD\<close> of a
  new element, through all pointer updates and any doubling of the buckets, appends it with its key unless memory runs
  out; \<open>HASH_FIND\<close> returns null exactly when no element has the key and otherwise an element with it;
  \<open>HASH_DELETE\<close> removes exactly the given element; the loop \<open>HASH_ITER\<close> that deletes while it runs visits every
  element once; \<open>HASH_COUNT\<close> is the number of elements.
\<close>

theorem uthash_refines_list:
  assumes "ut_rep s xs" "a \<notin> set xs" "x \<in> set xs" "length key < 2 ^ 32" "length xs + 1 < 2 ^ 32" "malloc_bounded malloc"
  shows "(HASH_ADD malloc key a s = Some (Inl Exit_oom) \<or>
          (\<exists>s'. HASH_ADD malloc key a s = Some (Inr s') \<and> ut_rep s' (xs @ [a]) \<and>
                hh_key (ut_mem s') = (hh_key (ut_mem s))(a := key))) \<and>
    (\<exists>r. HASH_FIND key s = Some (Inr r) \<and> (r = None \<longleftrightarrow> key \<notin> hh_key (ut_mem s) ` set xs) \<and>
         (\<forall>y. r = Some y \<longrightarrow> y \<in> set xs \<and> hh_key (ut_mem s) y = key)) \<and>
    (\<exists>s'. HASH_DELETE_HH x s = Some (Inr s') \<and> ut_rep s' (remove1 x xs) \<and> hh_key (ut_mem s') = hh_key (ut_mem s)) \<and>
    (\<exists>s'. HASH_ITER_DELETE cond s = Some (Inr (filter cond xs, s')) \<and> ut_rep s' (filter (\<lambda>y. \<not> cond y) xs)) \<and>
    HASH_COUNT s = of_nat (length xs)"
proof (intro conjI)
  show "\<exists>r. HASH_FIND key s = Some (Inr r) \<and> (r = None \<longleftrightarrow> key \<notin> hh_key (ut_mem s) ` set xs) \<and>
         (\<forall>y. r = Some y \<longrightarrow> y \<in> set xs \<and> hh_key (ut_mem s) y = key)"
    using ut.find_result [OF assms(1,4)] .
  show "\<exists>s'. HASH_ITER_DELETE cond s = Some (Inr (filter cond xs, s')) \<and> ut_rep s' (filter (\<lambda>y. \<not> cond y) xs)"
    using HASH_ITER_DELETE_rep [OF assms(1)] by blast
qed (rule HASH_ADD_rep [OF assms(1,2,4-6)] HASH_DELETE_rep [OF assms(1,3)] HASH_COUNT_rep [OF assms(1)])+

definition ut_memory0 :: ut_heap where
  "ut_memory0 = \<lparr>app_prev = \<lambda>_. None, app_next = \<lambda>_. None, hh_prev = \<lambda>_. None, hh_next = \<lambda>_. None,
                 hh_key = \<lambda>_. [], hh_keylen = \<lambda>_. 0, hh_hashv = \<lambda>_. 0\<rparr>"

definition ut_empty :: ut_state where
  "ut_empty = \<lparr>ut_head = None,
               ut_tbl = \<lparr>ut_buckets = [], num_buckets = 0, log2_num_buckets = 0, num_items = 0, ut_tail = None,
                         ideal_chain_maxlen = 0, nonideal_items = 0, ineff_expands = 0, noexpand = 0\<rparr>,
               ut_mem = ut_memory0\<rparr>"

definition small_malloc :: "size_t \<Rightarrow> bool" where
  "small_malloc n \<longleftrightarrow> n < 0x1000"

lemma small_malloc_bounded: "malloc_bounded small_malloc"
  unfolding malloc_bounded_def small_malloc_def by (auto intro: less_trans)

lemma ut_one:
  assumes "length key < 2 ^ 32"
  obtains s where "HASH_ADD small_malloc key a ut_empty = Some (Inr s)" "ut_rep s [a]" "hh_key (ut_mem s) a = key"
    "num_buckets (ut_tbl s) = HASH_INITIAL_NUM_BUCKETS"
proof -
  have "\<exists>s. HASH_ADD small_malloc key a ut_empty = Some (Inr s) \<and> num_buckets (ut_tbl s) = HASH_INITIAL_NUM_BUCKETS"
    by (rule HASH_ADD_first)
      (simp_all add: ut_empty_def small_malloc_def sizeof_table_def sizeof_bucket_def HASH_INITIAL_NUM_BUCKETS_def)
  then show ?thesis
    using that HASH_ADD_rep [of ut_empty "[]" a key small_malloc] small_malloc_bounded assms
    by (auto simp: ut_empty_def)
qed

lemma ut_two:
  assumes "length k < 2 ^ 32" "length j < 2 ^ 32" "a \<noteq> b"
  obtains s s' where "HASH_ADD small_malloc k a ut_empty = Some (Inr s)" "HASH_ADD small_malloc j b s = Some (Inr s')"
    "ut_rep s' [a, b]" "hh_key (ut_mem s') a = k" "hh_key (ut_mem s') b = j"
proof -
  obtain s where s: "HASH_ADD small_malloc k a ut_empty = Some (Inr s)" "ut_rep s [a]" "hh_key (ut_mem s) a = k"
    "num_buckets (ut_tbl s) = HASH_INITIAL_NUM_BUCKETS"
    using ut_one [OF assms(1)] by blast
  have "\<exists>s'. HASH_ADD small_malloc j b s = Some (Inr s')"
    by (rule HASH_ADD_further [OF s(2)])
      (use assms(3) s(4) small_malloc_bounded in
        \<open>simp_all add: small_malloc_def sizeof_bucket_def HASH_INITIAL_NUM_BUCKETS_def\<close>)
  then show ?thesis
    using that s(1,3) HASH_ADD_rep [OF s(2), of b j small_malloc] small_malloc_bounded assms by fastforce
qed

theorem uthash_refines_list_witness:
  "\<exists>s. HASH_ADD small_malloc (lit ''a:b'') 1 ut_empty = Some (Inr s) \<and> HASH_COUNT s = 1 \<and>
     (\<exists>r. HASH_FIND (lit ''a:b'') s = Some (Inr r) \<and> r \<noteq> None) \<and> HASH_FIND (lit ''c'') s = Some (Inr None)"
proof -
  obtain s where s: "HASH_ADD small_malloc (lit ''a:b'') 1 ut_empty = Some (Inr s)" "ut_rep s [1]"
    "hh_key (ut_mem s) 1 = lit ''a:b''"
    using ut_one [of "lit ''a:b''" 1] by auto
  have "HASH_COUNT s = 1" "\<exists>r. HASH_FIND (lit ''a:b'') s = Some (Inr r) \<and> r \<noteq> None" "HASH_FIND (lit ''c'') s = Some (Inr None)"
    using uthash_refines_list [OF s(2), of 2 1 "lit ''a:b''" small_malloc]
      uthash_refines_list [OF s(2), of 2 1 "lit ''c''" small_malloc] small_malloc_bounded s(3)
    by (auto simp: lit_def)
  then show ?thesis using s(1) by blast
qed

text \<open>
  C26. Every table that is reached from the empty one by insertions, deletions and deleting iterations passes the
  integrity check \<open>HASH_FSCK\<close> of \<open>uthash.h\<close>: the back links of all chains and of the application order, the counts of
  the buckets and the number of items are right, and the walks of the check end.
\<close>

theorem uthash_reachable_fsck:
  assumes "ut_reach malloc s xs" "malloc_bounded malloc"
  shows "HASH_FSCK s = Some True \<and> HASH_COUNT s = of_nat (length xs) \<and> distinct xs"
  using ut_reach_rep [OF assms] HASH_FSCK_rep HASH_COUNT_rep by (auto simp: ut_rep_def)

theorem uthash_reachable_fsck_witness:
  "\<exists>s. ut_reach small_malloc s [1] \<and> HASH_FSCK s = Some True \<and> HASH_COUNT s = 1"
proof -
  obtain s where s: "HASH_ADD small_malloc (lit ''k'') 1 ut_empty = Some (Inr s)" using ut_one [of "lit ''k''" 1] by auto
  have "ut_reach small_malloc s ([] @ [1])"
    by (rule ut_reach.reach_add [OF ut_reach.reach_empty _ _ _ s]) (simp_all add: ut_empty_def)
  then show ?thesis using uthash_reachable_fsck [of small_malloc s "[1]"] small_malloc_bounded by auto
qed

text \<open>
  What is inserted is found: in a table with unique keys, after \<open>HASH_ADD\<close> of a new element under a new key
  \<open>HASH_FIND\<close> of that key returns the element, \<open>HASH_FIND\<close> of every other key answers as before, and
  \<open>HASH_DELETE\<close> of the element makes the key unknown again.
\<close>

theorem uthash_insert_lookup:
  assumes "ut_rep s xs" "a \<notin> set xs" "length k < 2 ^ 32" "length xs + 1 < 2 ^ 32" "malloc_bounded malloc"
    and "HASH_ADD malloc k a s = Some (Inr s')" "inj_on (hh_key (ut_mem s)) (set xs)" "k \<notin> hh_key (ut_mem s) ` set xs"
  shows "HASH_FIND k s' = Some (Inr (Some a)) \<and>
    (\<forall>j. length j < 2 ^ 32 \<and> j \<noteq> k \<longrightarrow> HASH_FIND j s' = HASH_FIND j s) \<and>
    (\<exists>s''. HASH_DELETE_HH a s' = Some (Inr s'') \<and> HASH_FIND k s'' = Some (Inr None))"
  using ut.find_after_add [OF assms] by blast

theorem uthash_insert_lookup_witness:
  "\<exists>s'. HASH_ADD small_malloc (lit ''k'') 1 ut_empty = Some (Inr s') \<and> HASH_FIND (lit ''k'') s' = Some (Inr (Some 1)) \<and>
     HASH_FIND (lit ''x'') s' = Some (Inr None)"
proof -
  obtain s' where s: "HASH_ADD small_malloc (lit ''k'') 1 ut_empty = Some (Inr s')" using ut_one [of "lit ''k''" 1] by auto
  have e: "ut_rep ut_empty []" "HASH_FIND j ut_empty = Some (Inr None)" for j by (simp_all add: ut_empty_def HASH_FIND_def)
  have "lit ''x'' \<noteq> lit ''k''" by (simp add: lit_def)
  then show ?thesis
    using uthash_insert_lookup [OF e(1), of 1 "lit ''k''" small_malloc s'] small_malloc_bounded s e(2) by auto
qed

end
