(* ===== verification/UthashSort.thy ===== *)
theory UthashSort
  imports UthashTable "HOL-Library.Multiset"
begin

text \<open>
  \<open>HASH_SRT\<close> of \<open>src/utils/uthash.h\<close>, the bottom-up merge sort on the linked list of the application order (after Simon
  Tatham), as the macro runs it: it splits off two runs of \<open>_hs_insize\<close> elements, merges them by relinking \<open>next\<close> and
  \<open>prev\<close>, goes on with the rest of the list, and doubles the width until one merge covers the list.

  The pointer program is proved equal to passes over lists (\<open>pass_list\<close>, \<open>sort_list\<close>), for every comparison function; for a
  comparison that orders the elements by a key the result is the stable sort \<open>sort_key\<close> of the library.
\<close>

section \<open>The macro\<close>

text \<open>The local variables of the macro, with the memory.\<close>

record srt_vars =
  hs_p :: "addr option"
  hs_q :: "addr option"
  hs_psize :: u32
  hs_qsize :: u32
  hs_list :: "addr option"
  hs_tail :: "addr option"
  hs_mem :: ut_heap

text \<open>The \<^verbatim>\<open>for\<close> loop that steps \<open>_hs_q\<close> over the first run; the second argument is what is left of \<open>_hs_insize\<close>.\<close>

fun srt_advance :: "ut_heap \<Rightarrow> nat \<Rightarrow> u32 \<Rightarrow> addr \<Rightarrow> u32 \<times> addr option" where
  "srt_advance m 0 psize q = (psize, Some q)"
| "srt_advance m (Suc n) psize q =
     (case app_next m q of None \<Rightarrow> (psize + 1, None) | Some q' \<Rightarrow> srt_advance m n (psize + 1) q')"

definition srt_take_p :: "srt_vars \<Rightarrow> addr option \<times> srt_vars" where
  "srt_take_p v =
     (hs_p v, v\<lparr>hs_p := (case hs_p v of None \<Rightarrow> None | Some x \<Rightarrow> app_next (hs_mem v) x), hs_psize := hs_psize v - 1\<rparr>)"

definition srt_take_q :: "srt_vars \<Rightarrow> (addr option \<times> srt_vars) cres" where
  "srt_take_q v =
     (case hs_q v of None \<Rightarrow> Inl NullDeref
      | Some x \<Rightarrow> Inr (Some x, v\<lparr>hs_q := app_next (hs_mem v) x, hs_qsize := hs_qsize v - 1\<rparr>))"

definition srt_pick :: "(addr \<Rightarrow> addr \<Rightarrow> int) \<Rightarrow> srt_vars \<Rightarrow> (addr option \<times> srt_vars) cres" where
  "srt_pick cmpfcn v =
     (if hs_psize v = 0 then srt_take_q v
      else if hs_qsize v = 0 \<or> hs_q v = None then Inr (srt_take_p v)
      else (case (hs_p v, hs_q v) of
              (Some x, Some y) \<Rightarrow> if cmpfcn x y \<le> 0 then Inr (srt_take_p v) else srt_take_q v
            | _ \<Rightarrow> Inl NullDeref))"

definition srt_link :: "addr option \<Rightarrow> srt_vars \<Rightarrow> srt_vars" where
  "srt_link e v =
     (let m = hs_mem v;
          v1 = (case hs_tail v of
                  Some t \<Rightarrow> v\<lparr>hs_mem := m\<lparr>app_next := (app_next m)(t := e)\<rparr>\<rparr>
                | None \<Rightarrow> v\<lparr>hs_list := e\<rparr>);
          m1 = hs_mem v1;
          v2 = (case e of
                  Some x \<Rightarrow> v1\<lparr>hs_mem := m1\<lparr>app_prev := (app_prev m1)(x := hs_tail v)\<rparr>\<rparr>
                | None \<Rightarrow> v1)
      in v2\<lparr>hs_tail := e\<rparr>)"

partial_function (option) srt_merge :: "(addr \<Rightarrow> addr \<Rightarrow> int) \<Rightarrow> srt_vars \<Rightarrow> srt_vars ut" where [code]:
  "srt_merge cmpfcn v =
     (if hs_psize v \<noteq> 0 \<or> (hs_qsize v \<noteq> 0 \<and> hs_q v \<noteq> None)
      then (case srt_pick cmpfcn v of
              Inl f \<Rightarrow> Some (Inl (Fault f))
            | Inr (e, v') \<Rightarrow> srt_merge cmpfcn (srt_link e v'))
      else Some (Inr v))"

partial_function (option) srt_pass :: "(addr \<Rightarrow> addr \<Rightarrow> int) \<Rightarrow> u32 \<Rightarrow> srt_vars \<Rightarrow> u32 \<Rightarrow> (srt_vars \<times> u32) ut" where [code]:
  "srt_pass cmpfcn insize v nmerges =
     (case hs_p v of None \<Rightarrow> Some (Inr (v, nmerges))
      | Some x \<Rightarrow>
          (case srt_advance (hs_mem v) (unat insize) 0 x of (psize, q) \<Rightarrow>
             (case srt_merge cmpfcn (v\<lparr>hs_q := q, hs_psize := psize, hs_qsize := insize\<rparr>) of
                None \<Rightarrow> None
              | Some (Inl e) \<Rightarrow> Some (Inl e)
              | Some (Inr v') \<Rightarrow> srt_pass cmpfcn insize (v'\<lparr>hs_p := hs_q v'\<rparr>) (nmerges + 1))))"

definition srt_start :: "addr option \<Rightarrow> ut_heap \<Rightarrow> srt_vars" where
  "srt_start list m =
     \<lparr>hs_p = list, hs_q = None, hs_psize = 0, hs_qsize = 0, hs_list = None, hs_tail = None, hs_mem = m\<rparr>"

partial_function (option) srt_loop :: "(addr \<Rightarrow> addr \<Rightarrow> int) \<Rightarrow> u32 \<Rightarrow> addr option \<Rightarrow> ut_state \<Rightarrow> ut_state ut" where [code]:
  "srt_loop cmpfcn insize list s =
     (case srt_pass cmpfcn insize (srt_start list (ut_mem s)) 0 of
        None \<Rightarrow> None
      | Some (Inl e) \<Rightarrow> Some (Inl e)
      | Some (Inr (v, nmerges)) \<Rightarrow>
          (let m = (case hs_tail v of None \<Rightarrow> hs_mem v
                    | Some t \<Rightarrow> (hs_mem v)\<lparr>app_next := (app_next (hs_mem v))(t := None)\<rparr>)
           in if nmerges \<le> 1
              then Some (Inr (s\<lparr>ut_mem := m, ut_tbl := (ut_tbl s)\<lparr>ut_tail := hs_tail v\<rparr>, ut_head := hs_list v\<rparr>))
              else srt_loop cmpfcn (insize * 2) (hs_list v) (s\<lparr>ut_mem := m\<rparr>)))"

definition HASH_SRT :: "(addr \<Rightarrow> addr \<Rightarrow> int) \<Rightarrow> ut_state \<Rightarrow> ut_state ut" where
  "HASH_SRT cmpfcn s = (case ut_head s of None \<Rightarrow> Some (Inr s) | Some h \<Rightarrow> srt_loop cmpfcn 1 (Some h) s)"

section \<open>The sort on lists\<close>

fun merge_list :: "(addr \<Rightarrow> addr \<Rightarrow> int) \<Rightarrow> addr list \<Rightarrow> addr list \<Rightarrow> addr list" where
  "merge_list cmpfcn [] ys = ys"
| "merge_list cmpfcn (x # xs) [] = x # xs"
| "merge_list cmpfcn (x # xs) (y # ys) =
     (if cmpfcn x y \<le> 0 then x # merge_list cmpfcn xs (y # ys) else y # merge_list cmpfcn (x # xs) ys)"

function pass_list :: "(addr \<Rightarrow> addr \<Rightarrow> int) \<Rightarrow> nat \<Rightarrow> addr list \<Rightarrow> addr list" where
  "pass_list cmpfcn n xs =
     (if xs = [] \<or> n = 0 then []
      else merge_list cmpfcn (take n xs) (take n (drop n xs)) @ pass_list cmpfcn n (drop n (drop n xs)))"
  by pat_completeness auto
termination
  by (relation "measure (\<lambda>(c, n, xs). length xs)") auto

declare pass_list.simps [simp del]

function sort_list :: "(addr \<Rightarrow> addr \<Rightarrow> int) \<Rightarrow> nat \<Rightarrow> addr list \<Rightarrow> addr list" where
  "sort_list cmpfcn n xs =
     (if n = 0 \<or> length xs \<le> 2 * n then pass_list cmpfcn n xs
      else sort_list cmpfcn (2 * n) (pass_list cmpfcn n xs))"
  by pat_completeness auto

lemma mset_merge_list [simp]: "mset (merge_list c xs ys) = mset xs + mset ys"
  by (induction c xs ys rule: merge_list.induct) auto

lemma set_merge_list [simp]: "set (merge_list c xs ys) = set xs \<union> set ys"
  by (simp flip: set_mset_mset)

lemma merge_list_Nil [simp]: "merge_list c xs [] = xs"
  by (cases xs) simp_all

lemma mset_pass_list: "0 < n \<Longrightarrow> mset (pass_list c n xs) = mset xs"
proof (induction c n xs rule: pass_list.induct)
  case (1 c n xs)
  show ?case
  proof (cases "xs = []")
    case False
    then have "mset (pass_list c n xs) = mset (take n xs) + (mset (take n (drop n xs)) + mset (drop n (drop n xs)))"
      using 1 by (subst pass_list.simps) simp
    also have "mset (take n (drop n xs)) + mset (drop n (drop n xs)) = mset (drop n xs)"
      by (metis append_take_drop_id mset_append)
    finally show ?thesis by (metis append_take_drop_id mset_append)
  qed (simp add: pass_list.simps)
qed

lemma length_pass_list: "0 < n \<Longrightarrow> length (pass_list c n xs) = length xs"
  using mset_eq_length [OF mset_pass_list] .

termination sort_list
  by (relation "measure (\<lambda>(c, n, xs). length xs - n)") (auto simp: length_pass_list)

declare sort_list.simps [simp del]

lemma mset_sort_list: "0 < n \<Longrightarrow> mset (sort_list c n xs) = mset xs"
proof (induction c n xs rule: sort_list.induct)
  case (1 c n xs)
  then show ?case by (subst sort_list.simps) (auto simp: mset_pass_list)
qed

section \<open>Sorting by a key\<close>

text \<open>The comparison orders the elements of \<^term>\<open>S\<close> by their keys \<^term>\<open>k\<close>.\<close>

definition cmp_by :: "addr set \<Rightarrow> (addr \<Rightarrow> 'k::linorder) \<Rightarrow> (addr \<Rightarrow> addr \<Rightarrow> int) \<Rightarrow> bool" where
  "cmp_by S k cmpfcn \<longleftrightarrow> (\<forall>x \<in> S. \<forall>y \<in> S. cmpfcn x y \<le> 0 \<longleftrightarrow> k x \<le> k y)"

lemma cmp_by_subset: "cmp_by S k c \<Longrightarrow> T \<subseteq> S \<Longrightarrow> cmp_by T k c"
  by (auto simp: cmp_by_def)

lemma merge_sorted:
  "cmp_by (set xs \<union> set ys) k c \<Longrightarrow> sorted (map k xs) \<Longrightarrow> sorted (map k ys) \<Longrightarrow> sorted (map k (merge_list c xs ys))"
proof (induction c xs ys rule: merge_list.induct)
  case (3 c x xs y ys)
  have le: "c x y \<le> 0 \<longleftrightarrow> k x \<le> k y" using 3(3) by (simp add: cmp_by_def)
  have sub: "cmp_by (set xs \<union> set (y # ys)) k c" "cmp_by (set (x # xs) \<union> set ys) k c"
    by (rule cmp_by_subset [OF 3(3)], auto)+
  show ?case
  proof (cases "k x \<le> k y")
    case True
    have "sorted (map k (merge_list c xs (y # ys)))" using 3(1) [OF _ sub(1)] 3(4,5) True le by simp
    moreover have "\<forall>z \<in> set xs \<union> set (y # ys). k x \<le> k z" using 3(4,5) True by fastforce
    ultimately show ?thesis using True le by simp
  next
    case False
    have "sorted (map k (merge_list c (x # xs) ys))" using 3(2) [OF _ sub(2)] 3(4,5) False le by simp
    moreover have "\<forall>z \<in> set (x # xs) \<union> set ys. k y \<le> k z" using 3(4,5) False by fastforce
    ultimately show ?thesis using False le by simp
  qed
qed simp_all

lemma merge_stable:
  "cmp_by (set xs \<union> set ys) k c \<Longrightarrow> sorted (map k xs) \<Longrightarrow> sorted (map k ys) \<Longrightarrow>
   filter (\<lambda>x. k x = z) (merge_list c xs ys) = filter (\<lambda>x. k x = z) xs @ filter (\<lambda>x. k x = z) ys"
proof (induction c xs ys rule: merge_list.induct)
  case (3 c x xs y ys)
  have le: "c x y \<le> 0 \<longleftrightarrow> k x \<le> k y" using 3(3) by (simp add: cmp_by_def)
  have sub: "cmp_by (set xs \<union> set (y # ys)) k c" "cmp_by (set (x # xs) \<union> set ys) k c"
    by (rule cmp_by_subset [OF 3(3)], auto)+
  show ?case
  proof (cases "k x \<le> k y")
    case True
    then show ?thesis using 3(1) [OF _ sub(1)] 3(4,5) le by simp
  next
    case False
    have "filter (\<lambda>x. k x = z) (x # xs) = []" if "k y = z"
    proof -
      have "\<forall>u \<in> set (x # xs). k y < k u" using 3(4) False by fastforce
      then show ?thesis using that by (auto simp: filter_empty_conv)
    qed
    then show ?thesis using 3(2) [OF _ sub(2)] 3(4,5) le False by (cases "k y = z") simp_all
  qed
qed simp_all

lemma merge_sort_key:
  assumes "cmp_by (set xs \<union> set ys) k c"
  shows "merge_list c (sort_key k xs) (sort_key k ys) = sort_key k (xs @ ys)"
proof (rule properties_for_sort_key [symmetric])
  fix z
  have "filter (\<lambda>x. k x = k z) (merge_list c (sort_key k xs) (sort_key k ys)) = filter (\<lambda>x. k x = k z) (xs @ ys)"
    using assms merge_stable [of "sort_key k xs" "sort_key k ys" k c] by (simp add: sort_key_stable)
  then show "filter (\<lambda>x. k z = k x) (merge_list c (sort_key k xs) (sort_key k ys)) = filter (\<lambda>x. k z = k x) (xs @ ys)"
    by (simp only: eq_commute)
qed (use assms merge_sorted [of "sort_key k xs" "sort_key k ys" k c] in simp_all)

text \<open>The list with its runs of \<^term>\<open>n\<close> elements sorted.\<close>

function chunk_sort :: "(addr \<Rightarrow> 'k::linorder) \<Rightarrow> nat \<Rightarrow> addr list \<Rightarrow> addr list" where
  "chunk_sort k n xs = (if xs = [] \<or> n = 0 then [] else sort_key k (take n xs) @ chunk_sort k n (drop n xs))"
  by pat_completeness auto
termination
  by (relation "measure (\<lambda>(k, n, xs). length xs)") auto

declare chunk_sort.simps [simp del]

lemma chunk_sort_Nil [simp]: "chunk_sort k n [] = []"
  by (simp add: chunk_sort.simps)

lemma chunk_sort_Cons:
  "0 < n \<Longrightarrow> xs \<noteq> [] \<Longrightarrow> chunk_sort k n xs = sort_key k (take n xs) @ chunk_sort k n (drop n xs)"
  by (simp add: chunk_sort.simps [of k n xs])

lemma chunk_sort_1: "chunk_sort k 1 xs = xs"
  by (induction xs) (simp_all add: chunk_sort_Cons)

lemma chunk_sort_all: "0 < n \<Longrightarrow> length xs \<le> n \<Longrightarrow> chunk_sort k n xs = sort_key k xs"
  by (cases "xs = []") (simp_all add: chunk_sort_Cons)

lemma length_chunk_sort: "0 < n \<Longrightarrow> length (chunk_sort k n xs) = length xs"
proof (induction k n xs rule: chunk_sort.induct)
  case (1 k n xs)
  then show ?case by (cases "xs = []") (simp_all add: chunk_sort_Cons)
qed

lemma take_drop_chunk_sort:
  assumes "0 < n"
  shows "take n (chunk_sort k n xs) = sort_key k (take n xs)" "drop n (chunk_sort k n xs) = chunk_sort k n (drop n xs)"
  using assms by (cases "xs = []"; cases "length xs \<le> n"; simp add: chunk_sort_Cons)+

lemma pass_chunk_sort:
  "0 < n \<Longrightarrow> cmp_by (set xs) k c \<Longrightarrow> pass_list c n (chunk_sort k n xs) = chunk_sort k (2 * n) xs"
proof (induction "length xs" arbitrary: xs rule: less_induct)
  case less
  show ?case
  proof (cases "xs = []")
    case False
    define ys where "ys = drop n (drop n xs)"
    have ne: "chunk_sort k n xs \<noteq> []" using length_chunk_sort [OF less.prems(1), of k xs] False by auto
    have sub: "set (take n xs) \<union> set (take n (drop n xs)) \<subseteq> set xs" "set ys \<subseteq> set xs"
      unfolding ys_def by (auto dest: in_set_takeD in_set_dropD)
    have IH: "pass_list c n (chunk_sort k n ys) = chunk_sort k (2 * n) ys"
      by (rule less.hyps) (use False less.prems cmp_by_subset [OF less.prems(2) sub(2)] in \<open>simp_all add: ys_def\<close>)
    have mg: "merge_list c (sort_key k (take n xs)) (sort_key k (take n (drop n xs))) = sort_key k (take (2 * n) xs)"
      using merge_sort_key [OF cmp_by_subset [OF less.prems(2) sub(1)]] take_add [of n n xs] by (simp add: mult_2)
    have "pass_list c n (chunk_sort k n xs) = sort_key k (take (2 * n) xs) @ chunk_sort k (2 * n) ys"
    proof -
      have "pass_list c n (chunk_sort k n xs) =
        merge_list c (take n (chunk_sort k n xs)) (take n (drop n (chunk_sort k n xs))) @
        pass_list c n (drop n (drop n (chunk_sort k n xs)))"
        using ne less.prems(1) pass_list.simps [of c n "chunk_sort k n xs"] by simp
      then show ?thesis unfolding take_drop_chunk_sort [OF less.prems(1)] mg ys_def [symmetric] IH .
    qed
    moreover have "ys = drop (2 * n) xs" by (simp add: ys_def mult_2)
    ultimately show ?thesis using chunk_sort_Cons [of "2 * n" xs k] less.prems(1) False by simp
  qed (simp add: pass_list.simps)
qed

lemma sort_chunk_sort:
  "0 < n \<Longrightarrow> cmp_by (set xs) k c \<Longrightarrow> sort_list c n (chunk_sort k n xs) = sort_key k xs"
proof (induction "length xs - n" arbitrary: n rule: less_induct)
  case less
  then show ?case
    using pass_chunk_sort [OF less.prems] chunk_sort_all [of "2 * n" xs k] length_chunk_sort [of n k xs]
    by (subst sort_list.simps) auto
qed

lemma sort_list_key: "cmp_by (set xs) k c \<Longrightarrow> sort_list c 1 xs = sort_key k xs"
  using sort_chunk_sort [of 1 xs k c] chunk_sort_1 [of k xs] by simp

section \<open>Lists under construction\<close>

text \<open>\<^term>\<open>links\<close> relates a list to the links between its elements; the \<open>next\<close> link of its last element is free.
  \<^term>\<open>run\<close> is a piece of a chain.\<close>

fun links :: "(addr \<Rightarrow> addr option) \<Rightarrow> (addr \<Rightarrow> addr option) \<Rightarrow> addr option \<Rightarrow> addr list \<Rightarrow> bool" where
  "links nx pv q [] \<longleftrightarrow> True"
| "links nx pv q (x # xs) \<longleftrightarrow> pv x = q \<and> (xs \<noteq> [] \<longrightarrow> nx x = Some (hd xs)) \<and> links nx pv (Some x) xs"

fun run :: "(addr \<Rightarrow> addr option) \<Rightarrow> addr option \<Rightarrow> addr list \<Rightarrow> bool" where
  "run nx p [] \<longleftrightarrow> True"
| "run nx p (x # xs) \<longleftrightarrow> p = Some x \<and> run nx (nx x) xs"

definition first :: "addr list \<Rightarrow> addr option" where
  "first xs = (case xs of [] \<Rightarrow> None | x # _ \<Rightarrow> Some x)"

definition final :: "addr list \<Rightarrow> addr option" where
  "final xs = (if xs = [] then None else Some (last xs))"

lemma first_simps [simp]: "first [] = None" "first (x # xs) = Some x" "xs \<noteq> [] \<Longrightarrow> first (xs @ ys) = first xs"
  "first (xs @ [x]) = (if xs = [] then Some x else first xs)" "first xs = None \<longleftrightarrow> xs = []"
  by (auto simp: first_def split: list.split)

lemma final_simps [simp]: "final [] = None" "final (xs @ [x]) = Some x" "final xs = None \<longleftrightarrow> xs = []"
  by (simp_all add: final_def)

lemma run_other [simp]: "y \<notin> set xs \<Longrightarrow> run (nx(y := v)) p xs = run nx p xs"
  by (induction xs arbitrary: p) auto

lemma links_snoc:
  assumes "links nx pv q xs" "distinct (xs @ [e])"
  shows "links (if xs = [] then nx else nx(last xs := Some e)) (pv(e := if xs = [] then q else Some (last xs))) q (xs @ [e])"
  using assms
proof (induction xs arbitrary: q)
  case (Cons x xs)
  show ?case
  proof (cases "xs = []")
    case False
    then have "x \<noteq> last xs" using Cons.prems(2) last_in_set [OF False] by auto
    then show ?thesis using Cons.IH [of "Some x"] Cons.prems False by auto
  qed (use Cons.prems in auto)
qed simp

lemma links_dll: "links nx pv q xs \<Longrightarrow> distinct xs \<Longrightarrow> xs \<noteq> [] \<Longrightarrow> dll (nx(last xs := None)) pv q (first xs) xs"
proof (induction xs arbitrary: q)
  case (Cons x xs)
  show ?case
  proof (cases "xs = []")
    case False
    then have "x \<noteq> last xs" using Cons.prems(2) last_in_set [OF False] by auto
    then show ?thesis using Cons False by (cases xs) auto
  qed (use Cons.prems in simp)
qed simp

text \<open>What the sort leaves alone: the chains and the keys.\<close>

definition same_chains :: "ut_heap \<Rightarrow> ut_heap \<Rightarrow> bool" where
  "same_chains m m' \<longleftrightarrow>
     hh_next m' = hh_next m \<and> hh_prev m' = hh_prev m \<and> hh_hashv m' = hh_hashv m \<and> hh_key m' = hh_key m \<and>
     hh_keylen m' = hh_keylen m"

lemma same_chains_refl [simp]: "same_chains m m"
  by (simp add: same_chains_def)

lemma same_chains_trans: "same_chains m m' \<Longrightarrow> same_chains m' m'' \<Longrightarrow> same_chains m m''"
  by (simp add: same_chains_def)

section \<open>Merging two runs\<close>

text \<open>In the middle of a merge: \<^term>\<open>ds\<close> is linked, \<^term>\<open>ps\<close> is left of the first run and \<^term>\<open>rs\<close> is the chain
  from \<open>_hs_q\<close> on.\<close>

definition merging :: "srt_vars \<Rightarrow> addr list \<Rightarrow> addr list \<Rightarrow> addr list \<Rightarrow> bool" where
  "merging v ds ps rs \<longleftrightarrow>
     distinct (ds @ ps @ rs) \<and> links (app_next (hs_mem v)) (app_prev (hs_mem v)) None ds \<and>
     hs_list v = first ds \<and> hs_tail v = final ds \<and> run (app_next (hs_mem v)) (hs_p v) ps \<and>
     nchain (app_next (hs_mem v)) (hs_q v) rs \<and> unat (hs_psize v) = length ps"

lemma srt_link_Some:
  "srt_link (Some x) v =
     v\<lparr>hs_mem := (hs_mem v)\<lparr>app_next := (case hs_tail v of None \<Rightarrow> app_next (hs_mem v) | Some t \<Rightarrow> (app_next (hs_mem v))(t := Some x)),
                            app_prev := (app_prev (hs_mem v))(x := hs_tail v)\<rparr>,
       hs_list := (if hs_tail v = None then Some x else hs_list v), hs_tail := Some x\<rparr>"
  by (simp add: srt_link_def Let_def split: option.split)

lemma merging_link:
  assumes "distinct (ds @ x # ps @ rs)" "links (app_next (hs_mem v)) (app_prev (hs_mem v)) None ds"
    and "hs_list v = first ds" "hs_tail v = final ds" "run (app_next (hs_mem v)) (hs_p v) ps"
    and "nchain (app_next (hs_mem v)) (hs_q v) rs" "unat (hs_psize v) = length ps"
  shows "merging (srt_link (Some x) v) (ds @ [x]) ps rs \<and> same_chains (hs_mem v) (hs_mem (srt_link (Some x) v))"
proof -
  have "last ds \<notin> set ps" "last ds \<notin> set rs" if "ds \<noteq> []"
    using last_in_set [OF that] assms(1) by auto
  then show ?thesis
    using assms links_snoc [OF assms(2), of x]
    by (auto simp: merging_def srt_link_Some final_def same_chains_def)
qed

lemma merging_take_p:
  assumes "merging v ds (x # ps) rs" "srt_take_p v = (e, v')"
  shows "merging (srt_link e v') (ds @ [x]) ps rs" "hs_qsize (srt_link e v') = hs_qsize v"
    "same_chains (hs_mem v) (hs_mem (srt_link e v'))"
proof -
  have e: "e = Some x" "v' = v\<lparr>hs_p := app_next (hs_mem v) x, hs_psize := hs_psize v - 1\<rparr>"
    using assms by (auto simp: merging_def srt_take_p_def)
  have "hs_psize v \<noteq> 0" using assms(1) by (auto simp: merging_def)
  then have "unat (hs_psize v - 1) = length ps"
    using assms(1) by (simp add: merging_def unat_minus_one)
  then show "merging (srt_link e v') (ds @ [x]) ps rs" "hs_qsize (srt_link e v') = hs_qsize v"
    "same_chains (hs_mem v) (hs_mem (srt_link e v'))"
    using assms(1) merging_link [of ds x ps rs v'] unfolding e by (auto simp: merging_def srt_link_Some)
qed

lemma merging_take_q:
  assumes "merging v ds ps (x # rs)" "hs_qsize v \<noteq> 0" "srt_take_q v = Inr (e, v')"
  shows "merging (srt_link e v') (ds @ [x]) ps rs" "unat (hs_qsize (srt_link e v')) = unat (hs_qsize v) - 1"
    "same_chains (hs_mem v) (hs_mem (srt_link e v'))"
proof -
  have e: "e = Some x" "v' = v\<lparr>hs_q := app_next (hs_mem v) x, hs_qsize := hs_qsize v - 1\<rparr>"
    using assms(1,3) by (auto simp: merging_def srt_take_q_def split: option.splits)
  have "unat (hs_qsize v - 1) = unat (hs_qsize v) - 1" using assms(2) by (simp add: unat_minus_one)
  then show "merging (srt_link e v') (ds @ [x]) ps rs" "unat (hs_qsize (srt_link e v')) = unat (hs_qsize v) - 1"
    "same_chains (hs_mem v) (hs_mem (srt_link e v'))"
    using assms(1) merging_link [of ds x ps rs v'] unfolding e by (auto simp: merging_def srt_link_Some)
qed

lemma srt_merge_step:
  assumes "hs_psize v \<noteq> 0 \<or> (hs_qsize v \<noteq> 0 \<and> hs_q v \<noteq> None)" "srt_pick c v = Inr (e, v')"
  shows "srt_merge c v = srt_merge c (srt_link e v')"
  using assms by (subst srt_merge.simps) simp

lemma srt_merge_spec:
  "merging v ds ps rs \<Longrightarrow> n = unat (hs_qsize v) \<Longrightarrow>
   \<exists>v'. srt_merge c v = Some (Inr v') \<and> merging v' (ds @ merge_list c ps (take n rs)) [] (drop n rs) \<and>
     same_chains (hs_mem v) (hs_mem v')"
proof (induction "length ps + length (take n rs)" arbitrary: v ds ps rs n rule: less_induct)
  case less
  have psize: "hs_psize v = 0 \<longleftrightarrow> ps = []" and q: "hs_q v = first rs" and p: "ps \<noteq> [] \<Longrightarrow> hs_p v = first ps"
    using less.prems(1) by (cases ps; cases rs; auto simp: merging_def unat_eq_0)+
  have qsize: "hs_qsize v = 0 \<longleftrightarrow> n = 0" using less.prems(2) by (auto simp: unat_eq_0)
  consider (stop) "ps = []" "n = 0 \<or> rs = []" | (tp) x ps' where "ps = x # ps'" "n = 0 \<or> rs = [] \<or> c x (hd rs) \<le> 0"
    | (tq) y rs' where "rs = y # rs'" "n \<noteq> 0" "ps = [] \<or> \<not> c (hd ps) y \<le> 0"
    by (cases ps; cases rs) auto
  then show ?case
  proof cases
    case stop
    then show ?thesis using less.prems psize qsize q by (subst srt_merge.simps) auto
  next
    case tp
    obtain e v' where t: "srt_take_p v = (e, v')" by fastforce
    have "srt_pick c v = Inr (e, v')"
      using tp psize qsize q p t by (cases rs) (auto simp: srt_pick_def)
    then have step: "srt_merge c v = srt_merge c (srt_link e v')" using srt_merge_step psize tp(1) by simp
    note m = merging_take_p [OF less.prems(1) [unfolded tp(1)] t]
    have "merge_list c ps (take n rs) = x # merge_list c ps' (take n rs)"
      using tp by (cases rs; cases n) auto
    moreover obtain w where "srt_merge c (srt_link e v') = Some (Inr w)"
      "merging w ((ds @ [x]) @ merge_list c ps' (take n rs)) [] (drop n rs)" "same_chains (hs_mem (srt_link e v')) (hs_mem w)"
      using less.hyps [OF _ m(1), of n] m(2) less.prems(2) tp(1) by auto
    ultimately show ?thesis using step same_chains_trans [OF m(3)] by simp
  next
    case tq
    have nz: "hs_qsize v \<noteq> 0" using qsize tq(2) by simp
    obtain e v' where t: "srt_take_q v = Inr (e, v')" using q tq(1) by (auto simp: srt_take_q_def)
    have "srt_pick c v = Inr (e, v')"
      using tq psize qsize q p t by (cases ps) (auto simp: srt_pick_def)
    then have step: "srt_merge c v = srt_merge c (srt_link e v')" using srt_merge_step nz q tq(1) by simp
    note m = merging_take_q [OF less.prems(1) [unfolded tq(1)] nz t]
    have "merge_list c ps (take n rs) = y # merge_list c ps (take (n - 1) rs')" "drop n rs = drop (n - 1) rs'"
      using tq by (cases ps; cases n; auto)+
    moreover obtain w where "srt_merge c (srt_link e v') = Some (Inr w)"
      "merging w ((ds @ [y]) @ merge_list c ps (take (n - 1) rs')) [] (drop (n - 1) rs')"
      "same_chains (hs_mem (srt_link e v')) (hs_mem w)"
    proof -
      have "length ps + length (take (n - 1) rs') < length ps + length (take n rs)" using tq(1,2) by (cases n) simp_all
      moreover have "n - 1 = unat (hs_qsize (srt_link e v'))" using m(2) less.prems(2) by simp
      ultimately show ?thesis using less.hyps [OF _ m(1), of "n - 1"] that by blast
    qed
    ultimately show ?thesis using step same_chains_trans [OF m(3)] by simp
  qed
qed

section \<open>One pass\<close>

lemma nchain_run: "nchain nx p xs \<Longrightarrow> run nx p (take n xs)"
  by (induction xs arbitrary: p n) (auto simp: take_Cons')

lemma nchain_drop: "nchain nx p xs \<Longrightarrow> nchain nx (first (drop n xs)) (drop n xs)"
proof (induction xs arbitrary: p n)
  case (Cons x xs)
  then show ?case by (cases n) auto
qed simp

lemma srt_advance_chain:
  "nchain (app_next m) (Some x) xs \<Longrightarrow>
   srt_advance m n k x = (k + of_nat (min n (length xs)), first (drop n xs))"
proof (induction n arbitrary: k x xs)
  case 0
  then show ?case by (cases xs) simp_all
next
  case (Suc n)
  then obtain ys where xs: "xs = x # ys" "nchain (app_next m) (app_next m x) ys" by (cases xs) auto
  then show ?case
    using Suc.IH [of "hd ys" ys "k + 1"] by (cases ys) (auto simp: algebra_simps)
qed

definition passing :: "srt_vars \<Rightarrow> addr list \<Rightarrow> addr list \<Rightarrow> bool" where
  "passing v ds rs \<longleftrightarrow>
     distinct (ds @ rs) \<and> links (app_next (hs_mem v)) (app_prev (hs_mem v)) None ds \<and>
     hs_list v = first ds \<and> hs_tail v = final ds \<and> nchain (app_next (hs_mem v)) (hs_p v) rs"

lemma merges_step:
  assumes "0 < n" "0 < (l :: nat)"
  shows "(l + 2 * n - 1) div (2 * n) = Suc ((l - n - n + 2 * n - 1) div (2 * n))"
proof (cases "2 * n \<le> l")
  case True
  have "(l - 1 + 2 * n) div (2 * n) = Suc ((l - 1) div (2 * n))" using div_add_self2 [of "2 * n" "l - 1"] assms(1) by simp
  moreover have "l - 1 + 2 * n = l + 2 * n - 1" "l - n - n + 2 * n - 1 = l - 1" using True assms by simp_all
  ultimately show ?thesis by simp
next
  case False
  then have "(l + 2 * n - 1) div (2 * n) = 1" using assms by (intro div_nat_eqI) simp_all
  then show ?thesis using False assms by simp
qed

lemma merges_le: "0 < n \<Longrightarrow> 0 < (l :: nat) \<Longrightarrow> (l + 2 * n - 1) div (2 * n) \<le> l"
proof (induction l rule: less_induct)
  case (less l)
  then show ?case using merges_step [OF less.prems] less.IH [of "l - n - n"] by (cases "l \<le> n + n") auto
qed

lemma srt_pass_spec:
  assumes "unat insize = n" "0 < n"
  shows "passing v ds rs \<Longrightarrow> length rs < 2 ^ 32 \<Longrightarrow>
   \<exists>v'. srt_pass c insize v k = Some (Inr (v', k + of_nat ((length rs + 2 * n - 1) div (2 * n)))) \<and>
     passing v' (ds @ pass_list c n rs) [] \<and> same_chains (hs_mem v) (hs_mem v')"
proof (induction "length rs" arbitrary: v ds rs k rule: less_induct)
  case less
  show ?case
  proof (cases rs)
    case Nil
    then show ?thesis using less.prems assms(2) by (subst srt_pass.simps) (simp add: passing_def pass_list.simps)
  next
    case (Cons x xs)
    let ?q = "first (drop n rs)" and ?psize = "of_nat (min n (length rs)) :: u32"
    let ?v = "v\<lparr>hs_q := ?q, hs_psize := ?psize, hs_qsize := insize\<rparr>"
    have p: "hs_p v = Some x" and nc: "nchain (app_next (hs_mem v)) (Some x) rs"
      using less.prems(1) Cons by (auto simp: passing_def)
    have "unat ?psize = length (take n rs)" using less.prems(2) by (simp add: unat_of_nat take_bit_nat_eq_self min.commute)
    then have "merging ?v ds (take n rs) (drop n rs)"
      using less.prems(1) nchain_run nchain_drop p nc
      by (auto simp: passing_def merging_def set_take_disj_set_drop_if_distinct dest: in_set_takeD in_set_dropD)
    then obtain v1 where v1: "srt_merge c ?v = Some (Inr v1)"
      "merging v1 (ds @ merge_list c (take n rs) (take n (drop n rs))) [] (drop n (drop n rs))"
      "same_chains (hs_mem v) (hs_mem v1)"
      using srt_merge_spec [of ?v ds "take n rs" "drop n rs" n c] assms(1) by auto
    let ?w = "v1\<lparr>hs_p := hs_q v1\<rparr>" and ?ds = "ds @ merge_list c (take n rs) (take n (drop n rs))"
    have w: "passing ?w ?ds (drop n (drop n rs))" using v1(2) by (simp add: merging_def passing_def)
    have "length (drop n (drop n rs)) < length rs" using Cons assms(2) by simp
    moreover have "length (drop n (drop n rs)) < 2 ^ 32" using less.prems(2) by simp
    ultimately obtain v' where v':
      "srt_pass c insize ?w (k + 1) = Some (Inr (v', k + 1 + of_nat ((length rs - n - n + 2 * n - 1) div (2 * n))))"
      "passing v' (?ds @ pass_list c n (drop n (drop n rs))) []" "same_chains (hs_mem ?w) (hs_mem v')"
      using less.hyps [OF _ w, of "k + 1"] by (auto simp only: length_drop append_assoc)
    have "srt_pass c insize v k = srt_pass c insize ?w (k + 1)"
      using p v1(1) srt_advance_chain [OF nc, of n 0] assms(1) by (subst srt_pass.simps) simp
    moreover have "pass_list c n rs = merge_list c (take n rs) (take n (drop n rs)) @ pass_list c n (drop n (drop n rs))"
      using Cons assms(2) pass_list.simps [of c n rs] by simp
    moreover have "same_chains (hs_mem v) (hs_mem v')" using same_chains_trans [OF v1(3)] v'(3) by simp
    ultimately show ?thesis
      using v'(1,2) merges_step [OF assms(2), of "length rs"] Cons by (simp add: algebra_simps)
  qed
qed

section \<open>The whole sort\<close>

lemma merges_le_1: "0 < n \<Longrightarrow> 0 < (l :: nat) \<Longrightarrow> (l + 2 * n - 1) div (2 * n) \<le> 1 \<longleftrightarrow> l \<le> 2 * n"
  using div_less_iff_less_mult [of "2 * n" "l + 2 * n - 1" 2] by auto

lemma srt_loop_spec:
  assumes "0 < n" "n < 2 ^ 32" "xs \<noteq> []" "distinct xs" "length xs < 2 ^ 32"
    and "nchain (app_next (ut_mem s)) p xs"
  shows "\<exists>s'. srt_loop c (of_nat n) p s = Some (Inr s') \<and>
    dll (app_next (ut_mem s')) (app_prev (ut_mem s')) None (ut_head s') (sort_list c n xs) \<and>
    same_chains (ut_mem s) (ut_mem s') \<and> ut_tbl s' = (ut_tbl s)\<lparr>ut_tail := final (sort_list c n xs)\<rparr>"
  using assms
proof (induction "length xs - n" arbitrary: n p xs s rule: less_induct)
  case less
  let ?N = "(length xs + 2 * n - 1) div (2 * n)"
  have un: "unat (of_nat n :: u32) = n" using less.prems(2) by (simp add: unat_of_nat take_bit_nat_eq_self)
  have "passing (srt_start p (ut_mem s)) [] xs" using less.prems(4,6) by (simp add: passing_def srt_start_def)
  then obtain v where v: "srt_pass c (of_nat n) (srt_start p (ut_mem s)) 0 = Some (Inr (v, of_nat ?N))"
    "passing v (pass_list c n xs) []" "same_chains (ut_mem s) (hs_mem v)"
    using srt_pass_spec [OF un less.prems(1), of "srt_start p (ut_mem s)" "[]" xs c 0] less.prems(5)
    by (auto simp: srt_start_def)
  let ?ys = "pass_list c n xs"
  have ms: "mset ?ys = mset xs" using mset_pass_list [OF less.prems(1)] .
  have ys: "?ys \<noteq> []" "distinct ?ys" "length ?ys = length xs"
    using ms less.prems(3,4) mset_eq_length [OF ms] mset_eq_imp_distinct_iff [OF ms] by auto
  let ?m = "(hs_mem v)\<lparr>app_next := (app_next (hs_mem v))(last ?ys := None)\<rparr>"
  have d: "dll (app_next ?m) (app_prev ?m) None (first ?ys) ?ys" and l: "hs_list v = first ?ys" "hs_tail v = Some (last ?ys)"
    using v(2) ys links_dll by (auto simp: passing_def final_def)
  have sc: "same_chains (ut_mem s) ?m" using v(3) by (simp add: same_chains_def)
  have "?N \<le> length xs" using less.prems(1,3) by (intro merges_le) auto
  then have "(of_nat ?N :: u32) \<le> 1 \<longleftrightarrow> ?N \<le> 1"
    using less.prems(5) by (simp add: word_le_nat_alt unat_of_nat take_bit_nat_eq_self)
  then have N: "(of_nat ?N :: u32) \<le> 1 \<longleftrightarrow> length xs \<le> 2 * n" using merges_le_1 [OF less.prems(1)] less.prems(3) by simp
  show ?case
  proof (cases "length xs \<le> 2 * n")
    case True
    then have "sort_list c n xs = ?ys" by (subst sort_list.simps) simp
    then show ?thesis
      using v(1) N True l d sc ys(1) by (subst srt_loop.simps) (simp add: Let_def final_def)
  next
    case False
    have so: "sort_list c n xs = sort_list c (2 * n) ?ys" using False less.prems(1) by (subst sort_list.simps) simp
    have "srt_loop c (of_nat n) p s = srt_loop c (of_nat (2 * n)) (first ?ys) (s\<lparr>ut_mem := ?m\<rparr>)"
      using v(1) N False l by (subst srt_loop.simps) (simp add: Let_def mult.commute)
    moreover have "nchain (app_next (ut_mem (s\<lparr>ut_mem := ?m\<rparr>))) (first ?ys) ?ys" using dll_nchain [OF d] by simp
    moreover have "length ?ys - 2 * n < length xs - n" "0 < 2 * n" "2 * n < 2 ^ 32" "length ?ys < 2 ^ 32"
      using False less.prems(1,5) ys(3) by simp_all
    ultimately obtain s' where "srt_loop c (of_nat n) p s = Some (Inr s')"
      "dll (app_next (ut_mem s')) (app_prev (ut_mem s')) None (ut_head s') (sort_list c n xs)"
      "same_chains ?m (ut_mem s')" "ut_tbl s' = (ut_tbl s)\<lparr>ut_tail := final (sort_list c n xs)\<rparr>"
      using less.hyps [of ?ys "2 * n" "s\<lparr>ut_mem := ?m\<rparr>" "first ?ys"] ys(1,2) unfolding so by auto
    then show ?thesis using same_chains_trans [OF sc] by blast
  qed
qed

lemma HASH_SRT_rep:
  assumes rep: "ut_rep s xs"
  shows "\<exists>s' l. HASH_SRT c s = Some (Inr s') \<and> ut_rep s' (sort_list c 1 xs) \<and> same_chains (ut_mem s) (ut_mem s') \<and>
    ut_tbl s' = (ut_tbl s)\<lparr>ut_tail := l\<rparr>"
proof (cases "xs = []")
  case True
  then show ?thesis
    using rep by (intro exI [of _ s] exI [of _ "ut_tail (ut_tbl s)"]) (simp add: HASH_SRT_def sort_list.simps pass_list.simps)
next
  case False
  let ?ys = "sort_list c 1 xs"
  have r: "distinct xs" "length xs < 2 ^ 32" "dll (app_next (ut_mem s)) (app_prev (ut_mem s)) None (ut_head s) xs"
    "keys_ok (ut_mem s) xs" "num_items (ut_tbl s) = of_nat (length xs)" "tbl_rep (ut_mem s) (ut_tbl s) (set xs)"
    using rep False by (auto simp: ut_rep_def)
  have ms: "mset ?ys = mset xs" by (simp add: mset_sort_list)
  have ys: "set ?ys = set xs" "length ?ys = length xs" "distinct ?ys" "?ys \<noteq> []"
    using mset_eq_setD [OF ms] mset_eq_length [OF ms] mset_eq_imp_distinct_iff [OF ms] r(1) ms False by auto
  have h: "ut_head s = first xs" using dll_head [OF r(3)] by (simp add: first_def)
  obtain s' where s': "srt_loop c (of_nat 1) (first xs) s = Some (Inr s')"
    "dll (app_next (ut_mem s')) (app_prev (ut_mem s')) None (ut_head s') ?ys"
    "same_chains (ut_mem s) (ut_mem s')" "ut_tbl s' = (ut_tbl s)\<lparr>ut_tail := final ?ys\<rparr>"
    using srt_loop_spec [of 1 xs s "first xs" c] dll_nchain [OF r(3)] h r(1,2) False by auto
  have "tbl_rep (ut_mem s') (ut_tbl s') (set xs)"
    using r(6) s'(3,4) tbl_rep_cong [of "ut_mem s'" "ut_mem s" "set xs" "ut_tbl s'" "ut_tbl s"] by (simp add: same_chains_def)
  then have "ut_rep s' ?ys"
    using r(2,4,5) s'(2-4) ys by (auto simp: ut_rep_def keys_ok_def same_chains_def final_def)
  then show ?thesis using s'(1,3,4) h False by (cases xs) (auto simp: HASH_SRT_def)
qed

text \<open>A search only looks at the chains.\<close>

lemma HASH_FIND_same_chains:
  assumes rep: "ut_rep s xs" "ut_rep s' ys" and len: "length ys = length xs" and sc: "same_chains (ut_mem s) (ut_mem s')"
    and t: "ut_tbl s' = (ut_tbl s)\<lparr>ut_tail := l\<rparr>"
  shows "HASH_FIND key s' = HASH_FIND key s"
proof (cases "xs = []")
  case True
  then show ?thesis using rep len by (simp add: HASH_FIND_def)
next
  case False
  let ?b = "unat (HASH_TO_BKT (HASH_JEN key) (num_buckets (ut_tbl s)))"
  have tr: "tbl_rep (ut_mem s) (ut_tbl s) (set xs)" using rep(1) False by (auto simp: ut_rep_def)
  have b: "?b < length (ut_buckets (ut_tbl s))" using tbl_rep_bkt [OF tr] .
  obtain zs where d: "dll (hh_next (ut_mem s)) (hh_prev (ut_mem s)) None (bkt_head (ut_buckets (ut_tbl s) ! ?b)) zs"
    using bucket_chain [OF tr b] by blast
  note c = find_in_bkt_chain [OF dll_nchain [OF d], of key]
  have "key_match (ut_mem s') key = key_match (ut_mem s) key" using sc by (auto simp: fun_eq_iff key_match_def same_chains_def)
  moreover have "nchain (hh_next (ut_mem s')) (bkt_head (ut_buckets (ut_tbl s) ! ?b)) zs"
    using dll_nchain [OF d] sc by (simp add: same_chains_def)
  ultimately have "find_in_bkt (ut_mem s') key (of_nat (length key)) (HASH_JEN key) (bkt_head (ut_buckets (ut_tbl s) ! ?b)) =
      find_in_bkt (ut_mem s) key (of_nat (length key)) (HASH_JEN key) (bkt_head (ut_buckets (ut_tbl s) ! ?b))"
    using find_in_bkt_chain [of "ut_mem s'" _ zs key] c by simp
  moreover have "ut_head s \<noteq> None" "ut_head s' \<noteq> None"
    using ut_rep_head [OF rep(1)] ut_rep_head [OF rep(2)] False len by (cases xs; cases ys; simp)+
  ultimately show ?thesis using b t by (auto simp: HASH_FIND_def HASH_FIND_BYHASHVALUE_def Let_def)
qed

section \<open>Property\<close>

text \<open>
  C12. \<open>HASH_SORT\<close> of \<open>uthash.h\<close> sorts in place: on a table that holds \<^term>\<open>xs\<close> and for any comparison function the
  merge sort on the linked list ends without touching a null pointer and leaves a well-formed table with the same elements and
  keys, in which every search answers as before; and when the comparison orders the elements by a key, the new order
  is the stable sort of the old one by that key.
\<close>

theorem uthash_sort_stable:
  assumes "ut_rep s xs"
  shows "\<exists>s' ys. HASH_SRT cmpfcn s = Some (Inr s') \<and> ut_rep s' ys \<and> mset ys = mset xs \<and>
    hh_key (ut_mem s') = hh_key (ut_mem s) \<and> (\<forall>key. HASH_FIND key s' = HASH_FIND key s) \<and>
    (cmp_by (set xs) k cmpfcn \<longrightarrow> ys = sort_key k xs)"
proof -
  let ?ys = "sort_list cmpfcn 1 xs"
  obtain s' l where s': "HASH_SRT cmpfcn s = Some (Inr s')" "ut_rep s' ?ys" "same_chains (ut_mem s) (ut_mem s')"
    "ut_tbl s' = (ut_tbl s)\<lparr>ut_tail := l\<rparr>"
    using HASH_SRT_rep [OF assms] by blast
  have "mset ?ys = mset xs" by (simp add: mset_sort_list)
  moreover have "HASH_FIND key s' = HASH_FIND key s" for key
    by (rule HASH_FIND_same_chains [OF assms s'(2) mset_eq_length [OF calculation] s'(3,4)])
  moreover have "hh_key (ut_mem s') = hh_key (ut_mem s)" using s'(3) by (simp add: same_chains_def)
  ultimately show ?thesis using s'(1,2) sort_list_key [of xs k cmpfcn] by blast
qed

theorem uthash_sort_stable_witness:
  "\<exists>s s' t. HASH_ADD small_malloc (lit ''b'') 7 ut_empty = Some (Inr s) \<and> HASH_ADD small_malloc (lit ''a'') 3 s = Some (Inr s') \<and>
     HASH_SRT (\<lambda>x y. int x - int y) s' = Some (Inr t) \<and> ut_rep t [3, 7]"
proof -
  obtain s s' where s: "HASH_ADD small_malloc (lit ''b'') 7 ut_empty = Some (Inr s)"
    "HASH_ADD small_malloc (lit ''a'') 3 s = Some (Inr s')" "ut_rep s' [7, 3]"
    by (rule ut_two [of "lit ''b''" "lit ''a''" 7 3]) (simp_all add: lit_def)
  have "cmp_by (set [7, 3]) (\<lambda>x. x) (\<lambda>x y. int x - int y)" by (simp add: cmp_by_def)
  then obtain t where "HASH_SRT (\<lambda>x y. int x - int y) s' = Some (Inr t)" "ut_rep t (sort_key (\<lambda>x. x) [7, 3])"
    using uthash_sort_stable [OF s(3), of "\<lambda>x y. int x - int y" "\<lambda>x. x"] by blast
  then show ?thesis using s(1,2) by auto
qed

end
