(* ===== verification/UthashOrder.thy ===== *)
theory UthashOrder
  imports UthashSort
begin

text \<open>
  The ordered insertion and the replacing insertion of \<open>src/utils/uthash.h\<close>: \<open>HASH_ADD_INORDER\<close> puts the new element in
  front of the first one that compares greater, \<open>HASH_REPLACE\<close> deletes the element that has the key before it adds.  Both end
  in the code that the plain insertion uses, so that their proofs share \<open>HASH_ADD_from\<close> with it.
\<close>

section \<open>The macros\<close>

text \<open>\<open>HASH_AKBI_INNER_LOOP\<close>: the first element from \<^term>\<open>iter\<close> on that compares greater than the new one.\<close>

partial_function (option) akbi_loop :: "(addr \<Rightarrow> addr \<Rightarrow> int) \<Rightarrow> ut_heap \<Rightarrow> addr \<Rightarrow> addr \<Rightarrow> addr option option" where [code]:
  "akbi_loop cmpfcn m add iter =
     (if cmpfcn iter add > 0 then Some (Some iter)
      else (case app_next m iter of None \<Rightarrow> Some None | Some y \<Rightarrow> akbi_loop cmpfcn m add y))"

definition link_before :: "addr \<Rightarrow> addr \<Rightarrow> ut_state \<Rightarrow> ut_state" where
  "link_before iter add s =
     (let m = ut_mem s;
          m1 = m\<lparr>app_next := (app_next m)(add := Some iter)\<rparr>;
          m2 = m1\<lparr>app_prev := (app_prev m1)(add := app_prev m1 iter)\<rparr>;
          (m3, head) = (case app_prev m2 add of
              Some y \<Rightarrow> (m2\<lparr>app_next := (app_next m2)(y := Some add)\<rparr>, ut_head s)
            | None \<Rightarrow> (m2, Some add));
          m4 = m3\<lparr>app_prev := (app_prev m3)(iter := Some add)\<rparr>
      in s\<lparr>ut_mem := m4, ut_head := head\<rparr>)"

definition HASH_ADD_KEYPTR_BYHASHVALUE_INORDER ::
  "(size_t \<Rightarrow> bool) \<Rightarrow> (addr \<Rightarrow> addr \<Rightarrow> int) \<Rightarrow> bytes \<Rightarrow> u32 \<Rightarrow> u32 \<Rightarrow> addr \<Rightarrow> ut_state \<Rightarrow> ut_state ut" where
  "HASH_ADD_KEYPTR_BYHASHVALUE_INORDER malloc cmpfcn key keylen hashval add s =
     (let m = ut_mem s;
          m1 = m\<lparr>hh_hashv := (hh_hashv m)(add := hashval), hh_key := (hh_key m)(add := key),
                 hh_keylen := (hh_keylen m)(add := keylen)\<rparr>;
          s1 = s\<lparr>ut_mem := m1\<rparr>
      in bindU
           (case ut_head s1 of
              None \<Rightarrow>
                (let m2 = m1\<lparr>app_next := (app_next m1)(add := None), app_prev := (app_prev m1)(add := None)\<rparr> in
                 bindU (HASH_MAKE_TABLE malloc add) (\<lambda>t.
                   Some (Inr (s1\<lparr>ut_mem := m2, ut_tbl := t, ut_head := Some add\<rparr>))))
            | Some h \<Rightarrow>
                (case akbi_loop cmpfcn m1 add h of
                   None \<Rightarrow> None
                 | Some (Some iter) \<Rightarrow> Some (Inr (link_before iter add s1))
                 | Some None \<Rightarrow> HASH_APPEND_LIST add s1))
           (HASH_ADD_TO_TABLE malloc hashval add))"

definition HASH_ADD_INORDER ::
  "(size_t \<Rightarrow> bool) \<Rightarrow> (addr \<Rightarrow> addr \<Rightarrow> int) \<Rightarrow> bytes \<Rightarrow> addr \<Rightarrow> ut_state \<Rightarrow> ut_state ut" where
  "HASH_ADD_INORDER malloc cmpfcn key add s =
     HASH_ADD_KEYPTR_BYHASHVALUE_INORDER malloc cmpfcn key (of_nat (length key)) (HASH_JEN key) add s"

text \<open>The result of a replacing insertion is the element that was replaced, with the state.\<close>

definition delete_replaced :: "addr option \<Rightarrow> ut_state \<Rightarrow> ut_state ut" where
  "delete_replaced replaced s = (case replaced of None \<Rightarrow> Some (Inr s) | Some r \<Rightarrow> HASH_DELETE_HH r s)"

definition HASH_REPLACE_BYHASHVALUE ::
  "(size_t \<Rightarrow> bool) \<Rightarrow> bytes \<Rightarrow> u32 \<Rightarrow> u32 \<Rightarrow> addr \<Rightarrow> ut_state \<Rightarrow> (addr option \<times> ut_state) ut" where
  "HASH_REPLACE_BYHASHVALUE malloc key keylen hashval add s =
     bindU (HASH_FIND_BYHASHVALUE key keylen hashval s) (\<lambda>replaced.
     bindU (delete_replaced replaced s) (\<lambda>s1.
     bindU (HASH_ADD_KEYPTR_BYHASHVALUE malloc key keylen hashval add s1) (\<lambda>s2.
       Some (Inr (replaced, s2)))))"

definition HASH_REPLACE ::
  "(size_t \<Rightarrow> bool) \<Rightarrow> bytes \<Rightarrow> addr \<Rightarrow> ut_state \<Rightarrow> (addr option \<times> ut_state) ut" where
  "HASH_REPLACE malloc key add s =
     HASH_REPLACE_BYHASHVALUE malloc key (of_nat (length key)) (HASH_JEN key) add s"

definition HASH_REPLACE_BYHASHVALUE_INORDER ::
  "(size_t \<Rightarrow> bool) \<Rightarrow> (addr \<Rightarrow> addr \<Rightarrow> int) \<Rightarrow> bytes \<Rightarrow> u32 \<Rightarrow> u32 \<Rightarrow> addr \<Rightarrow> ut_state \<Rightarrow> (addr option \<times> ut_state) ut" where
  "HASH_REPLACE_BYHASHVALUE_INORDER malloc cmpfcn key keylen hashval add s =
     bindU (HASH_FIND_BYHASHVALUE key keylen hashval s) (\<lambda>replaced.
     bindU (delete_replaced replaced s) (\<lambda>s1.
     bindU (HASH_ADD_KEYPTR_BYHASHVALUE_INORDER malloc cmpfcn key keylen hashval add s1) (\<lambda>s2.
       Some (Inr (replaced, s2)))))"

definition HASH_REPLACE_INORDER ::
  "(size_t \<Rightarrow> bool) \<Rightarrow> (addr \<Rightarrow> addr \<Rightarrow> int) \<Rightarrow> bytes \<Rightarrow> addr \<Rightarrow> ut_state \<Rightarrow> (addr option \<times> ut_state) ut" where
  "HASH_REPLACE_INORDER malloc cmpfcn key add s =
     HASH_REPLACE_BYHASHVALUE_INORDER malloc cmpfcn key (of_nat (length key)) (HASH_JEN key) add s"

section \<open>Inserting into a doubly linked list\<close>

definition ins_list :: "(addr \<Rightarrow> addr \<Rightarrow> int) \<Rightarrow> addr \<Rightarrow> addr list \<Rightarrow> addr list" where
  "ins_list cmpfcn a xs = takeWhile (\<lambda>x. cmpfcn x a \<le> 0) xs @ a # dropWhile (\<lambda>x. cmpfcn x a \<le> 0) xs"

lemma ins_list_simps [simp]:
  "set (ins_list c a xs) = insert a (set xs)" "length (ins_list c a xs) = length xs + 1"
  "distinct (ins_list c a xs) \<longleftrightarrow> distinct xs \<and> a \<notin> set xs"
proof -
  let ?P = "\<lambda>x. c x a \<le> 0"
  have m: "mset (ins_list c a xs) = mset (a # xs)"
    using arg_cong [OF takeWhile_dropWhile_id [of ?P xs], of mset] unfolding mset_append by (simp add: ins_list_def)
  show "set (ins_list c a xs) = insert a (set xs)" "length (ins_list c a xs) = length xs + 1"
    "distinct (ins_list c a xs) \<longleftrightarrow> distinct xs \<and> a \<notin> set xs"
    using mset_eq_setD [OF m] mset_eq_length [OF m] mset_eq_imp_distinct_iff [OF m] by auto
qed

text \<open>Ordered insertion keeps a sorted list sorted, the new element behind the ones with the same key.\<close>

lemma ins_list_sort_key:
  assumes "cmp_by (insert a (set xs)) k c" "sorted (map k xs)"
  shows "ins_list c a xs = sort_key k (xs @ [a])"
proof -
  have "ins_list c a xs = merge_list c xs [a]"
  proof (induction xs)
    case (Cons x xs)
    then show ?case by (simp add: ins_list_def)
  qed (simp add: ins_list_def)
  also have "\<dots> = merge_list c (sort_key k xs) (sort_key k [a])"
    using assms(2) by (simp add: sorted_sort_id sort_key_id_if_sorted)
  finally show ?thesis using assms(1) merge_sort_key [of xs "[a]" k c] by simp
qed

lemma dll_insert:
  assumes "dll nx pv q p (xs @ y # ys)" "distinct (xs @ y # ys)" "a \<notin> set (xs @ y # ys)"
    and "\<And>z. q = Some z \<Longrightarrow> z \<notin> insert a (set (xs @ y # ys))"
  defines "nx' \<equiv> (case pv y of None \<Rightarrow> nx(a := Some y) | Some z \<Rightarrow> (nx(a := Some y))(z := Some a))"
    and "pv' \<equiv> (pv(a := pv y))(y := Some a)"
  shows "dll nx' pv' q (if xs = [] then Some a else p) (xs @ a # y # ys)"
  using assms(1-4)
proof (induction xs arbitrary: q p)
  case Nil
  have "dll nx' pv' (Some y) (nx y) ys = dll nx pv (Some y) (nx y) ys"
    using Nil by (intro dll_cong) (auto simp: nx'_def pv'_def split: option.split)
  moreover have "nx' a = Some y" "nx' y = nx y" "pv' a = q" "pv' y = Some a"
    using Nil by (auto simp: nx'_def pv'_def split: option.split)
  ultimately show ?case using Nil.prems(1) by simp
next
  case (Cons x xs)
  have x: "p = Some x" "pv x = q" "dll nx pv (Some x) (nx x) (xs @ y # ys)" "x \<notin> insert a (set (xs @ y # ys))"
    using Cons.prems by auto
  have "nx' x = (if xs = [] then Some a else nx x)"
  proof (cases "xs = []")
    case True
    then show ?thesis using x by (simp add: nx'_def)
  next
    case False
    then have "nx x \<noteq> Some y" using x(3) Cons.prems(2) by (cases xs) auto
    then obtain z where "z \<in> set (xs @ y # ys)" "pv y = Some z" using dll_prev_in [OF x(3), of y] by auto
    then show ?thesis using x(4) False by (auto simp: nx'_def)
  qed
  moreover have "pv' x = pv x" using x(4) by (simp add: pv'_def)
  moreover have "dll nx' pv' (Some x) (if xs = [] then Some a else nx x) (xs @ a # y # ys)"
    using Cons.IH [OF x(3)] Cons.prems x(4) by simp
  ultimately show ?case using x(1,2) by simp
qed

lemma akbi_loop_chain:
  "nchain (app_next m) (Some x) xs \<Longrightarrow> akbi_loop c m a x = Some (first (dropWhile (\<lambda>x. c x a \<le> 0) xs))"
proof (induction xs arbitrary: x)
  case (Cons y xs)
  then have y: "x = y" "nchain (app_next m) (app_next m y) xs" by auto
  show ?case
  proof (cases "c y a \<le> 0")
    case True
    then show ?thesis using Cons.IH y by (subst akbi_loop.simps) (cases xs; auto)
  next
    case False
    then show ?thesis using y(1) by (subst akbi_loop.simps) simp
  qed
qed simp

section \<open>Ordered insertion\<close>

lemma link_before_eq:
  assumes "iter \<noteq> add" "app_prev (ut_mem s) iter \<noteq> Some add"
  shows "link_before iter add s =
    s\<lparr>ut_mem := (ut_mem s)
        \<lparr>app_next := (case app_prev (ut_mem s) iter of None \<Rightarrow> (app_next (ut_mem s))(add := Some iter)
            | Some z \<Rightarrow> ((app_next (ut_mem s))(add := Some iter))(z := Some add)),
         app_prev := ((app_prev (ut_mem s))(add := app_prev (ut_mem s) iter))(iter := Some add)\<rparr>,
      ut_head := (if app_prev (ut_mem s) iter = None then Some add else ut_head s)\<rparr>"
  using assms by (auto simp: link_before_def Let_def split: option.split)

text \<open>The insertion into a non-empty table: either before the first greater element or at the end.\<close>

lemma link_before_state:
  assumes "dll (app_next (ut_mem s)) (app_prev (ut_mem s)) None (ut_head s) (ts @ y # ys)" "distinct (ts @ y # ys)"
    and "a \<notin> set (ts @ y # ys)"
  shows "link_before y a s =
    s\<lparr>ut_mem := (ut_mem s)\<lparr>app_next := (case app_prev (ut_mem s) y of None \<Rightarrow> (app_next (ut_mem s))(a := Some y)
          | Some z \<Rightarrow> ((app_next (ut_mem s))(a := Some y))(z := Some a)),
        app_prev := ((app_prev (ut_mem s))(a := app_prev (ut_mem s) y))(y := Some a)\<rparr>,
      ut_head := (if ts = [] then Some a else ut_head s)\<rparr>"
proof -
  let ?m = "ut_mem s"
  have ya: "y \<noteq> a" using assms(3) by auto
  have y: "y \<in> set (ts @ y # ys)" by simp
  have pa: "app_prev ?m y \<noteq> Some a"
  proof
    assume p: "app_prev ?m y = Some a"
    have "ut_head s \<noteq> Some y" using conjunct1 [OF dll_prev_in [OF assms(1) y]] p by auto
    then obtain z where "z \<in> set (ts @ y # ys)" "app_prev ?m y = Some z" using dll_prev_in [OF assms(1) y] by blast
    then show False using assms(3) p by simp
  qed
  have "app_prev ?m y = None \<longleftrightarrow> ts = []"
    using dll_prev_in [OF assms(1), of y] dll_head [OF assms(1)] assms(2) by (cases ts) auto
  then show ?thesis using link_before_eq [of y a s] ya pa by (cases "app_prev ?m y") simp_all
qed

lemma HASH_ADD_INORDER_link:
  assumes rep: "ut_rep s xs" and ne: "xs \<noteq> []" and a: "a \<notin> set xs"
  obtains s1 where "HASH_ADD_INORDER malloc c key a s = HASH_ADD_TO_TABLE malloc (HASH_JEN key) a s1"
    "dll (app_next (ut_mem s1)) (app_prev (ut_mem s1)) None (ut_head s1) (ins_list c a xs)"
    "ut_tbl s1 = (ut_tbl s)\<lparr>ut_tail := Some (last (ins_list c a xs))\<rparr>"
    "hh_hashv (ut_mem s1) = (hh_hashv (ut_mem s))(a := HASH_JEN key)" "hh_key (ut_mem s1) = (hh_key (ut_mem s))(a := key)"
    "hh_keylen (ut_mem s1) = (hh_keylen (ut_mem s))(a := of_nat (length key))"
    "hh_next (ut_mem s1) = hh_next (ut_mem s)" "hh_prev (ut_mem s1) = hh_prev (ut_mem s)"
proof -
  define m where "m = (ut_mem s)\<lparr>hh_hashv := (hh_hashv (ut_mem s))(a := HASH_JEN key),
      hh_key := (hh_key (ut_mem s))(a := key), hh_keylen := (hh_keylen (ut_mem s))(a := of_nat (length key))\<rparr>"
  define ts where "ts = takeWhile (\<lambda>x. c x a \<le> 0) xs"
  define ds where "ds = dropWhile (\<lambda>x. c x a \<le> 0) xs"
  have xs: "xs = ts @ ds" "ins_list c a xs = ts @ a # ds" by (simp_all add: ts_def ds_def ins_list_def)
  have r: "distinct xs" "dll (app_next m) (app_prev m) None (ut_head s) xs" "ut_tail (ut_tbl s) = Some (last xs)"
    using rep ne by (simp_all add: ut_rep_def m_def)
  obtain h where h: "ut_head s = Some h" using ut_rep_head [OF rep] ne by (cases xs) auto
  have lp: "akbi_loop c m a h = Some (first ds)"
    unfolding ds_def by (rule akbi_loop_chain) (use dll_nchain [OF r(2)] h in simp)
  show ?thesis
  proof (cases ds)
    case Nil
    let ?s1 = "s\<lparr>ut_mem := m\<lparr>app_prev := (app_prev m)(a := Some (last xs)), app_next := ((app_next m)(a := None))(last xs := Some a)\<rparr>,
      ut_tbl := (ut_tbl s)\<lparr>ut_tail := Some a\<rparr>\<rparr>"
    have "HASH_ADD_INORDER malloc c key a s = HASH_ADD_TO_TABLE malloc (HASH_JEN key) a ?s1"
      using h lp Nil r(3)
      by (simp add: HASH_ADD_INORDER_def HASH_ADD_KEYPTR_BYHASHVALUE_INORDER_def HASH_APPEND_LIST_def Let_def flip: m_def)
    then show ?thesis
      by (rule that) (use dll_append [OF r(2,1) ne a] xs Nil in \<open>simp_all add: m_def\<close>)
  next
    case (Cons y ys)
    have d: "dll (app_next m) (app_prev m) None (ut_head s) (ts @ y # ys)" "distinct (ts @ y # ys)" "a \<notin> set (ts @ y # ys)"
      using r(1,2) a xs(1) Cons by auto
    let ?s1 = "link_before y a (s\<lparr>ut_mem := m\<rparr>)"
    have eq: "?s1 = s\<lparr>ut_mem := m\<lparr>app_next := (case app_prev m y of None \<Rightarrow> (app_next m)(a := Some y)
              | Some z \<Rightarrow> ((app_next m)(a := Some y))(z := Some a)),
            app_prev := ((app_prev m)(a := app_prev m y))(y := Some a)\<rparr>,
        ut_head := (if ts = [] then Some a else ut_head s)\<rparr>"
      using link_before_state [of "s\<lparr>ut_mem := m\<rparr>" ts y ys a] d by (cases "app_prev m y") simp_all
    have "HASH_ADD_INORDER malloc c key a s = HASH_ADD_TO_TABLE malloc (HASH_JEN key) a ?s1"
      using h lp Cons
      by (simp add: HASH_ADD_INORDER_def HASH_ADD_KEYPTR_BYHASHVALUE_INORDER_def Let_def flip: m_def)
    moreover have "dll (app_next (ut_mem ?s1)) (app_prev (ut_mem ?s1)) None (ut_head ?s1) (ins_list c a xs)"
      using dll_insert [OF d] xs(2) Cons unfolding eq by simp
    moreover have "ut_tbl ?s1 = (ut_tbl s)\<lparr>ut_tail := Some (last (ins_list c a xs))\<rparr>"
      unfolding eq using r(3) xs Cons by simp
    ultimately show ?thesis by (rule that) (simp_all add: eq, simp_all add: m_def)
  qed
qed

lemma HASH_ADD_INORDER_rep:
  assumes rep: "ut_rep s xs" and a: "a \<notin> set xs" and key: "length key < 2 ^ 32" "length xs + 1 < 2 ^ 32"
    and mb: "malloc_bounded malloc"
  shows "HASH_ADD_INORDER malloc c key a s = Some (Inl Exit_oom) \<or>
    (\<exists>s'. HASH_ADD_INORDER malloc c key a s = Some (Inr s') \<and> ut_rep s' (ins_list c a xs) \<and>
       hh_key (ut_mem s') = (hh_key (ut_mem s))(a := key))"
proof (cases "xs = []")
  case True
  then have "HASH_ADD_INORDER malloc c key a s = HASH_ADD malloc key a s"
    using rep by (simp add: HASH_ADD_INORDER_def HASH_ADD_def HASH_ADD_KEYPTR_BYHASHVALUE_INORDER_def
        HASH_ADD_KEYPTR_BYHASHVALUE_def Let_def)
  then show ?thesis using HASH_ADD_rep [OF rep a key mb] True by (simp add: ins_list_def)
next
  case False
  obtain s1 where s1: "HASH_ADD_INORDER malloc c key a s = HASH_ADD_TO_TABLE malloc (HASH_JEN key) a s1"
    "dll (app_next (ut_mem s1)) (app_prev (ut_mem s1)) None (ut_head s1) (ins_list c a xs)"
    "ut_tbl s1 = (ut_tbl s)\<lparr>ut_tail := Some (last (ins_list c a xs))\<rparr>"
    "hh_hashv (ut_mem s1) = (hh_hashv (ut_mem s))(a := HASH_JEN key)" "hh_key (ut_mem s1) = (hh_key (ut_mem s))(a := key)"
    "hh_keylen (ut_mem s1) = (hh_keylen (ut_mem s))(a := of_nat (length key))"
    "hh_next (ut_mem s1) = hh_next (ut_mem s)" "hh_prev (ut_mem s1) = hh_prev (ut_mem s)"
    by (rule HASH_ADD_INORDER_link [OF rep False a])
  have t: "tbl_rep (ut_mem s) (ut_tbl s) (set xs)" "num_items (ut_tbl s) = of_nat (length xs)" "distinct xs"
    using rep False by (auto simp: ut_rep_def)
  have "hh_hashv (ut_mem s1) x = hh_hashv (ut_mem s) x" if "x \<in> set xs" for x using that a s1(4) by auto
  then have "tbl_rep (ut_mem s1) (ut_tbl s1) (set xs)"
    using t(1) tbl_rep_cong [of "ut_mem s1" "ut_mem s" "set xs" "ut_tbl s1" "ut_tbl s"] s1(3,7,8) by simp
  then show ?thesis unfolding s1(1)
    by (intro HASH_ADD_from [OF rep _ _ _ key mb s1(4-6) s1(2)]) (use a t s1(3) in simp_all)
qed

section \<open>Replacing insertion\<close>

lemma HASH_FIND_BY: "ut_rep s xs \<Longrightarrow> HASH_FIND_BYHASHVALUE key (of_nat (length key)) (HASH_JEN key) s = HASH_FIND key s"
  by (simp add: HASH_FIND_def HASH_FIND_BYHASHVALUE_def split: option.split)

text \<open>The list without the element that is replaced.\<close>

definition without :: "addr option \<Rightarrow> addr list \<Rightarrow> addr list" where
  "without r xs = (case r of None \<Rightarrow> xs | Some x \<Rightarrow> remove1 x xs)"

lemma delete_replaced_rep:
  assumes "ut_rep s xs" "length key < 2 ^ 32"
  obtains r s1 where "HASH_FIND key s = Some (Inr r)" "delete_replaced r s = Some (Inr s1)" "ut_rep s1 (without r xs)"
    "hh_key (ut_mem s1) = hh_key (ut_mem s)" "length (without r xs) \<le> length xs" "set (without r xs) \<subseteq> set xs"
    "case r of None \<Rightarrow> \<forall>x\<in>set xs. hh_key (ut_mem s) x \<noteq> key | Some x \<Rightarrow> x \<in> set xs \<and> hh_key (ut_mem s) x = key"
proof -
  obtain r where r: "HASH_FIND key s = Some (Inr r)"
    "case r of None \<Rightarrow> \<forall>x\<in>set xs. hh_key (ut_mem s) x \<noteq> key | Some x \<Rightarrow> x \<in> set xs \<and> hh_key (ut_mem s) x = key"
    using HASH_FIND_rep [OF assms] by blast
  have "\<exists>s1. delete_replaced r s = Some (Inr s1) \<and> ut_rep s1 (without r xs) \<and> hh_key (ut_mem s1) = hh_key (ut_mem s)"
    using r(2) assms(1) HASH_DELETE_rep [OF assms(1)]
    by (cases r) (auto simp: delete_replaced_def without_def)
  moreover have "length (without r xs) \<le> length xs" "set (without r xs) \<subseteq> set xs"
    by (auto simp: without_def length_remove1 set_remove1_subset split: option.split dest: notin_set_remove1)
  ultimately show ?thesis using that r by blast
qed

lemma HASH_REPLACE_rep:
  assumes rep: "ut_rep s xs" and a: "a \<notin> set xs" and key: "length key < 2 ^ 32" "length xs + 1 < 2 ^ 32"
    and mb: "malloc_bounded malloc"
  shows "\<exists>r. HASH_FIND key s = Some (Inr r) \<and>
    (HASH_REPLACE malloc key a s = Some (Inl Exit_oom) \<or>
     (\<exists>s'. HASH_REPLACE malloc key a s = Some (Inr (r, s')) \<and> ut_rep s' (without r xs @ [a]) \<and>
        hh_key (ut_mem s') = (hh_key (ut_mem s))(a := key))) \<and>
    (HASH_REPLACE_INORDER malloc c key a s = Some (Inl Exit_oom) \<or>
     (\<exists>s'. HASH_REPLACE_INORDER malloc c key a s = Some (Inr (r, s')) \<and> ut_rep s' (ins_list c a (without r xs)) \<and>
        hh_key (ut_mem s') = (hh_key (ut_mem s))(a := key)))"
proof -
  obtain r s1 where r: "HASH_FIND key s = Some (Inr r)" "delete_replaced r s = Some (Inr s1)" "ut_rep s1 (without r xs)"
    "hh_key (ut_mem s1) = hh_key (ut_mem s)" "length (without r xs) \<le> length xs" "set (without r xs) \<subseteq> set xs"
    by (rule delete_replaced_rep [OF rep key(1)])
  have a': "a \<notin> set (without r xs)" "length (without r xs) + 1 < 2 ^ 32" using a key(2) r(5,6) by auto
  have f: "HASH_FIND_BYHASHVALUE key (of_nat (length key)) (HASH_JEN key) s = Some (Inr r)"
    using HASH_FIND_BY [OF rep] r(1) by simp
  show ?thesis
    using HASH_ADD_rep [OF r(3) a'(1) key(1) a'(2) mb] HASH_ADD_INORDER_rep [OF r(3) a'(1) key(1) a'(2) mb, of c] r(1,2,4) f
    by (auto simp: HASH_REPLACE_def HASH_REPLACE_BYHASHVALUE_def HASH_REPLACE_INORDER_def
        HASH_REPLACE_BYHASHVALUE_INORDER_def HASH_ADD_def HASH_ADD_INORDER_def)
qed

section \<open>Property\<close>

text \<open>
  C27. Ordered and replacing insertion.  In a table whose order is sorted by a key that the comparison follows,
  \<open>HASH_ADD_INORDER\<close> of a new element gives the stable sort of the table with the element appended, so the table
  stays sorted; \<open>HASH_REPLACE\<close> deletes exactly the element that \<open>HASH_FIND\<close> returns for the key, reports it, and appends the
  new one, which is the one that is found afterwards when the keys are unique.  Running out of memory is the only other
  outcome.
\<close>

theorem uthash_inorder_replace:
  assumes "ut_rep s xs" "a \<notin> set xs" "length key < 2 ^ 32" "length xs + 1 < 2 ^ 32" "malloc_bounded malloc"
    and "cmp_by (insert a (set xs)) k cmpfcn" "sorted (map k xs)" "inj_on (hh_key (ut_mem s)) (set xs)"
  shows "(HASH_ADD_INORDER malloc cmpfcn key a s = Some (Inl Exit_oom) \<or>
      (\<exists>s'. HASH_ADD_INORDER malloc cmpfcn key a s = Some (Inr s') \<and> ut_rep s' (sort_key k (xs @ [a])))) \<and>
    (HASH_REPLACE malloc key a s = Some (Inl Exit_oom) \<or>
      (\<exists>r s'. HASH_FIND key s = Some (Inr r) \<and> HASH_REPLACE malloc key a s = Some (Inr (r, s')) \<and>
         ut_rep s' (without r xs @ [a]) \<and> HASH_FIND key s' = Some (Inr (Some a))))"
proof (intro conjI)
  show "HASH_ADD_INORDER malloc cmpfcn key a s = Some (Inl Exit_oom) \<or>
      (\<exists>s'. HASH_ADD_INORDER malloc cmpfcn key a s = Some (Inr s') \<and> ut_rep s' (sort_key k (xs @ [a])))"
    using HASH_ADD_INORDER_rep [OF assms(1-5), of cmpfcn] ins_list_sort_key [OF assms(6,7)] by auto
  obtain r where r: "HASH_FIND key s = Some (Inr r)"
    "HASH_REPLACE malloc key a s = Some (Inl Exit_oom) \<or>
     (\<exists>s'. HASH_REPLACE malloc key a s = Some (Inr (r, s')) \<and> ut_rep s' (without r xs @ [a]) \<and>
        hh_key (ut_mem s') = (hh_key (ut_mem s))(a := key))"
    using HASH_REPLACE_rep [OF assms(1-5)] by blast
  have f: "HASH_FIND key s' = Some (Inr (Some a))"
    if s': "ut_rep s' (without r xs @ [a])" "hh_key (ut_mem s') = (hh_key (ut_mem s))(a := key)" for s'
  proof -
    have "r = None \<longleftrightarrow> key \<notin> hh_key (ut_mem s) ` set xs" "\<And>x. r = Some x \<Longrightarrow> x \<in> set xs \<and> hh_key (ut_mem s) x = key"
      using ut.find_result [OF assms(1,3)] r(1) by auto
    then have "key \<notin> hh_key (ut_mem s) ` set (without r xs)" "set (without r xs) \<subseteq> set xs"
      using assms(1,8) by (cases r; auto simp: without_def ut_rep_def dest: inj_onD)+
    then have "inj_on (hh_key (ut_mem s')) (set (without r xs @ [a]))"
      using assms(2) s'(2) inj_on_subset [OF assms(8)] by (auto simp: inj_on_def image_iff)
    then show ?thesis using ut.find_unique [OF s'(1), of a] s'(2) assms(3) by simp
  qed
  show "HASH_REPLACE malloc key a s = Some (Inl Exit_oom) \<or>
      (\<exists>r s'. HASH_FIND key s = Some (Inr r) \<and> HASH_REPLACE malloc key a s = Some (Inr (r, s')) \<and>
         ut_rep s' (without r xs @ [a]) \<and> HASH_FIND key s' = Some (Inr (Some a)))"
    using r f by blast
qed

theorem uthash_inorder_replace_witness:
  "\<exists>s. HASH_ADD small_malloc (lit ''b'') 7 ut_empty = Some (Inr s) \<and>
     (HASH_ADD_INORDER small_malloc (\<lambda>x y. int x - int y) (lit ''b'') 3 s = Some (Inl Exit_oom) \<or>
      (\<exists>s'. HASH_ADD_INORDER small_malloc (\<lambda>x y. int x - int y) (lit ''b'') 3 s = Some (Inr s') \<and> ut_rep s' [3, 7])) \<and>
     (HASH_REPLACE small_malloc (lit ''b'') 3 s = Some (Inl Exit_oom) \<or>
      (\<exists>s'. HASH_REPLACE small_malloc (lit ''b'') 3 s = Some (Inr (Some 7, s')) \<and> ut_rep s' [3]))"
proof -
  obtain s where s: "HASH_ADD small_malloc (lit ''b'') 7 ut_empty = Some (Inr s)" "ut_rep s [7]" "hh_key (ut_mem s) 7 = lit ''b''"
    using ut_one [of "lit ''b''" 7] by auto
  have c: "cmp_by (insert 3 (set [7])) (\<lambda>x. x) (\<lambda>x y. int x - int y)" by (simp add: cmp_by_def)
  have "HASH_FIND (lit ''b'') s = Some (Inr (Some 7))" using ut.find_unique [OF s(2), of 7] s(3) by simp
  then show ?thesis
    using s(1) uthash_inorder_replace [OF s(2) _ _ _ small_malloc_bounded c, of "lit ''b''"] by (auto simp: without_def)
qed

end
