(* ===== verification/UthashForms.thy ===== *)
theory UthashForms
  imports UthashOrder CStrings
begin

unbundle bit_operations_syntax

text \<open>
  The convenience forms of \<open>src/utils/uthash.h\<close> for keys that are strings, integers and pointers, through which programs use
  the table (\<open>dns_tracker.c\<close> uses the ones for strings), and \<open>HASH_OVERHEAD\<close>.
\<close>

section \<open>The forms\<close>

text \<open>A string key is measured with \<open>strlen\<close>; its length is cut to an \<open>unsigned\<close>.\<close>

definition str_keylen :: "bytes \<Rightarrow> u32 ut" where
  "str_keylen str = bindU (liftU (strlen str)) (\<lambda>n. Some (Inr (of_nat n)))"

definition HASH_FIND_STR :: "bytes \<Rightarrow> ut_state \<Rightarrow> addr option ut" where
  "HASH_FIND_STR findstr s = bindU (str_keylen findstr) (\<lambda>keylen. HASH_FIND (take (unat keylen) findstr) s)"

definition HASH_ADD_STR :: "(size_t \<Rightarrow> bool) \<Rightarrow> bytes \<Rightarrow> addr \<Rightarrow> ut_state \<Rightarrow> ut_state ut" where
  "HASH_ADD_STR malloc strfield add s =
     bindU (str_keylen strfield) (\<lambda>keylen. HASH_ADD malloc (take (unat keylen) strfield) add s)"

definition HASH_REPLACE_STR :: "(size_t \<Rightarrow> bool) \<Rightarrow> bytes \<Rightarrow> addr \<Rightarrow> ut_state \<Rightarrow> (addr option \<times> ut_state) ut" where
  "HASH_REPLACE_STR malloc strfield add s =
     bindU (str_keylen strfield) (\<lambda>keylen. HASH_REPLACE malloc (take (unat keylen) strfield) add s)"

text \<open>The bytes of an integer in memory, on the little endian host.\<close>

definition mem_bytes :: "nat \<Rightarrow> 'w::len word \<Rightarrow> bytes" where
  "mem_bytes n w = map (\<lambda>i. ucast (drop_bit (8 * i) w)) [0..<n]"

definition HASH_FIND_INT :: "u32 \<Rightarrow> ut_state \<Rightarrow> addr option ut" where
  "HASH_FIND_INT findint s = HASH_FIND (mem_bytes 4 findint) s"

definition HASH_ADD_INT :: "(size_t \<Rightarrow> bool) \<Rightarrow> u32 \<Rightarrow> addr \<Rightarrow> ut_state \<Rightarrow> ut_state ut" where
  "HASH_ADD_INT malloc intfield add s = HASH_ADD malloc (mem_bytes 4 intfield) add s"

definition HASH_REPLACE_INT :: "(size_t \<Rightarrow> bool) \<Rightarrow> u32 \<Rightarrow> addr \<Rightarrow> ut_state \<Rightarrow> (addr option \<times> ut_state) ut" where
  "HASH_REPLACE_INT malloc intfield add s = HASH_REPLACE malloc (mem_bytes 4 intfield) add s"

definition HASH_FIND_PTR :: "u64 \<Rightarrow> ut_state \<Rightarrow> addr option ut" where
  "HASH_FIND_PTR findptr s = HASH_FIND (mem_bytes 8 findptr) s"

definition HASH_ADD_PTR :: "(size_t \<Rightarrow> bool) \<Rightarrow> u64 \<Rightarrow> addr \<Rightarrow> ut_state \<Rightarrow> ut_state ut" where
  "HASH_ADD_PTR malloc ptrfield add s = HASH_ADD malloc (mem_bytes 8 ptrfield) add s"

definition HASH_REPLACE_PTR :: "(size_t \<Rightarrow> bool) \<Rightarrow> u64 \<Rightarrow> addr \<Rightarrow> ut_state \<Rightarrow> (addr option \<times> ut_state) ut" where
  "HASH_REPLACE_PTR malloc ptrfield add s = HASH_REPLACE malloc (mem_bytes 8 ptrfield) add s"

definition sizeof_handle :: size_t where "sizeof_handle = 56"

definition HASH_OVERHEAD :: "ut_state \<Rightarrow> size_t" where
  "HASH_OVERHEAD s =
     (case ut_head s of None \<Rightarrow> 0
      | Some _ \<Rightarrow> ucast (num_items (ut_tbl s)) * sizeof_handle + ucast (num_buckets (ut_tbl s)) * sizeof_bucket + sizeof_table)"

section \<open>Typed keys\<close>

text \<open>What turns the table of byte strings into a table of typed keys: distinct keys have distinct bytes.\<close>

locale key_bytes =
  fixes enc :: "'k \<Rightarrow> bytes" and valid :: "'k \<Rightarrow> bool"
  assumes enc_inj: "valid i \<Longrightarrow> valid j \<Longrightarrow> enc i = enc j \<Longrightarrow> i = j"
    and enc_short: "valid i \<Longrightarrow> length (enc i) < 2 ^ 32"
begin

lemma add_find:
  assumes "ut_rep s xs" "a \<notin> set xs" "valid k" "length xs + 1 < 2 ^ 32" "malloc_bounded malloc"
    and "HASH_ADD malloc (enc k) a s = Some (Inr s')" "inj_on (hh_key (ut_mem s)) (set xs)" "enc k \<notin> hh_key (ut_mem s) ` set xs"
  shows "HASH_FIND (enc k) s' = Some (Inr (Some a))" "valid j \<Longrightarrow> j \<noteq> k \<Longrightarrow> HASH_FIND (enc j) s' = HASH_FIND (enc j) s"
proof -
  note ut.find_after_add [OF assms(1,2) enc_short [OF assms(3)] assms(4-8)]
  then show "HASH_FIND (enc k) s' = Some (Inr (Some a))" "valid j \<Longrightarrow> j \<noteq> k \<Longrightarrow> HASH_FIND (enc j) s' = HASH_FIND (enc j) s"
    using enc_short enc_inj assms(3) by blast+
qed

end

lemma mem_bytes_inj:
  assumes "mem_bytes n v = mem_bytes n (w :: 'w::len word)" "LENGTH('w) = 8 * n"
  shows "v = w"
proof (rule bit_word_eqI)
  fix k assume k: "k < LENGTH('w)"
  then have i: "k div 8 < n" using assms(2) by (simp add: div_less_iff_less_mult)
  then have "mem_bytes n v ! (k div 8) = mem_bytes n w ! (k div 8)" using assms(1) by simp
  then have "bit (ucast (drop_bit (8 * (k div 8)) v) :: u8) (k mod 8) = bit (ucast (drop_bit (8 * (k div 8)) w) :: u8) (k mod 8)"
    using i by (simp add: mem_bytes_def)
  then show "bit v k = bit w k" by (simp add: bit_simps)
qed

lemma length_mem_bytes [simp]: "length (mem_bytes n w) = n"
  by (simp add: mem_bytes_def)

interpretation int_key: key_bytes "mem_bytes 4 :: u32 \<Rightarrow> bytes" "\<lambda>_. True"
  by unfold_locales (auto dest: mem_bytes_inj)

interpretation ptr_key: key_bytes "mem_bytes 8 :: u64 \<Rightarrow> bytes" "\<lambda>_. True"
  by unfold_locales (auto dest: mem_bytes_inj)

interpretation str_key: key_bytes "\<lambda>str. str" "\<lambda>str. length str < 2 ^ 32"
  by unfold_locales simp_all

lemma str_keylen_eq:
  assumes "terminated p" "length (cstring p) < 2 ^ 32"
  shows "str_keylen p = Some (Inr (of_nat (length (cstring p))))" "take (unat (of_nat (length (cstring p)) :: u32)) p = cstring p"
proof -
  show "str_keylen p = Some (Inr (of_nat (length (cstring p))))" using assms(1) by (simp add: str_keylen_def strlen_terminated)
  obtain q where "p = cstring p @ q" by (rule cstring_split)
  then have "take (length (cstring p)) p = cstring p" by (metis append_eq_conv_conj)
  then show "take (unat (of_nat (length (cstring p)) :: u32)) p = cstring p"
    using assms(2) by (simp add: unat_of_nat take_bit_nat_eq_self)
qed

lemma str_forms:
  assumes "terminated p" "length (cstring p) < 2 ^ 32"
  shows "HASH_FIND_STR p s = HASH_FIND (cstring p) s" "HASH_ADD_STR malloc p a s = HASH_ADD malloc (cstring p) a s"
    "HASH_REPLACE_STR malloc p a s = HASH_REPLACE malloc (cstring p) a s"
  by (simp_all only: HASH_FIND_STR_def HASH_ADD_STR_def HASH_REPLACE_STR_def str_keylen_eq [OF assms] bindU_simps)

lemma str_unterminated:
  assumes "\<not> terminated p"
  shows "HASH_FIND_STR p s = Some (Inl (Fault OutOfBounds))" "HASH_ADD_STR malloc p a s = Some (Inl (Fault OutOfBounds))"
    "HASH_REPLACE_STR malloc p a s = Some (Inl (Fault OutOfBounds))"
  using assms by (simp_all add: HASH_FIND_STR_def HASH_ADD_STR_def HASH_REPLACE_STR_def str_keylen_def strlen_unterminated)

text \<open>The size that \<open>HASH_OVERHEAD\<close> reports does not wrap around.\<close>

lemma HASH_OVERHEAD_exact:
  assumes "ut_rep s xs" "xs \<noteq> []"
  shows "unat (HASH_OVERHEAD s) = length xs * 56 + unat (num_buckets (ut_tbl s)) * 16 + 64"
proof -
  obtain h where h: "ut_head s = Some h" using ut_rep_head [OF assms(1)] assms(2) by (cases xs) auto
  have n: "num_items (ut_tbl s) = of_nat (length xs)" "length xs < 2 ^ 32" using assms by (auto simp: ut_rep_def)
  have b: "unat (num_buckets (ut_tbl s)) < 2 ^ 32" using unsigned_less [of "num_buckets (ut_tbl s)"] by simp
  have u: "ucast w = (of_nat (unat w) :: size_t)" for w :: u32 by simp
  have "unat (num_items (ut_tbl s)) = length xs" using n by (simp add: unat_of_nat take_bit_nat_eq_self)
  then have "HASH_OVERHEAD s = of_nat (length xs * 56 + unat (num_buckets (ut_tbl s)) * 16 + 64)"
    unfolding HASH_OVERHEAD_def h option.case u [of "num_items (ut_tbl s)"] u [of "num_buckets (ut_tbl s)"]
    by (simp add: sizeof_handle_def sizeof_bucket_def sizeof_table_def)
  then show ?thesis using n(2) b by (simp only: unat_of_nat) (simp add: take_bit_nat_eq_self)
qed

section \<open>Properties\<close>

text \<open>
  C28. The forms for strings work on the C strings in their buffers: after \<open>HASH_ADD_STR\<close> of an element whose string is
  new to the table, \<open>HASH_FIND_STR\<close> from any buffer with the same string returns the element, with whatever bytes behind
  the terminator, and from a buffer with another string what it returned before.  In the same way \<open>HASH_FIND_INT\<close> and
  \<open>HASH_FIND_PTR\<close> return the element that \<open>HASH_ADD_INT\<close> and \<open>HASH_ADD_PTR\<close> inserted for the integer and for the
  pointer, and for other keys what they returned before.
\<close>

theorem uthash_typed_keys:
  assumes "ut_rep s xs" "a \<notin> set xs" "length xs + 1 < 2 ^ 32" "malloc_bounded malloc" "inj_on (hh_key (ut_mem s)) (set xs)"
    and "terminated p" "terminated q" "length (cstring p) < 2 ^ 32" "length (cstring q) < 2 ^ 32"
  shows "(HASH_ADD_STR malloc p a s = Some (Inr s') \<and> cstring p \<notin> hh_key (ut_mem s) ` set xs \<longrightarrow>
      HASH_FIND_STR q s' = (if cstring q = cstring p then Some (Inr (Some a)) else HASH_FIND_STR q s)) \<and>
    (HASH_ADD_INT malloc i a s = Some (Inr s') \<and> mem_bytes 4 i \<notin> hh_key (ut_mem s) ` set xs \<longrightarrow>
      HASH_FIND_INT j s' = (if j = i then Some (Inr (Some a)) else HASH_FIND_INT j s)) \<and>
    (HASH_ADD_PTR malloc u a s = Some (Inr s') \<and> mem_bytes 8 u \<notin> hh_key (ut_mem s) ` set xs \<longrightarrow>
      HASH_FIND_PTR v s' = (if v = u then Some (Inr (Some a)) else HASH_FIND_PTR v s))"
  unfolding str_forms [OF assms(6,8)] str_forms [OF assms(7,9)] HASH_ADD_INT_def HASH_FIND_INT_def HASH_ADD_PTR_def HASH_FIND_PTR_def
  using str_key.add_find [OF assms(1,2,8,3,4) _ assms(5), of s'] int_key.add_find [OF assms(1,2) TrueI assms(3,4) _ assms(5), of i s']
    ptr_key.add_find [OF assms(1,2) TrueI assms(3,4) _ assms(5), of u s'] assms(9)
  by simp

theorem uthash_typed_keys_witness:
  "(\<exists>s. HASH_ADD_STR small_malloc (lit ''k'' @ [0, 7]) 1 ut_empty = Some (Inr s) \<and>
        HASH_FIND_STR (lit ''k'' @ [0]) s = Some (Inr (Some 1)) \<and> HASH_FIND_STR (lit ''m'' @ [0]) s = Some (Inr None)) \<and>
   (\<exists>s. HASH_ADD_INT small_malloc 5 1 ut_empty = Some (Inr s) \<and>
        HASH_FIND_INT 5 s = Some (Inr (Some 1)) \<and> HASH_FIND_INT 0x105 s = Some (Inr None))"
proof -
  let ?p = "lit ''k'' @ [0, 7]" and ?q = "lit ''k'' @ [0]" and ?r = "lit ''m'' @ [0]"
  have t: "terminated ?p" "terminated ?q" "terminated ?r" by (simp_all add: lit_def terminated_def)
  have c: "cstring ?p = lit ''k''" "cstring ?q = lit ''k''" "cstring ?r = lit ''m''" "lit ''m'' \<noteq> lit ''k''"
    by (simp_all add: lit_def cstring_def)
  have l: "length (lit ''k'') < 2 ^ 32" "length (lit ''m'') < 2 ^ 32" by (simp_all add: lit_def)
  have e: "ut_rep ut_empty []" "ut_head ut_empty = None" by (simp_all add: ut_empty_def)
  have f: "HASH_FIND k ut_empty = Some (Inr None)" for k by (simp add: HASH_FIND_def e(2))
  note w = uthash_typed_keys [OF e(1), of 1 small_malloc ?p, OF _ _ small_malloc_bounded _ t(1)]
  obtain s where s: "HASH_ADD small_malloc (lit ''k'') 1 ut_empty = Some (Inr s)" using ut_one [OF l(1)] by blast
  have a: "HASH_ADD_STR small_malloc ?p 1 ut_empty = Some (Inr s)" using s str_forms [OF t(1)] c l by simp
  have str: "HASH_FIND_STR ?q s = Some (Inr (Some 1))" "HASH_FIND_STR ?r s = Some (Inr None)"
    using w [of ?q s] w [of ?r s] a t c l str_forms [OF t(3)] f by simp_all
  obtain u where u: "HASH_ADD small_malloc (mem_bytes 4 (5 :: u32)) 1 ut_empty = Some (Inr u)"
    using ut_one [of "mem_bytes 4 (5 :: u32)" 1] by auto
  have "HASH_ADD_INT small_malloc 5 1 ut_empty = Some (Inr u)" using u by (simp add: HASH_ADD_INT_def)
  moreover from this have "HASH_FIND_INT 5 u = Some (Inr (Some 1))" "HASH_FIND_INT 0x105 u = Some (Inr None)"
    using w [of ?q u 5 5] w [of ?q u 5 "0x105"] t c l f by (simp_all add: HASH_FIND_INT_def)
  ultimately show ?thesis using a str by blast
qed

end
