(* ===== verification/DnsUthash.thy ===== *)
theory DnsUthash
  imports DnsTracker UthashForms
begin

text \<open>
  \<open>src/tracking/dns_tracker.c\<close> over the pointer-level hash table of \<open>src/utils/uthash.h\<close>.  \<open>DnsTracker\<close> states
  the tracker over a list of entries and the documented behaviour of the hash table; here the operations call the
  macros of \<open>Uthash\<close> on the heap, entries are allocated and freed, and the simulation \<open>dns_rep\<close> shows that every
  operation computes what the list version computes, or ends the process because memory ran out.
\<close>

section \<open>State\<close>

text \<open>\<open>dm_ut\<close> is \<open>dns_table\<close> with the hash handles; the other fields of the entries are functions of the
  address; \<open>dm_live\<close> are the entries allocated by \<open>malloc\<close> and not yet freed.  Freeing an entry that is not
  live, or reading or writing one, is the fault \<open>DeadBlock\<close>.\<close>

record dns_mem =
  dm_ut :: ut_state
  dm_info :: "addr \<Rightarrow> dns_conntrack_info_t"
  dm_last :: "addr \<Rightarrow> int"
  dm_live :: "addr set"

section \<open>Operations\<close>

definition dns_tracker_init_c :: "dns_mem \<Rightarrow> int \<times> dns_mem" where
  "dns_tracker_init_c d = (0, d\<lparr>dm_ut := (dm_ut d)\<lparr>ut_head := None\<rparr>\<rparr>)"

definition free_entry :: "addr \<Rightarrow> dns_mem \<Rightarrow> dns_mem ut" where
  "free_entry a d =
     (if a \<in> dm_live d then Some (Inr (d\<lparr>dm_live := dm_live d - {a}\<rparr>)) else Some (Inl (Fault DeadBlock)))"

text \<open>The clean-up loops: \<open>HASH_ITER\<close> with a body that takes the current entry out of the table and frees it when
  \<open>cond\<close> holds.  The successor \<open>tmp\<close> is read before the body runs, its own successor after it.\<close>

partial_function (option) iter_free ::
  "(addr \<Rightarrow> bool) \<Rightarrow> addr option \<Rightarrow> addr option \<Rightarrow> dns_mem \<Rightarrow> int \<Rightarrow> (int \<times> dns_mem) ut" where [code]:
  "iter_free cond current tmp d removed =
     (case current of None \<Rightarrow> Some (Inr (removed, d))
      | Some a \<Rightarrow>
          if a \<notin> dm_live d then Some (Inl (Fault DeadBlock))
          else (case (if cond a then bindU (HASH_DELETE_HH a (dm_ut d)) (\<lambda>s. free_entry a (d\<lparr>dm_ut := s\<rparr>))
                      else Some (Inr d)) of
                  None \<Rightarrow> None
                | Some (Inl e) \<Rightarrow> Some (Inl e)
                | Some (Inr d') \<Rightarrow>
                    if (case tmp of None \<Rightarrow> False | Some b \<Rightarrow> b \<notin> dm_live d') then Some (Inl (Fault DeadBlock))
                    else iter_free cond tmp (case tmp of None \<Rightarrow> None | Some b \<Rightarrow> app_next (ut_mem (dm_ut d')) b) d'
                           (if cond a then removed + 1 else removed)))"

definition iter_free_all :: "(addr \<Rightarrow> bool) \<Rightarrow> dns_mem \<Rightarrow> (int \<times> dns_mem) ut" where
  "iter_free_all cond d =
     (case ut_head (dm_ut d) of None \<Rightarrow> iter_free cond None None d 0
      | Some a \<Rightarrow> if a \<notin> dm_live d then Some (Inl (Fault DeadBlock))
                 else iter_free cond (Some a) (app_next (ut_mem (dm_ut d)) a) d 0)"

definition dns_tracker_cleanup_c :: "dns_mem \<Rightarrow> (int \<times> dns_mem) ut" where
  "dns_tracker_cleanup_c d =
     bindU (iter_free_all (\<lambda>_. True) d) (\<lambda>(_, d').
       Some (Inr (0, d'\<lparr>dm_ut := (dm_ut d')\<lparr>ut_head := None\<rparr>\<rparr>)))"

text \<open>\<open>snprintf\<close> of a key into its buffer of 128 characters, up to the terminator.\<close>

definition snprintf_key :: "string \<Rightarrow> bytes" where
  "snprintf_key s = take 127 (lit s) @ [0]"

text \<open>\<open>malloc\<close> is the allocator of the table, \<open>entry\<close> the result of the allocation of the new entry.\<close>

definition dns_tracker_add_c ::
  "(size_t \<Rightarrow> bool) \<Rightarrow> addr option \<Rightarrow> int \<Rightarrow> packet_t option \<Rightarrow> dns_mem \<Rightarrow> (int \<times> dns_mem) ut" where
  "dns_tracker_add_c malloc entry now packet d =
     (case packet of None \<Rightarrow> Some (Inr (-1, d))
      | Some p \<Rightarrow>
          if \<not> is_dns p then Some (Inr (-1, d))
          else (case entry of None \<Rightarrow> Some (Inr (-1, d))
                | Some a \<Rightarrow>
                    bindU (HASH_ADD_STR malloc
                             (snprintf_key (dns_key (ip0 (p_src_ip p)) (ip0 (p_dst_ip p)) (p_src_port p) (p_dst_port p))) a (dm_ut d))
                      (\<lambda>s. Some (Inr (0, d\<lparr>dm_ut := s, dm_info := (dm_info d)(a := dns_info now p),
                                           dm_last := (dm_last d)(a := di_timestamp (dns_info now p)),
                                           dm_live := insert a (dm_live d)\<rparr>)))))"

definition dns_find_entry_c :: "packet_t \<Rightarrow> ut_state \<Rightarrow> addr option ut" where
  "dns_find_entry_c p s =
     bindU (HASH_FIND_STR (snprintf_key (dns_key (ip0 (p_src_ip p)) (ip0 (p_dst_ip p)) (p_src_port p) (p_dst_port p))) s) (\<lambda>entry.
       case entry of
         None \<Rightarrow> HASH_FIND_STR (snprintf_key (dns_key (ip0 (p_dst_ip p)) (ip0 (p_src_ip p)) (p_dst_port p) (p_src_port p))) s
       | Some a \<Rightarrow> Some (Inr (Some a)))"

definition dns_tracker_lookup_c ::
  "int \<Rightarrow> packet_t option \<Rightarrow> dns_conntrack_info_t option \<Rightarrow> dns_mem \<Rightarrow> (int \<times> dns_conntrack_info_t option \<times> dns_mem) ut" where
  "dns_tracker_lookup_c now packet info d =
     (case (packet, info) of
        (Some p, Some f) \<Rightarrow>
          if \<not> is_dns p then Some (Inr (-1, info, d))
          else bindU (dns_find_entry_c p (dm_ut d)) (\<lambda>entry.
                 case entry of
                   None \<Rightarrow> Some (Inr (-1, info, d))
                 | Some a \<Rightarrow>
                     if a \<notin> dm_live d then Some (Inl (Fault DeadBlock))
                     else Some (Inr (0, Some (dm_info d a), d\<lparr>dm_last := (dm_last d)(a := now)\<rparr>)))
      | _ \<Rightarrow> Some (Inr (-1, info, d)))"

definition dns_tracker_update_c ::
  "(size_t \<Rightarrow> bool) \<Rightarrow> dns_conntrack_info_t \<Rightarrow> addr option \<Rightarrow> int \<Rightarrow> packet_t option \<Rightarrow> dns_mem \<Rightarrow> (int \<times> dns_mem) ut" where
  "dns_tracker_update_c malloc info0 entry now packet d =
     bindU (dns_tracker_lookup_c now packet (Some info0) d) (\<lambda>(r, _, d').
       if r = 0 then Some (Inr (0, d')) else dns_tracker_add_c malloc entry now packet d')"

definition dns_tracker_cleanup_expired_c :: "int \<Rightarrow> dns_mem \<Rightarrow> (int \<times> dns_mem) ut" where
  "dns_tracker_cleanup_expired_c now d = iter_free_all (\<lambda>a. now - dm_last d a > DNS_TRACKING_TIMEOUT) d"

text \<open>The counting loop of \<open>dns_tracker_get_stats\<close>.\<close>

partial_function (option) iter_active ::
  "int \<Rightarrow> dns_mem \<Rightarrow> addr option \<Rightarrow> addr option \<Rightarrow> size_t \<Rightarrow> size_t option" where [code]:
  "iter_active now d current tmp active =
     (case current of None \<Rightarrow> Some active
      | Some a \<Rightarrow>
          iter_active now d tmp (case tmp of None \<Rightarrow> None | Some b \<Rightarrow> app_next (ut_mem (dm_ut d)) b)
            (if now - dm_last d a \<le> DNS_TRACKING_TIMEOUT then active + 1 else active))"

definition dns_tracker_get_stats_c ::
  "int \<Rightarrow> size_t option \<Rightarrow> size_t option \<Rightarrow> dns_mem \<Rightarrow> (size_t option \<times> size_t option) ut" where
  "dns_tracker_get_stats_c now total_entries active_entries d =
     (let total = map_option (\<lambda>_. ucast (HASH_COUNT (dm_ut d))) total_entries in
      case active_entries of None \<Rightarrow> Some (Inr (total, None))
      | Some _ \<Rightarrow>
          (case iter_active now d (ut_head (dm_ut d))
                  (case ut_head (dm_ut d) of None \<Rightarrow> None | Some a \<Rightarrow> app_next (ut_mem (dm_ut d)) a) 0 of
             None \<Rightarrow> None
           | Some active \<Rightarrow> Some (Inr (total, Some active))))"

section \<open>The keys in their buffers\<close>

lemma hex_char_nonzero: "d < 16 \<Longrightarrow> (of_char (hex_char d) :: u8) \<noteq> 0"
  unfolding hex_char_def using nth_mem [of d "''0123456789abcdef''"] by (auto simp del: nth_mem)

lemma hex_fixed_nonzero: "0 \<notin> set (lit (hex_fixed n v))"
  by (induction n arbitrary: v) (auto simp: lit_def hex_char_nonzero [symmetric])

lemma dns_key_nonzero: "0 \<notin> set (lit (dns_key a b c d))"
  using hex_fixed_nonzero by (auto simp: dns_key_def lit_def simp del: hex_fixed.simps)

lemma dns_key_forms:
  "HASH_FIND_STR (snprintf_key (dns_key a b c d)) s = HASH_FIND (lit (dns_key a b c d)) s"
  "HASH_ADD_STR malloc (snprintf_key (dns_key a b c d)) x s = HASH_ADD malloc (lit (dns_key a b c d)) x s"
proof -
  let ?p = "snprintf_key (dns_key a b c d)"
  have p: "?p = lit (dns_key a b c d) @ [0]" by (simp add: snprintf_key_def)
  have t: "terminated ?p" by (simp add: p terminated_def)
  have c: "cstring ?p = lit (dns_key a b c d)" using dns_key_nonzero [of a b c d] unfolding p cstring_def
    by (subst takeWhile_append2) auto
  have "length (cstring ?p) < 2 ^ 32" by (simp add: c)
  from str_forms [OF t this] show "HASH_FIND_STR ?p s = HASH_FIND (lit (dns_key a b c d)) s"
    "HASH_ADD_STR malloc ?p x s = HASH_ADD malloc (lit (dns_key a b c d)) x s" by (simp_all add: c)
qed

section \<open>The simulation\<close>

definition entry_rep :: "dns_mem \<Rightarrow> addr \<Rightarrow> dns_conntrack_entry_t \<Rightarrow> bool" where
  "entry_rep d a e \<longleftrightarrow>
     hh_key (ut_mem (dm_ut d)) a = lit (de_key e) \<and> dm_info d a = de_info e \<and> dm_last d a = de_last_seen e"

definition dns_rep :: "dns_mem \<Rightarrow> addr list \<Rightarrow> dns_table \<Rightarrow> bool" where
  "dns_rep d xs t \<longleftrightarrow> ut_rep (dm_ut d) xs \<and> dm_live d = set xs \<and> list_all2 (entry_rep d) xs t"

lemma lit_inj [simp]: "lit a = lit b \<longleftrightarrow> a = b"
proof -
  have "inj (of_char :: char \<Rightarrow> u8)"
  proof (rule injI)
    fix c c' :: char assume e: "(of_char c :: u8) = of_char c'"
    have "of_nat (of_char c) = (of_char c :: u8)" "of_nat (of_char c') = (of_char c' :: u8)"
      by (rule of_nat_of_char)+
    then have "unat (of_nat (of_char c) :: u8) = unat (of_nat (of_char c') :: u8)" using e by simp
    moreover have "(of_char c :: nat) < 256" "(of_char c' :: nat) < 256" by (rule nat_of_char_less_256)+
    ultimately have "(of_char c :: nat) = of_char c'" by (simp add: unat_of_nat)
    then show "c = c'" by simp
  qed
  then show ?thesis by (simp add: lit_def inj_eq inj_mapI)
qed

lemma dns_wf_keys:
  assumes "dns_wf t" shows "distinct (map de_key t)"
proof -
  have "exchange (de_info a) = exchange (de_info b)" if "dns_entry_ok a" "dns_entry_ok b" "de_key a = de_key b" for a b
    using that by (auto simp: dns_entry_ok_def exchange_info)
  then have "inj_on de_key (set t)"
    using assms by (auto simp: dns_wf_def distinct_map inj_on_def)
  then show ?thesis using assms by (auto simp: dns_wf_def distinct_map)
qed

text \<open>With distinct keys the search is determined.\<close>

lemma HASH_FIND_first:
  assumes "dns_rep d xs t" "distinct (map de_key t)" "length k < 2 ^ 32"
  shows "HASH_FIND (lit k) (dm_ut d) = Some (Inr (map_option ((!) xs) (hash_find_first k t)))"
proof -
  let ?key = "hh_key (ut_mem (dm_ut d))"
  have rel: "list_all2 (entry_rep d) xs t" and rep: "ut_rep (dm_ut d) xs" using assms(1) by (simp_all add: dns_rep_def)
  have keys: "map ?key xs = map lit (map de_key t)"
    using rel by (induction rule: list_all2_induct) (simp_all add: entry_rep_def)
  have "distinct (map lit (map de_key t))" using assms(2) by (simp add: distinct_map inj_on_def)
  then have inj: "inj_on ?key (set xs)" unfolding keys [symmetric] by (simp only: distinct_map)
  have nth: "?key (xs ! i) = lit (de_key (t ! i))" "xs ! i \<in> set xs" if "i < length t" for i
    using that list_all2_lengthD [OF rel] list_all2_nthD2 [OF rel that] by (simp_all add: entry_rep_def)
  show ?thesis
  proof (cases "hash_find_first k t")
    case None
    then have "lit k \<notin> set (map lit (map de_key t))" by (auto simp: hash_find_first_def index_of_None)
    then have "lit k \<notin> ?key ` set xs" unfolding keys [symmetric] by simp
    then show ?thesis using None ut.find_absent [OF rep] assms(3) by simp
  next
    case (Some i)
    then have i: "i < length t" "de_key (t ! i) = k" by (auto simp: hash_find_first_def index_of_Some)
    then show ?thesis using Some ut.find_unique [OF rep _ nth(2) [OF i(1)] inj] nth(1) [OF i(1)] assms(3) by simp
  qed
qed

lemma dns_find_entry_sim:
  assumes "dns_rep d xs t" "dns_wf t"
  shows "dns_find_entry_c p (dm_ut d) = Some (Inr (map_option ((!) xs) (dns_find_entry hash_find_first p t)))"
  using HASH_FIND_first [OF assms(1) dns_wf_keys [OF assms(2)]]
  by (simp add: dns_find_entry_c_def dns_key_forms dns_find_entry_def Let_def split: option.split)

lemma dns_rep_touch:
  assumes "dns_rep d xs t" "i < length t"
  shows "dns_rep (d\<lparr>dm_last := (dm_last d)(xs ! i := now)\<rparr>) xs (t[i := (t ! i)\<lparr>de_last_seen := now\<rparr>])"
proof -
  have rel: "list_all2 (entry_rep d) xs t" and dist: "distinct xs"
    using assms(1) by (auto simp: dns_rep_def ut_rep_def)
  have len: "length xs = length t" using rel by (rule list_all2_lengthD)
  have "entry_rep (d\<lparr>dm_last := (dm_last d)(xs ! i := now)\<rparr>) (xs ! j) (t[i := (t ! i)\<lparr>de_last_seen := now\<rparr>] ! j)"
    if j: "j < length t" for j
    using list_all2_nthD2 [OF rel j] assms(2) j len dist
    by (cases "j = i") (auto simp: entry_rep_def nth_eq_iff_index_eq)
  then show ?thesis using assms(1) len by (simp add: dns_rep_def list_all2_conv_all_nth)
qed


section \<open>Every operation is simulated\<close>

definition dns_sim :: "('r \<times> dns_mem) ut \<Rightarrow> 'r \<times> dns_table \<Rightarrow> bool" where
  "dns_sim c a \<longleftrightarrow> (\<exists>d xs. c = Some (Inr (fst a, d)) \<and> dns_rep d xs (snd a))"

lemma dns_simI: "c = Some (Inr (r, d)) \<Longrightarrow> dns_rep d xs t \<Longrightarrow> dns_sim c (r, t)"
  by (auto simp: dns_sim_def)

lemma dns_rep_add:
  assumes rep: "dns_rep d xs t" and a: "a \<notin> set xs" and s: "ut_rep s (xs @ [a])"
    and key: "hh_key (ut_mem s) = (hh_key (ut_mem (dm_ut d)))(a := lit (de_key e))"
    and d': "dm_ut d' = s" "dm_info d' = (dm_info d)(a := de_info e)" "dm_last d' = (dm_last d)(a := de_last_seen e)"
      "dm_live d' = insert a (dm_live d)"
  shows "dns_rep d' (xs @ [a]) (t @ [e])"
proof -
  have "list_all2 (entry_rep d) xs t" using rep by (simp add: dns_rep_def)
  then have "list_all2 (entry_rep d') xs t"
    by (rule list.rel_mono_strong) (use a key d' in \<open>auto simp: entry_rep_def\<close>)
  moreover have "entry_rep d' a e" using key d' by (simp add: entry_rep_def)
  ultimately show ?thesis using rep s d' by (auto simp: dns_rep_def list_all2_appendI)
qed

lemma dns_add_sim:
  assumes rep: "dns_rep d xs t" and fresh: "\<And>a. entry = Some a \<Longrightarrow> a \<notin> dm_live d"
    and mb: "malloc_bounded malloc" and len: "length xs + 1 < 2 ^ 32"
  shows "dns_tracker_add_c malloc entry now packet d = Some (Inl Exit_oom) \<or>
    dns_sim (dns_tracker_add_c malloc entry now packet d) (dns_tracker_add (entry \<noteq> None) now packet t)"
proof (cases "\<exists>p a. packet = Some p \<and> is_dns p \<and> entry = Some a")
  case False
  then show ?thesis
    using rep by (auto simp: dns_tracker_add_c_def dns_key_forms dns_tracker_add_def dns_sim_def split: option.split)
next
  case True
  then obtain p a where p: "packet = Some p" "is_dns p" "entry = Some a" by blast
  let ?k = "dns_key (ip0 (p_src_ip p)) (ip0 (p_dst_ip p)) (p_src_port p) (p_dst_port p)"
  let ?e = "\<lparr>de_key = ?k, de_info = dns_info now p, de_last_seen = di_timestamp (dns_info now p)\<rparr>"
  have a: "a \<notin> set xs" using fresh [OF p(3)] rep by (simp add: dns_rep_def)
  have u: "ut_rep (dm_ut d) xs" using rep by (simp add: dns_rep_def)
  consider "HASH_ADD malloc (lit ?k) a (dm_ut d) = Some (Inl Exit_oom)"
    | s where "HASH_ADD malloc (lit ?k) a (dm_ut d) = Some (Inr s)" "ut_rep s (xs @ [a])"
        "hh_key (ut_mem s) = (hh_key (ut_mem (dm_ut d)))(a := lit ?k)"
    using HASH_ADD_rep [OF u a _ len mb, of "lit ?k"] by auto
  then show ?thesis
  proof cases
    case 1
    then show ?thesis using p by (simp add: dns_tracker_add_c_def dns_key_forms)
  next
    case 2
    let ?d = "d\<lparr>dm_ut := s, dm_info := (dm_info d)(a := dns_info now p),
                dm_last := (dm_last d)(a := di_timestamp (dns_info now p)), dm_live := insert a (dm_live d)\<rparr>"
    have "dns_tracker_add_c malloc entry now packet d = Some (Inr (0, ?d))"
      using p 2(1) by (simp add: dns_tracker_add_c_def dns_key_forms)
    moreover have "dns_rep ?d (xs @ [a]) (t @ [?e])" using dns_rep_add [OF rep a 2(2)] 2(3) by simp
    ultimately show ?thesis using p by (auto simp: dns_tracker_add_def dns_sim_def)
  qed
qed

lemma dns_lookup_sim:
  assumes rep: "dns_rep d xs t" and wf: "dns_wf t"
  shows "\<exists>d'. dns_tracker_lookup_c now packet info d =
      Some (Inr (fst (dns_tracker_lookup hash_find_first now packet info t),
                 fst (snd (dns_tracker_lookup hash_find_first now packet info t)), d')) \<and>
    dns_rep d' xs (snd (snd (dns_tracker_lookup hash_find_first now packet info t))) \<and> dm_live d' = dm_live d"
proof (cases "\<exists>p f. packet = Some p \<and> info = Some f \<and> is_dns p")
  case False
  then show ?thesis
    using rep by (auto simp: dns_tracker_lookup_c_def dns_tracker_lookup_def split: option.split)
next
  case True
  then obtain p f where p: "packet = Some p" "info = Some f" "is_dns p" by blast
  note find = dns_find_entry_sim [OF rep wf, of p]
  show ?thesis
  proof (cases "dns_find_entry hash_find_first p t")
    case None
    then show ?thesis using p find rep by (simp add: dns_tracker_lookup_c_def dns_tracker_lookup_def)
  next
    case (Some i)
    then have i: "i < length t" using first.find_entry_Some by blast
    have "entry_rep d (xs ! i) (t ! i)" "xs ! i \<in> dm_live d"
      using rep list_all2_nthD2 i by (auto simp: dns_rep_def dest: list_all2_lengthD)
    then show ?thesis
      using p find Some dns_rep_touch [OF rep i]
      by (simp add: dns_tracker_lookup_c_def dns_tracker_lookup_def entry_rep_def)
  qed
qed

lemma dns_update_sim:
  assumes rep: "dns_rep d xs t" and wf: "dns_wf t" and fresh: "\<And>a. entry = Some a \<Longrightarrow> a \<notin> dm_live d"
    and mb: "malloc_bounded malloc" and len: "length xs + 1 < 2 ^ 32"
  shows "dns_tracker_update_c malloc info0 entry now packet d = Some (Inl Exit_oom) \<or>
    dns_sim (dns_tracker_update_c malloc info0 entry now packet d)
      (dns_tracker_update hash_find_first info0 (entry \<noteq> None) now packet t)"
proof -
  let ?l = "dns_tracker_lookup hash_find_first now packet (Some info0) t"
  obtain d' where d': "dns_tracker_lookup_c now packet (Some info0) d = Some (Inr (fst ?l, fst (snd ?l), d'))"
    "dns_rep d' xs (snd (snd ?l))" "dm_live d' = dm_live d"
    using dns_lookup_sim [OF rep wf] by blast
  have "a \<notin> dm_live d'" if "entry = Some a" for a using fresh [OF that] d'(3) by simp
  then show ?thesis
    using d'(1,2) dns_add_sim [OF d'(2) _ mb len, of entry now packet]
    by (auto simp: dns_tracker_update_c_def dns_tracker_update_def dns_sim_def split: prod.split)
qed

lemma dns_rep_filter:
  assumes rep: "dns_rep d xs t" and P: "\<And>a e. entry_rep d a e \<Longrightarrow> P a \<longleftrightarrow> Q e"
    and s: "ut_rep s (filter P xs)" "hh_key (ut_mem s) = hh_key (ut_mem (dm_ut d))"
    and live: "L = set (filter P xs)"
  shows "dns_rep (d\<lparr>dm_ut := s, dm_live := L\<rparr>) (filter P xs) (filter Q t)"
proof -
  have "list_all2 (entry_rep d) xs t" using rep by (simp add: dns_rep_def)
  then have "list_all2 (entry_rep d) (filter P xs) (filter Q t)"
    by (induction rule: list_all2_induct) (simp_all add: P)
  then show ?thesis using s live by (simp add: dns_rep_def entry_rep_def [abs_def])
qed

lemma filter_length_rep:
  "list_all2 R xs t \<Longrightarrow> (\<And>a e. R a e \<Longrightarrow> P a \<longleftrightarrow> Q e) \<Longrightarrow> length (filter P xs) = length (filter Q t)"
  by (induction rule: list_all2_induct) auto

lemma iter_free_rep:
  assumes "ut_rep (dm_ut d) (ds @ rs)" "dm_live d = set (ds @ rs)"
    and "current = (case rs of [] \<Rightarrow> None | x # _ \<Rightarrow> Some x)" "tmp = (case rs of x # y # _ \<Rightarrow> Some y | _ \<Rightarrow> None)"
  shows "\<exists>s. iter_free cond current tmp d n =
      Some (Inr (n + int (length (filter cond rs)), d\<lparr>dm_ut := s, dm_live := set (ds @ filter (\<lambda>x. \<not> cond x) rs)\<rparr>)) \<and>
    ut_rep s (ds @ filter (\<lambda>x. \<not> cond x) rs) \<and> hh_key (ut_mem s) = hh_key (ut_mem (dm_ut d))"
  using assms
proof (induction rs arbitrary: ds d current tmp n)
  case Nil
  then show ?case by (intro exI [of _ "dm_ut d"], subst iter_free.simps) simp
next
  case (Cons x rs)
  have tmp: "tmp = (case rs of [] \<Rightarrow> None | y # _ \<Rightarrow> Some y)" using Cons.prems(4) by (cases rs) simp_all
  have nxt: "(case tmp of None \<Rightarrow> None | Some y \<Rightarrow> app_next (ut_mem (dm_ut d')) y) = (case rs of y # z # _ \<Rightarrow> Some z | _ \<Rightarrow> None)"
    if "ut_rep (dm_ut d') (es @ rs)" for d' es
    using that ut_rep_next [of "dm_ut d'" es] unfolding tmp by (cases rs) (auto split: list.splits)
  have alive: "\<not> (case tmp of None \<Rightarrow> False | Some b \<Rightarrow> b \<notin> L)" if "set rs \<subseteq> L" for L
    using that unfolding tmp by (cases rs) auto
  have x: "x \<in> dm_live d" "x \<notin> set ds" "x \<notin> set rs" using Cons.prems(1,2) by (simp_all add: ut_rep_def)
  show ?case
  proof (cases "cond x")
    case True
    obtain s1 where s1: "HASH_DELETE_HH x (dm_ut d) = Some (Inr s1)" "ut_rep s1 (ds @ rs)"
      "hh_key (ut_mem s1) = hh_key (ut_mem (dm_ut d))"
      using HASH_DELETE_rep [OF Cons.prems(1), of x] x by (auto simp: remove1_append)
    let ?d = "d\<lparr>dm_ut := s1, dm_live := set (ds @ rs)\<rparr>"
    have "dm_live d - {x} = set (ds @ rs)" using Cons.prems(2) x by auto
    then have f: "free_entry x (d\<lparr>dm_ut := s1\<rparr>) = Some (Inr ?d)" using x by (simp add: free_entry_def)
    have r: "ut_rep (dm_ut ?d) (ds @ rs)" using s1(2) by simp
    show ?thesis
      using Cons.IH [OF r _ tmp nxt [OF r], of "n + 1"] True s1(1,3) f x(1) alive [of "set ds \<union> set rs"] Cons.prems(3)
      by (subst iter_free.simps, cases tmp) (simp_all add: add.assoc)
  next
    case False
    have r: "ut_rep (dm_ut d) ((ds @ [x]) @ rs)" and l: "dm_live d = set ((ds @ [x]) @ rs)" using Cons.prems(1,2) by simp_all
    show ?thesis
      using Cons.IH [OF r l tmp nxt [OF r], of n] False x(1) alive [of "dm_live d"] l Cons.prems(3)
      by (subst iter_free.simps, cases tmp) auto
  qed
qed

text \<open>A clean-up loop over a represented table takes out and frees exactly the selected entries, each once.\<close>

lemma iter_free_all_rep:
  assumes "dns_rep d xs t"
  obtains s where "iter_free_all cond d =
      Some (Inr (int (length (filter cond xs)), d\<lparr>dm_ut := s, dm_live := set (filter (\<lambda>x. \<not> cond x) xs)\<rparr>))"
    "ut_rep s (filter (\<lambda>x. \<not> cond x) xs)" "hh_key (ut_mem s) = hh_key (ut_mem (dm_ut d))"
proof -
  have u: "ut_rep (dm_ut d) xs" and live: "dm_live d = set xs" using assms by (simp_all add: dns_rep_def)
  have "iter_free_all cond d = iter_free cond (ut_head (dm_ut d)) (case xs of x # y # _ \<Rightarrow> Some y | _ \<Rightarrow> None) d 0"
    using ut_rep_head [OF u] ut_rep_next [of "dm_ut d" "[]"] u live
    by (cases xs) (auto simp: iter_free_all_def split: list.splits)
  then show ?thesis
    using iter_free_rep [of d "[]" xs "ut_head (dm_ut d)", OF _ _ ut_rep_head [OF u] refl, of cond 0] u live that by auto
qed

lemma dns_expired_sim:
  assumes rep: "dns_rep d xs t"
  shows "dns_sim (dns_tracker_cleanup_expired_c now d) (dns_tracker_cleanup_expired now t)"
proof -
  let ?P = "\<lambda>a. now - dm_last d a > DNS_TRACKING_TIMEOUT"
  have rel: "list_all2 (entry_rep d) xs t" using rep by (simp add: dns_rep_def)
  obtain s where s: "iter_free_all ?P d =
      Some (Inr (int (length (filter ?P xs)), d\<lparr>dm_ut := s, dm_live := set (filter (\<lambda>a. \<not> ?P a) xs)\<rparr>))"
    "ut_rep s (filter (\<lambda>a. \<not> ?P a) xs)" "hh_key (ut_mem s) = hh_key (ut_mem (dm_ut d))"
    using iter_free_all_rep [OF rep] .
  have eq: "?P a \<longleftrightarrow> dns_timed_out now e" if "entry_rep d a e" for a e
    using that by (simp add: entry_rep_def dns_timed_out_def)
  have l: "length (filter ?P xs) = length (filter (dns_timed_out now) t)"
    by (rule filter_length_rep [OF rel]) (rule eq)
  have "dns_rep (d\<lparr>dm_ut := s, dm_live := set (filter (\<lambda>a. \<not> ?P a) xs)\<rparr>) (filter (\<lambda>a. \<not> ?P a) xs)
      (filter (\<lambda>e. \<not> dns_timed_out now e) t)"
    by (rule dns_rep_filter [OF rep _ s(2,3) refl]) (simp add: eq)
  then show ?thesis
    unfolding dns_cleanup_expired_eq using s(1) l
    by (intro dns_simI) (simp_all add: dns_tracker_cleanup_expired_c_def)
qed

lemma dns_cleanup_sim:
  assumes rep: "dns_rep d xs t"
  shows "dns_sim (dns_tracker_cleanup_c d) (dns_tracker_cleanup t)"
proof -
  obtain s where "iter_free_all (\<lambda>_. True) d = Some (Inr (int (length xs), d\<lparr>dm_ut := s, dm_live := {}\<rparr>))"
    using iter_free_all_rep [OF rep, of "\<lambda>_. True"] by auto
  then show ?thesis
    unfolding dns_tracker_cleanup_def delete_all_Nil
    by (intro dns_simI [where xs = "[]"]) (auto simp: dns_tracker_cleanup_c_def dns_rep_def)
qed

lemma iter_active_eq:
  assumes "ut_rep (dm_ut d) (ds @ xs)" "list_all2 (entry_rep d) xs t"
    and "cur = (case xs of [] \<Rightarrow> None | x # _ \<Rightarrow> Some x)" "tmp = (case xs of x # y # _ \<Rightarrow> Some y | _ \<Rightarrow> None)"
  shows "iter_active now d cur tmp n = Some (count_active now t n)"
  using assms
proof (induction xs arbitrary: ds t cur tmp n)
  case Nil
  then show ?case by (subst iter_active.simps) simp
next
  case (Cons x xs)
  obtain e es where t: "t = e # es" "entry_rep d x e" "list_all2 (entry_rep d) xs es"
    using Cons.prems(2) by (auto simp: list_all2_Cons1)
  have r: "ut_rep (dm_ut d) ((ds @ [x]) @ xs)" using Cons.prems(1) by simp
  have tmp: "tmp = (case xs of [] \<Rightarrow> None | y # _ \<Rightarrow> Some y)" using Cons.prems(4) by (cases xs) simp_all
  have nxt: "(case tmp of None \<Rightarrow> None | Some y \<Rightarrow> app_next (ut_mem (dm_ut d)) y) = (case xs of y # z # _ \<Rightarrow> Some z | _ \<Rightarrow> None)"
    using ut_rep_next [of "dm_ut d" "ds @ [x]"] r unfolding tmp by (cases xs) (auto split: list.splits)
  show ?case
    using Cons.IH [OF r t(3) tmp nxt] Cons.prems(3) t(1,2)
    by (subst iter_active.simps) (simp add: entry_rep_def)
qed

lemma dns_stats_sim:
  assumes rep: "dns_rep d xs t"
  shows "dns_tracker_get_stats_c now tot act d = Some (Inr (dns_tracker_get_stats now tot act t))"
proof -
  have u: "ut_rep (dm_ut d) xs" and rel: "list_all2 (entry_rep d) xs t" using rep by (simp_all add: dns_rep_def)
  have len: "length t < 2 ^ 32" "length xs = length t"
    using u list_all2_lengthD [OF rel] by (auto simp: ut_rep_def)
  have c: "ucast (HASH_COUNT (dm_ut d)) = (of_nat (length t) :: size_t)"
    using HASH_COUNT_rep [OF u] len by (simp add: unsigned_of_nat take_bit_nat_eq_self)
  have nx: "(case ut_head (dm_ut d) of None \<Rightarrow> None | Some x \<Rightarrow> app_next (ut_mem (dm_ut d)) x) =
      (case xs of x # y # _ \<Rightarrow> Some y | _ \<Rightarrow> None)"
    using ut_rep_head [OF u] ut_rep_next [of "dm_ut d" "[]"] u by (cases xs) (auto split: list.splits)
  have "iter_active now d (ut_head (dm_ut d))
      (case ut_head (dm_ut d) of None \<Rightarrow> None | Some x \<Rightarrow> app_next (ut_mem (dm_ut d)) x) 0 = Some (count_active now t 0)"
    using iter_active_eq [of d "[]" xs t, OF _ rel ut_rep_head [OF u] nx] u by simp
  then show ?thesis
    by (simp add: dns_tracker_get_stats_c_def dns_tracker_get_stats_def Let_def c split: option.split)
qed


section \<open>Histories\<close>

text \<open>The calls of a program that uses the tracker after \<open>dns_tracker_init\<close>, with the results of \<open>time\<close> and \<open>malloc\<close>.\<close>

datatype dns_call =
    Call_update dns_conntrack_info_t "addr option" int "packet_t option"
  | Call_lookup int "packet_t option" "dns_conntrack_info_t option"
  | Call_cleanup_expired int
  | Call_cleanup

type_synonym dns_result = "int \<times> dns_conntrack_info_t option"

fun exec_c :: "(size_t \<Rightarrow> bool) \<Rightarrow> dns_call \<Rightarrow> dns_mem \<Rightarrow> (dns_result \<times> dns_mem) ut" where
  "exec_c malloc (Call_update info0 entry now packet) d =
     bindU (dns_tracker_update_c malloc info0 entry now packet d) (\<lambda>(r, d'). Some (Inr ((r, None), d')))"
| "exec_c malloc (Call_lookup now packet info) d =
     bindU (dns_tracker_lookup_c now packet info d) (\<lambda>(r, i, d'). Some (Inr ((r, i), d')))"
| "exec_c malloc (Call_cleanup_expired now) d =
     bindU (dns_tracker_cleanup_expired_c now d) (\<lambda>(r, d'). Some (Inr ((r, None), d')))"
| "exec_c malloc Call_cleanup d = bindU (dns_tracker_cleanup_c d) (\<lambda>(r, d'). Some (Inr ((r, None), d')))"

fun exec_a :: "dns_call \<Rightarrow> dns_table \<Rightarrow> dns_result \<times> dns_table" where
  "exec_a (Call_update info0 entry now packet) t =
     (case dns_tracker_update hash_find_first info0 (entry \<noteq> None) now packet t of (r, t') \<Rightarrow> ((r, None), t'))"
| "exec_a (Call_lookup now packet info) t =
     (case dns_tracker_lookup hash_find_first now packet info t of (r, i, t') \<Rightarrow> ((r, i), t'))"
| "exec_a (Call_cleanup_expired now) t = (case dns_tracker_cleanup_expired now t of (r, t') \<Rightarrow> ((r, None), t'))"
| "exec_a Call_cleanup t = (case dns_tracker_cleanup t of (r, t') \<Rightarrow> ((r, None), t'))"

fun run_c :: "(size_t \<Rightarrow> bool) \<Rightarrow> dns_call list \<Rightarrow> dns_mem \<Rightarrow> (dns_result list \<times> dns_mem) ut" where
  "run_c malloc [] d = Some (Inr ([], d))"
| "run_c malloc (c # cs) d =
     bindU (exec_c malloc c d) (\<lambda>(r, d'). bindU (run_c malloc cs d') (\<lambda>(rs, d''). Some (Inr (r # rs, d''))))"

fun run_a :: "dns_call list \<Rightarrow> dns_table \<Rightarrow> dns_result list \<times> dns_table" where
  "run_a [] t = ([], t)"
| "run_a (c # cs) t =
     (case exec_a c t of (r, t') \<Rightarrow> case run_a cs t' of (rs, t'') \<Rightarrow> (r # rs, t''))"

text \<open>The promise of \<open>malloc\<close>: a new entry is not one that is still allocated.\<close>

fun new_entry :: "dns_call \<Rightarrow> addr option" where
  "new_entry (Call_update info0 entry now packet) = entry"
| "new_entry c = None"

fun malloc_fresh :: "(size_t \<Rightarrow> bool) \<Rightarrow> dns_call list \<Rightarrow> dns_mem \<Rightarrow> bool" where
  "malloc_fresh malloc [] d = True"
| "malloc_fresh malloc (c # cs) d \<longleftrightarrow>
     (case new_entry c of None \<Rightarrow> True | Some a \<Rightarrow> a \<notin> dm_live d) \<and>
     (case exec_c malloc c d of Some (Inr (r, d')) \<Rightarrow> malloc_fresh malloc cs d' | _ \<Rightarrow> True)"

lemma dns_simE:
  assumes "dns_sim c a"
  obtains d xs where "c = Some (Inr (fst a, d))" "dns_rep d xs (snd a)"
  using assms by (auto simp: dns_sim_def)

lemma exec_sim:
  assumes rep: "dns_rep d xs t" and wf: "dns_wf t" and fresh: "\<And>a. new_entry c = Some a \<Longrightarrow> a \<notin> dm_live d"
    and mb: "malloc_bounded malloc" and len: "length xs + 1 < 2 ^ 32"
  shows "exec_c malloc c d = Some (Inl Exit_oom) \<or> dns_sim (exec_c malloc c d) (exec_a c t)"
proof (cases c)
  case (Call_update info0 entry now packet)
  then have "dns_tracker_update_c malloc info0 entry now packet d = Some (Inl Exit_oom) \<or>
    dns_sim (dns_tracker_update_c malloc info0 entry now packet d)
      (dns_tracker_update hash_find_first info0 (entry \<noteq> None) now packet t)"
    using dns_update_sim [OF rep wf _ mb len, of entry] fresh by simp
  then show ?thesis by (auto simp: Call_update dns_sim_def split: prod.split)
next
  case (Call_lookup now packet info)
  then show ?thesis using dns_lookup_sim [OF rep wf, of now packet info] by (auto simp: dns_sim_def split: prod.split)
next
  case (Call_cleanup_expired now)
  then show ?thesis using dns_expired_sim [OF rep, of now] by (auto simp: dns_sim_def split: prod.split)
next
  case Call_cleanup
  then show ?thesis using dns_cleanup_sim [OF rep] by (auto simp: dns_sim_def split: prod.split)
qed

lemma snd_exec_a:
  "snd (exec_a (Call_update info0 entry now packet) t) =
     snd (dns_tracker_update hash_find_first info0 (entry \<noteq> None) now packet t)"
  "snd (exec_a (Call_lookup now packet info) t) = snd (snd (dns_tracker_lookup hash_find_first now packet info t))"
  "snd (exec_a (Call_cleanup_expired now) t) = snd (dns_tracker_cleanup_expired now t)"
  "snd (exec_a Call_cleanup t) = []"
  by (simp_all add: dns_tracker_cleanup_def split_beta)

lemma exec_a_wf: "dns_wf t \<Longrightarrow> dns_wf (snd (exec_a c t))"
  using first.dns_step_wf [OF dns_step.step_update, of t]
  by (cases c) (auto simp only: snd_exec_a dns_wf_lookup dns_wf_expired dns_wf_Nil)

lemma update_length_le: "length (snd (dns_tracker_update hash_find_first info0 m now packet t)) \<le> length t + 1"
proof (cases packet)
  case (Some p)
  obtain r t' where u: "dns_tracker_update hash_find_first info0 m now (Some p) t = (r, t')" by fastforce
  then show ?thesis unfolding Some by (cases rule: first.update_cases) (simp_all add: u)
qed (simp add: dns_update_null)

lemma exec_a_length: "length (snd (exec_a c t)) \<le> length t + 1"
proof (cases c)
  case (Call_lookup now packet info)
  then show ?thesis unfolding Call_lookup snd_exec_a by (auto simp: dns_tracker_lookup_def split: option.split)
qed (simp_all only: snd_exec_a update_length_le, simp_all add: dns_cleanup_expired_eq le_SucI)

lemma run_sim:
  assumes "dns_rep d xs t" "dns_wf t" "malloc_fresh malloc cs d" "malloc_bounded malloc" "length xs + length cs < 2 ^ 32"
  shows "run_c malloc cs d = Some (Inl Exit_oom) \<or> dns_sim (run_c malloc cs d) (run_a cs t)"
  using assms
proof (induction cs arbitrary: d xs t)
  case Nil
  then show ?case by (auto simp: dns_sim_def)
next
  case (Cons c cs)
  have fresh: "a \<notin> dm_live d" if "new_entry c = Some a" for a using Cons.prems(3) that by simp
  have len: "length xs + 1 < 2 ^ 32" using Cons.prems(5) by simp
  from exec_sim [OF Cons.prems(1,2) fresh Cons.prems(4) len] show ?case
  proof
    assume "exec_c malloc c d = Some (Inl Exit_oom)"
    then show ?case by simp
  next
    assume "dns_sim (exec_c malloc c d) (exec_a c t)"
    then obtain d' xs' where s: "exec_c malloc c d = Some (Inr (fst (exec_a c t), d'))" "dns_rep d' xs' (snd (exec_a c t))"
      by (rule dns_simE)
    have "length xs' = length (snd (exec_a c t))" "length xs = length t"
      using s(2) Cons.prems(1) by (auto simp: dns_rep_def dest: list_all2_lengthD)
    then have l: "length xs' + length cs < 2 ^ 32" using exec_a_length [of c t] Cons.prems(5) by simp
    have f: "malloc_fresh malloc cs d'" using Cons.prems(3) s(1) by simp
    show ?case
      using Cons.IH [OF s(2) exec_a_wf [OF Cons.prems(2)] f Cons.prems(4) l] s(1)
      by (auto simp: dns_sim_def split: prod.split)
  qed
qed


lemma run_a_cleanup: "cs \<noteq> [] \<Longrightarrow> last cs = Call_cleanup \<Longrightarrow> snd (run_a cs t) = []"
proof (induction cs arbitrary: t)
  case (Cons c cs)
  note IH = Cons.IH and prems = Cons.prems
  show ?case
  proof (cases cs)
    case Nil
    then show ?thesis using Cons.prems by (simp add: dns_tracker_cleanup_def)
  next
    case (Cons c' cs')
    then have "snd (run_a cs t') = []" for t' using IH prems by simp
    then show ?thesis by (simp add: split_beta)
  qed
qed simp


section \<open>Property\<close>


text \<open>A second \<open>free\<close> of the same entry is a fault of the model.\<close>

lemma double_free_faults: "bindU (free_entry a d) (free_entry a) = Some (Inl (Fault DeadBlock))"
  by (simp add: free_entry_def)

definition dns_mem0 :: dns_mem where
  "dns_mem0 = \<lparr>dm_ut = ut_empty, dm_info = \<lambda>_. dns_info 0 sample_query, dm_last = \<lambda>_. 0, dm_live = {}\<rparr>"

definition sample_calls :: "dns_call list" where
  "sample_calls = [Call_update (dns_info 0 sample_query) (Some 1) 7 (Some sample_query), Call_cleanup]"

lemma sample_calls_a: "run_a sample_calls [] = ([(0, None), (0, None)], [])"
  using sample_query_update by (simp add: sample_calls_def dns_tracker_cleanup_def)

lemma sample_update_c: "\<exists>d. dns_tracker_update_c small_malloc info0 (Some 1) 7 (Some sample_query) dns_mem0 = Some (Inr (0, d))"
proof -
  obtain s where "HASH_ADD small_malloc (lit (dns_key 1 8 4000 53)) 1 ut_empty = Some (Inr s)"
    using ut_one [of "lit (dns_key 1 8 4000 53)" 1] by auto
  moreover have "HASH_FIND k ut_empty = Some (Inr None)" for k by (simp add: HASH_FIND_def ut_empty_def)
  ultimately show ?thesis
    by (simp add: dns_tracker_update_c_def dns_tracker_lookup_c_def dns_tracker_add_c_def dns_find_entry_c_def dns_key_forms
        dns_mem0_def is_dns_def sample_query_def)
qed


end
