(* ===== verification/StringReplace.thy ===== *)
theory StringReplace
  imports StringUtils
begin

text \<open>
  \<open>string_replace_all\<close> of \<open>src/utils/string_utils.c\<close>: replacement in place inside a buffer of \<open>str_size\<close> bytes.  The
  loop is a partial function, \<open>None\<close> is a loop that does not end; the theorem shows that it always ends.
  The literals \<open>find\<close> and \<open>replace\<close> are given by their contents; lengths inside an object do not wrap.
\<close>

section \<open>The function\<close>

text \<open>The inner block: move the rest of the string, or leave the loop (\<open>None\<close>) when there is no space.\<close>

definition make_room :: "nat \<Rightarrow> bytes \<Rightarrow> bytes \<Rightarrow> bytes \<Rightarrow> nat \<Rightarrow> bytes option cres" where
  "make_room str_size fnd rep b pos =
     (if length rep \<noteq> length fnd
      then bindC (strlen (drop pos b)) (\<lambda>n.
           let remaining = n - length fnd + 1 in
           bindC (strlen b) (\<lambda>m.
             if m + length rep - length fnd \<ge> str_size then Inr None
             else bindC (slice b (pos + length fnd) remaining) (\<lambda>x.
                  bindC (blit b (pos + length rep) x) (\<lambda>b'. Inr (Some b')))))
      else Inr (Some b))"

partial_function (option) replace_loop ::
  "nat \<Rightarrow> bytes \<Rightarrow> bytes \<Rightarrow> bytes \<Rightarrow> nat option \<Rightarrow> nat \<Rightarrow> (nat \<times> bytes) cres option" where [code]:
  "replace_loop str_size fnd rep b pos cnt =
     (case pos of None \<Rightarrow> Some (Inr (cnt, b))
      | Some p \<Rightarrow>
          if \<not> p + length rep < str_size then Some (Inr (cnt, b))
          else (case make_room str_size fnd rep b p of
              Inl e \<Rightarrow> Some (Inl e)
            | Inr None \<Rightarrow> Some (Inr (cnt, b))
            | Inr (Some b1) \<Rightarrow>
                (case blit b1 p rep of
                   Inl e \<Rightarrow> Some (Inl e)
                 | Inr b2 \<Rightarrow>
                     (case strstr (drop (p + length rep) b2) fnd of
                        Inl e \<Rightarrow> Some (Inl e)
                      | Inr r \<Rightarrow> replace_loop str_size fnd rep b2 (map_option (\<lambda>k. p + length rep + k) r) (cnt + 1)))))"

definition string_replace_all ::
  "bytes option \<Rightarrow> nat \<Rightarrow> bytes option \<Rightarrow> bytes option \<Rightarrow> (int \<times> bytes option) cres option" where
  "string_replace_all str str_size fnd rep =
     (case (str, fnd, rep) of
        (Some b, Some f, Some r) \<Rightarrow>
          if str_size = 0 then Some (Inr (-1, str))
          else if f = [] then Some (Inr (0, str))
          else (case strstr b f of
              Inl e \<Rightarrow> Some (Inl e)
            | Inr pos \<Rightarrow> map_option (map_sum id (\<lambda>(n, b'). (int n, Some b'))) (replace_loop str_size f r b pos 0))
      | _ \<Rightarrow> Some (Inr (-1, str)))"

section \<open>Specification\<close>

text \<open>Replacement of the occurrences from left to right, on plain lists.\<close>

function replaced :: "bytes \<Rightarrow> bytes \<Rightarrow> bytes \<Rightarrow> bytes" where
  "replaced f r [] = []"
| "replaced f r (c # cs) =
     (if f \<noteq> [] \<and> take (length f) (c # cs) = f then r @ replaced f r (drop (length f) (c # cs))
      else c # replaced f r cs)"
  by pat_completeness auto
termination
  by (relation "measure (\<lambda>(f, r, s). length s)") auto

lemma replaced_longer: "length f \<le> length r \<Longrightarrow> length s \<le> length (replaced f r s)"
proof (induction f r s rule: replaced.induct)
  case (2 f r c cs)
  show ?case
  proof (cases "f \<noteq> [] \<and> take (length f) (c # cs) = f")
    case True
    then have "length f \<le> length (c # cs)" by (metis length_take min.absorb_iff2 nat_le_linear take_all)
    then show ?thesis using "2.IH"(1) [OF True "2.prems"] "2.prems" True by simp
  next
    case False
    show ?thesis
      using "2.IH"(2) [OF False "2.prems"] unfolding replaced.simps if_not_P [OF False] by simp
  qed
qed simp

lemma take_zero: "0 \<notin> set f \<Longrightarrow> take (length f) (s @ 0 # q) = f \<longleftrightarrow> take (length f) s = f"
proof (cases "length f \<le> length s")
  case False
  assume z: "0 \<notin> set f"
  obtain k where k: "length f - length s = Suc k" using False by (cases "length f - length s") auto
  have "0 \<in> set (take (length f) (s @ 0 # q))" by (simp add: k)
  moreover have "take (length f) s \<noteq> f" using False by (metis length_take min.cobounded1 nat_le_linear)
  ultimately show ?thesis using z by metis
qed simp

lemma prefix_at_zero: "0 \<notin> set f \<Longrightarrow> prefix_at (s @ 0 # q) f = Inr (take (length f) s = f)"
  by (simp add: prefix_at_terminated terminated_def take_zero del: take_append)

lemma strstr_zero:
  assumes "f \<noteq> []" "0 \<notin> set f" "0 \<notin> set s"
  shows "(strstr (s @ 0 # q) f = Inr None \<and> replaced f r s = s \<and> count_loop (s @ 0 # q) f = Inr 0) \<or>
    (\<exists>u v. s = u @ f @ v \<and> strstr (s @ 0 # q) f = Inr (Some (length u)) \<and> replaced f r s = u @ r @ replaced f r v)"
  using assms(3)
proof (induction s)
  case Nil
  then show ?case using assms(1,2) prefix_at_zero [of f "[]" q] by (subst count_loop.simps) simp
next
  case (Cons c cs)
  show ?case
  proof (cases "take (length f) (c # cs) = f")
    case True
    then have "c # cs = [] @ f @ drop (length f) (c # cs)" by (metis append_Nil append_take_drop_id)
    moreover have "strstr ((c # cs) @ 0 # q) f = Inr (Some (length ([]::bytes)))"
      using True prefix_at_zero [OF assms(2), of "c # cs" q] by simp
    moreover have "replaced f r (c # cs) = [] @ r @ replaced f r (drop (length f) (c # cs))"
      using True assms(1) by simp
    ultimately show ?thesis by blast
  next
    case False
    have z: "c \<noteq> 0" "0 \<notin> set cs" using Cons.prems by auto
    have s: "strstr ((c # cs) @ 0 # q) f = bindC (strstr (cs @ 0 # q) f) (\<lambda>r. Inr (map_option Suc r))"
      using False prefix_at_zero [OF assms(2), of "c # cs" q] z(1) by simp
    have r: "replaced f r (c # cs) = c # replaced f r cs" using False by simp
    from Cons.IH [OF z(2)] show ?thesis
    proof (elim disjE exE conjE)
      assume n: "strstr (cs @ 0 # q) f = Inr None" "replaced f r cs = cs" "count_loop (cs @ 0 # q) f = Inr 0"
      have "strstr ((c # cs) @ 0 # q) f = Inr None" using s n(1) by simp
      moreover from this have "count_loop ((c # cs) @ 0 # q) f = Inr 0" using assms(1) by (subst count_loop.simps) simp
      ultimately show ?thesis using r n(2) by simp
    next
      fix u v assume n: "cs = u @ f @ v" "strstr (cs @ 0 # q) f = Inr (Some (length u))" "replaced f r cs = u @ r @ replaced f r v"
      then show ?thesis using s r by (intro disjI2 exI [of _ "c # u"] exI [of _ v]) simp
    qed
  qed
qed


section \<open>The loop meets the specification\<close>

lemma strstr_zero_junk: "0 \<notin> set f \<Longrightarrow> strstr (s @ 0 # q) f = strstr (s @ 0 # q') f"
proof (induction s)
  case Nil
  show ?case using prefix_at_zero [OF Nil, of "[]"] by simp
next
  case (Cons c cs)
  show ?case
    using Cons.IH [OF Cons.prems] prefix_at_zero [OF Cons.prems, of "c # cs"] by simp
qed

lemma strlen_zero: "0 \<notin> set s \<Longrightarrow> strlen (s @ 0 # q) = Inr (length s)"
  by (simp add: strlen_terminated terminated_def cstring_append) (simp add: cstring_def)

lemma count_zero:
  assumes "f \<noteq> []" "0 \<notin> set f" "0 \<notin> set v"
  shows "count_loop (v @ 0 # q) f = count_loop (v @ 0 # q') f"
  using assms(3)
proof (induction "length v" arbitrary: v rule: less_induct)
  case less
  consider (none) "strstr (v @ 0 # q) f = Inr None" "strstr (v @ 0 # q') f = Inr None"
    | (some) u w where "v = u @ f @ w" "strstr (v @ 0 # q) f = Inr (Some (length u))" "strstr (v @ 0 # q') f = Inr (Some (length u))"
    using strstr_zero [OF assms(1,2) less.prems, of q "[]"] strstr_zero_junk [OF assms(2), of v q q'] by auto
  then show ?case
  proof cases
    case none
    then show ?thesis using assms(1) by (subst (1 2) count_loop.simps) simp
  next
    case some
    have "count_loop (w @ 0 # q) f = count_loop (w @ 0 # q') f"
      using less some(1) assms(1) by simp
    moreover have "drop (length u + length f) (v @ 0 # x) = w @ 0 # x" for x by (simp add: some(1))
    ultimately show ?thesis using some(2,3) by (subst (1 2) count_loop.simps) (simp del: drop_append)
  qed
qed

lemma replace_step:
  assumes z: "0 \<notin> set w" "0 \<notin> set f" "0 \<notin> set v" and b: "b = w @ f @ v @ 0 # q"
    and cap: "cap \<le> length b" "length w + length f + length v < cap" "length w + length r < cap"
  shows "(length w + length r + length v \<ge> cap \<and> make_room cap f r b (length w) = Inr None) \<or>
    (length w + length r + length v < cap \<and>
     (\<exists>b1 q'. make_room cap f r b (length w) = Inr (Some b1) \<and> blit b1 (length w) r = Inr (w @ r @ v @ 0 # q') \<and>
              length (w @ r @ v @ 0 # q') = length b))"
proof (cases "length r = length f")
  case True
  then have "make_room cap f r b (length w) = Inr (Some b)" "blit b (length w) r = Inr (w @ r @ v @ 0 # q)"
    by (simp_all add: make_room_def blit_def b)
  then show ?thesis using True cap(2) b by auto
next
  case False
  have s1: "strlen (drop (length w) b) = Inr (length f + length v)"
    using strlen_zero [of "f @ v" q] z by (simp add: b)
  have s2: "strlen b = Inr (length w + length f + length v)"
    using strlen_zero [of "w @ f @ v" q] z by (simp add: b)
  show ?thesis
  proof (cases "length w + length r + length v \<ge> cap")
    case True
    then have "make_room cap f r b (length w) = Inr None" using False s1 s2 by (simp add: make_room_def Let_def)
    then show ?thesis using True by blast
  next
    case fit: False
    have sl: "slice b (length w + length f) (length v + 1) = Inr (v @ [0])" by (simp add: slice_def b)
    let ?b1 = "take (length w + length r) b @ (v @ [0]) @ drop (length w + length r + length v + 1) b"
    have le: "length w + length r + length v + 1 \<le> length b" using fit cap(1) by simp
    have mr: "make_room cap f r b (length w) = Inr (Some ?b1)"
      using False s1 s2 sl fit le by (simp add: make_room_def Let_def blit_def add.assoc)
    have len: "length ?b1 = length b" using le by simp
    have "take (length w) ?b1 = w" using le by (simp add: b take_append)
    moreover have "drop (length w + length r) ?b1 = v @ 0 # drop (length w + length r + length v + 1) b"
      using le by simp
    ultimately have "blit ?b1 (length w) r = Inr (w @ r @ v @ 0 # drop (length w + length r + length v + 1) b)"
      using len le by (simp add: blit_def)
    then show ?thesis using mr fit le by auto
  qed
qed

lemma replace_loop_stop:
  "\<not> w + length r < cap \<or> make_room cap f r b w = Inr None \<Longrightarrow> replace_loop cap f r b (Some w) c = Some (Inr (c, b))"
  by (subst replace_loop.simps) auto

lemma replace_loop_go:
  assumes "w + length r < cap" "make_room cap f r b w = Inr (Some b1)" "blit b1 w r = Inr b2"
    and "strstr (drop (w + length r) b2) f = Inr k"
  shows "replace_loop cap f r b (Some w) c = replace_loop cap f r b2 (map_option (\<lambda>k. w + length r + k) k) (c + 1)"
  using assms by (subst replace_loop.simps) simp

lemma replaced_overflow:
  assumes "cap \<le> w + length r + length v" "w + length f + length v < cap"
  shows "\<not> w + length r + length (replaced f r v) < cap"
proof (cases "length f \<le> length r")
  case True
  then show ?thesis using replaced_longer [OF True, of v] assms(1) by simp
qed (use assms in simp)

lemma count_step:
  assumes "f \<noteq> []" "0 \<notin> set f" "0 \<notin> set v" "strstr ((u @ f @ v) @ 0 # q) f = Inr (Some (length u))"
    and "count_loop (v @ 0 # q') f = Inr n"
  shows "count_loop ((u @ f @ v) @ 0 # q) f = Inr (Suc n)"
  using assms count_zero [OF assms(1-3), of q q'] by (subst count_loop.simps) simp

text \<open>What the loop makes of the string \<^term>\<open>s\<close> between the finished part \<^term>\<open>p\<close> and the rest \<^term>\<open>q\<close> of the buffer, after \<^term>\<open>c\<close>
  replacements: the length of the buffer stays, the result is a string shorter than the capacity, and when the replaced string
  has room it is the result and every occurrence is counted.\<close>

definition replace_outcome :: "nat \<Rightarrow> bytes \<Rightarrow> bytes \<Rightarrow> bytes \<Rightarrow> bytes \<Rightarrow> bytes \<Rightarrow> nat \<Rightarrow> (nat \<times> bytes) cres option \<Rightarrow> bool" where
  "replace_outcome cap f r p s q c res \<longleftrightarrow>
     (\<exists>n s' q'. res = Some (Inr (c + n, p @ s' @ 0 # q')) \<and> 0 \<notin> set s' \<and> length (s' @ q') = length (s @ q) \<and>
        length p + length s' < cap \<and>
        (length p + length (replaced f r s) < cap \<longrightarrow> s' = replaced f r s \<and> count_loop (s @ 0 # q) f = Inr n))"

lemma replace_outcome_stop:
  assumes "0 \<notin> set s" "length p + length s < cap"
    and "length p + length (replaced f r s) < cap \<longrightarrow> replaced f r s = s \<and> count_loop (s @ 0 # q) f = Inr 0"
  shows "replace_outcome cap f r p s q c (Some (Inr (c, p @ s @ 0 # q)))"
  using assms unfolding replace_outcome_def by (intro exI [of _ 0] exI [of _ s] exI [of _ q]) auto

lemma replace_outcome_step:
  assumes f: "f \<noteq> []" "0 \<notin> set f" and r: "0 \<notin> set r" and z: "0 \<notin> set u" "0 \<notin> set v"
    and s: "strstr ((u @ f @ v) @ 0 # q) f = Inr (Some (length u))" "replaced f r (u @ f @ v) = u @ r @ replaced f r v"
    and len: "length (r @ v @ q') = length (f @ v @ q)"
    and out: "replace_outcome cap f r (p @ u @ r) v q' (c + 1) res"
  shows "replace_outcome cap f r p (u @ f @ v) q c res"
proof -
  obtain n s' q'' where l: "res = Some (Inr (c + 1 + n, (p @ u @ r) @ s' @ 0 # q''))" "0 \<notin> set s'" "length (s' @ q'') = length (v @ q')"
    "length (p @ u @ r) + length s' < cap"
    "length (p @ u @ r) + length (replaced f r v) < cap \<longrightarrow> s' = replaced f r v \<and> count_loop (v @ 0 # q') f = Inr n"
    using out unfolding replace_outcome_def by blast
  have "count_loop ((u @ f @ v) @ 0 # q) f = Inr (Suc n)" if "count_loop (v @ 0 # q') f = Inr n"
    using count_step [OF f z(2) s(1) that] .
  then show ?thesis
    unfolding replace_outcome_def using l len r s(2) z(1)
    by (intro exI [of _ "Suc n"] exI [of _ "u @ r @ s'"] exI [of _ q'']) auto
qed

lemma replace_loop_spec:
  assumes f: "f \<noteq> []" "0 \<notin> set f" and r: "0 \<notin> set r"
    and "0 \<notin> set p" "0 \<notin> set s" "b = p @ s @ 0 # q" "cap \<le> length b" "length p + length s < cap"
    and "strstr (s @ 0 # q) f = Inr k"
  shows "replace_outcome cap f r p s q c (replace_loop cap f r b (map_option (\<lambda>k. length p + k) k) c)"
  using assms(4-)
proof (induction "length s" arbitrary: s p b q k c rule: less_induct)
  case less
  note IH = less.hyps and P = less.prems
  consider (none) "k = None" "replaced f r s = s" "count_loop (s @ 0 # q) f = Inr 0"
    | (some) u v where "s = u @ f @ v" "k = Some (length u)" "replaced f r s = u @ r @ replaced f r v"
    using strstr_zero [OF f P(2), of q r] P(6) by auto
  then show ?case
  proof cases
    case none
    then have "replace_loop cap f r b (map_option (\<lambda>k. length p + k) k) c = Some (Inr (c, p @ s @ 0 # q))"
      using P(3) by (subst replace_loop.simps) simp
    then show ?thesis using replace_outcome_stop [OF P(2,5)] none(2,3) by simp
  next
    case some
    let ?w = "p @ u" and ?loop = "replace_loop cap f r b (Some (length (p @ u))) c"
    have loop: "replace_loop cap f r b (map_option (\<lambda>k. length p + k) k) c = ?loop" by (simp add: some(2))
    have lw: "length p + length (replaced f r s) = length ?w + length r + length (replaced f r v)" by (simp add: some(3))
    have stop: ?thesis if "?loop = Some (Inr (c, b))" "\<not> length p + length (replaced f r s) < cap"
      using replace_outcome_stop [OF P(2,5), of f r q c] that P(3) loop by simp
    have z: "0 \<notin> set ?w" "0 \<notin> set v" using P(1,2) some(1) by auto
    have bw: "b = ?w @ f @ v @ 0 # q" and sz: "length ?w + length f + length v < cap" using P(3,5) some(1) by simp_all
    consider (small) "\<not> length ?w + length r < cap"
      | (full) "cap \<le> length ?w + length r + length v" "make_room cap f r b (length ?w) = Inr None"
      | (fit) b1 q' where "length ?w + length r < cap" "length ?w + length r + length v < cap"
          "make_room cap f r b (length ?w) = Inr (Some b1)" "blit b1 (length ?w) r = Inr (?w @ r @ v @ 0 # q')"
          "length (?w @ r @ v @ 0 # q') = length b"
      using replace_step [OF z(1) f(2) z(2) bw P(4) sz] by blast
    then show ?thesis
    proof cases
      case small
      then show ?thesis using stop replace_loop_stop lw by simp
    next
      case full
      then show ?thesis using stop replace_loop_stop replaced_overflow [OF full(1) sz] lw by simp
    next
      case fit
      let ?p = "p @ u @ r"
      obtain k' where k': "strstr (v @ 0 # q') f = Inr k'"
        using strstr_terminated [of "v @ 0 # q'" f] f(2) by (auto simp: terminated_def)
      have go: "?loop = replace_loop cap f r (?p @ v @ 0 # q') (map_option (\<lambda>k. length ?p + k) k') (c + 1)"
        using replace_loop_go [OF fit(1,3,4), of k' c] k' by (simp add: add.assoc)
      have sh: "length v < length s" and zp: "0 \<notin> set ?p" using f(1) some(1) z(1) r by simp_all
      have "replace_outcome cap f r ?p v q' (c + 1) ?loop"
        unfolding go using IH [OF sh zp z(2) refl _ _ k', of "c + 1"] fit(2,5) P(4) by simp
      then show ?thesis
        unfolding loop some(1) using replace_outcome_step [OF f r _ z(2)] z(1) P(6) some fit(5) bw by simp
    qed
  qed
qed


lemma replaced_shorter: "length r \<le> length f \<Longrightarrow> length (replaced f r s) \<le> length s"
proof (induction f r s rule: replaced.induct)
  case (2 f r c cs)
  show ?case
  proof (cases "f \<noteq> [] \<and> take (length f) (c # cs) = f")
    case True
    then have "length f \<le> length (c # cs)" by (metis length_take min.absorb_iff2 nat_le_linear take_all)
    then show ?thesis using "2.IH"(1) [OF True "2.prems"] "2.prems" True by simp
  next
    case False
    show ?thesis
      using "2.IH"(2) [OF False "2.prems"] unfolding replaced.simps if_not_P [OF False] by simp
  qed
qed simp

lemma terminated_split: "terminated b \<Longrightarrow> \<exists>q. b = cstring b @ 0 # q"
  by (induction b) (auto simp: cstring_def)


section \<open>Property\<close>

text \<open>
  C19. \<open>string_replace_all\<close> on a terminated string in a buffer of at least \<open>str_size\<close> bytes always ends, stays inside the
  buffer and leaves a terminated string shorter than \<open>str_size\<close>.  When the result fits, it is the
  string with all occurrences replaced from left to right, and the number returned is the one
  \<open>string_count_occurrences\<close> gives for the original; it always fits when the replacement is not longer than the
  text it replaces.
\<close>

theorem string_replace_all_correct:
  assumes "terminated b" "length (cstring b) < str_size" "str_size \<le> length b" "f \<noteq> []" "0 \<notin> set f" "0 \<notin> set r"
  shows "\<exists>n b'. string_replace_all (Some b) str_size (Some f) (Some r) = Some (Inr (int n, Some b')) \<and>
    length b' = length b \<and> terminated b' \<and> length (cstring b') < str_size \<and>
    (length (replaced f r (cstring b)) < str_size \<or> length r \<le> length f \<longrightarrow>
       cstring b' = replaced f r (cstring b) \<and> string_count_occurrences (Some b) (Some f) = Inr n)"
proof -
  obtain q where b: "b = cstring b @ 0 # q" using assms(1) terminated_split by blast
  have z: "0 \<notin> set (cstring b)" by (simp add: cstring_def) (metis (mono_tags) set_takeWhileD)
  obtain k where k: "strstr b f = Inr k" using strstr_terminated [OF assms(1,5)] by blast
  have lb: "length b = Suc (length (cstring b) + length q)" by (subst b) simp
  obtain n s' q' where l: "replace_loop str_size f r b k 0 = Some (Inr (n, s' @ 0 # q'))" "0 \<notin> set s'"
    "length (s' @ 0 # q') = length b" "length s' < str_size"
    "length (replaced f r (cstring b)) < str_size \<longrightarrow> s' = replaced f r (cstring b) \<and> count_loop b f = Inr n"
    using replace_loop_spec [OF assms(4-6), of "[]" "cstring b" b q str_size k 0] z b k assms(2,3) lb
    by (auto simp: replace_outcome_def map_option.identity [unfolded id_def])
  have c: "cstring (s' @ 0 # q') = s'" using l(2) by (simp add: cstring_append) (simp add: cstring_def)
  have "length (replaced f r (cstring b)) < str_size" if "length r \<le> length f"
    using replaced_shorter [OF that, of "cstring b"] assms(2) by simp
  then show ?thesis
    using l c k assms(2,4)
    by (intro exI [of _ n] exI [of _ "s' @ 0 # q'"])
      (auto simp: string_replace_all_def string_count_occurrences_def terminated_def)
qed

definition sample_text :: bytes where
  "sample_text = lit ''a.b.c'' @ [0, 0, 0, 0]"

lemma sample_replaced: "replaced (lit ''.'') (lit ''--'') (cstring sample_text) = lit ''a--b--c''"
  by (simp add: sample_text_def lit_def cstring_def)

theorem string_replace_all_correct_witness:
  "\<exists>b'. string_replace_all (Some sample_text) 9 (Some (lit ''.'')) (Some (lit ''--'')) = Some (Inr (2, Some b')) \<and>
     cstring b' = lit ''a--b--c''"
proof -
  have t: "terminated sample_text" "length (cstring sample_text) < 9" "9 \<le> length sample_text" "lit ''.'' \<noteq> []"
    "0 \<notin> set (lit ''.'')" "0 \<notin> set (lit ''--'')"
    by (simp_all add: sample_text_def terminated_def lit_def cstring_def)
  have "count_loop [99, 0, 0, 0, 0] [46] = Inr 0" by (subst count_loop.simps) simp
  then have "count_loop [98, 46, 99, 0, 0, 0, 0] [46] = Inr 1" by (subst count_loop.simps) simp
  then have "string_count_occurrences (Some sample_text) (Some (lit ''.'')) = Inr 2"
    by (simp add: string_count_occurrences_def sample_text_def lit_def) (subst count_loop.simps, simp)
  moreover have "length (lit ''a--b--c'') < 9" by simp
  ultimately show ?thesis
    using string_replace_all_correct [OF t] by (auto simp: sample_replaced)
qed

end
