(* ===== verification/DaemonAlt.thy ===== *)
theory DaemonAlt
  imports Service Logging
begin

text \<open>
  \<open>src/service/daemon.c\<close>, the second implementation of the daemon functions.  The build compiles \<open>daemon_funcs.c\<close>
  (theory \<open>Service\<close>); this file defines the same functions with more signals, a double fork, the closing of
  every descriptor and a test for a running instance.  Its definitions carry the prefix \<open>daemon_\<close>.  The log output is
  kept in the signal handler, which changes the logging state, and left out elsewhere.
\<close>

section \<open>State\<close>

record daemon_state =
  ds_proc :: process
  ds_ignored :: "int set"  \<comment> \<open>signals that are ignored\<close>
  ds_cwd :: string
  ds_umask :: int
  ds_log :: logging_config_t

definition SIGHUP :: int where "SIGHUP = 1"
definition SIGUSR1 :: int where "SIGUSR1 = 10"
definition SIGPIPE :: int where "SIGPIPE = 13"

section \<open>Signals\<close>

definition ds_say :: "string \<Rightarrow> daemon_state \<Rightarrow> daemon_state cres" where
  "ds_say msg d = bindC (log_info msg (ds_log d)) (\<lambda>l. Inr (d\<lparr>ds_log := l\<rparr>))"

definition daemon_stop_running :: "daemon_state \<Rightarrow> daemon_state" where
  "daemon_stop_running d = d\<lparr>ds_proc := (ds_proc d)\<lparr>pr_running := False\<rparr>\<rparr>"

definition daemon_is_running :: "daemon_state \<Rightarrow> int" where
  "daemon_is_running d = (if pr_running (ds_proc d) then 1 else 0)"

definition daemon_signal_handler :: "int \<Rightarrow> daemon_state \<Rightarrow> daemon_state cres" where
  "daemon_signal_handler sig d =
     (if sig = SIGINT then bindC (ds_say ''Received SIGINT, shutting down gracefully'' d) (\<lambda>d.
        Inr (d\<lparr>ds_proc := (ds_proc d)\<lparr>pr_running := False\<rparr>\<rparr>))
      else if sig = SIGTERM then bindC (ds_say ''Received SIGTERM, shutting down gracefully'' d) (\<lambda>d.
        Inr (d\<lparr>ds_proc := (ds_proc d)\<lparr>pr_running := False\<rparr>\<rparr>))
      else if sig = SIGHUP then ds_say ''Received SIGHUP, reloading configuration'' d
      else if sig = SIGUSR1 then bindC (ds_say ''Received SIGUSR1, toggling debug mode'' d) (\<lambda>d.
        Inr (d\<lparr>ds_log := logging_set_debug (\<not> lg_debug_enabled (ds_log d)) (ds_log d)\<rparr>))
      else ds_say ''Received signal'' d)"

text \<open>\<open>ok sig\<close>: whether \<open>sigaction (sig, ...)\<close> succeeds; \<open>SIGPIPE\<close> is ignored at the end.\<close>

definition handle :: "int \<Rightarrow> daemon_state \<Rightarrow> daemon_state" where
  "handle sig d = d\<lparr>ds_proc := (ds_proc d)\<lparr>pr_handlers := insert sig (pr_handlers (ds_proc d))\<rparr>\<rparr>"

fun install_all :: "(int \<Rightarrow> bool) \<Rightarrow> int list \<Rightarrow> daemon_state \<Rightarrow> int \<times> daemon_state" where
  "install_all ok [] d = (0, d\<lparr>ds_ignored := insert SIGPIPE (ds_ignored d)\<rparr>)"
| "install_all ok (sig # sigs) d = (if \<not> ok sig then (-1, d) else install_all ok sigs (handle sig d))"

definition daemon_install_signal_handlers :: "(int \<Rightarrow> bool) \<Rightarrow> daemon_state \<Rightarrow> int \<times> daemon_state" where
  "daemon_install_signal_handlers ok d = install_all ok [SIGINT, SIGTERM, SIGHUP, SIGUSR1] d"

section \<open>Detaching\<close>

text \<open>\<open>for (fd = sysconf (_SC_OPEN_MAX); fd >= 0; fd--) close (fd)\<close>.\<close>

fun close_down :: "nat \<Rightarrow> fds \<Rightarrow> fds" where
  "close_down 0 t = snd (sys_close 0 t)"
| "close_down (Suc n) t = close_down n (snd (sys_close (Suc n) t))"

definition daemon_redirect :: "bool \<Rightarrow> process \<Rightarrow> process" where
  "daemon_redirect open_ok p =
     (let t = close_down (pr_open_max p) (pr_fds p);
          (fd, t1) = sys_open (pr_open_max p) open_ok ''/dev/null'' t
      in if fd \<noteq> -1
         then let t2 = snd (sys_dup2 (pr_open_max p) (nat fd) 0 t1);
                  t3 = snd (sys_dup2 (pr_open_max p) (nat fd) 1 t2);
                  t4 = snd (sys_dup2 (pr_open_max p) (nat fd) 2 t3)
              in p\<lparr>pr_fds := (if fd > 2 then snd (sys_close (nat fd) t4) else t4)\<rparr>
         else p\<lparr>pr_fds := t1\<rparr>)"

text \<open>\<open>None\<close>: the process exits, as both parents do.  The second child is not the leader of the session.\<close>

definition daemon_daemonize ::
  "fork_result \<Rightarrow> bool \<Rightarrow> fork_result \<Rightarrow> bool \<Rightarrow> bool \<Rightarrow> daemon_state \<Rightarrow> (int \<times> daemon_state) option" where
  "daemon_daemonize fork1 setsid_ok fork2 chdir_ok open_ok d =
     (case fork1 of
        ForkFailed \<Rightarrow> Some (-1, d)
      | ForkParent \<Rightarrow> None
      | ForkChild pid1 \<Rightarrow>
          (let d1 = d\<lparr>ds_proc := (ds_proc d)\<lparr>pr_pid := pid1\<rparr>\<rparr> in
           if \<not> setsid_ok then Some (-1, d1)
           else
             let d2 = d1\<lparr>ds_proc := (ds_proc d1)\<lparr>pr_session_leader := True\<rparr>\<rparr> in
             case fork2 of
               ForkFailed \<Rightarrow> Some (-1, d2)
             | ForkParent \<Rightarrow> None
             | ForkChild pid2 \<Rightarrow>
                 (let d3 = d2\<lparr>ds_proc := (ds_proc d2)\<lparr>pr_pid := pid2, pr_session_leader := False\<rparr>\<rparr> in
                  if \<not> chdir_ok then Some (-1, d3)
                  else Some (0, d3\<lparr>ds_proc := daemon_redirect open_ok (ds_proc d3), ds_cwd := ''/'', ds_umask := 0\<rparr>))))"

section \<open>The PID file\<close>

text \<open>\<open>fopen_r\<close>, \<open>fopen_w\<close>: whether the file can be opened; \<open>fscanf_ok\<close>: whether it starts with a number;
  \<open>alive pid\<close>: whether \<open>kill (pid, 0)\<close> succeeds.\<close>

definition daemon_create_pid_file ::
  "bool \<Rightarrow> bool \<Rightarrow> (int \<Rightarrow> bool) \<Rightarrow> bool \<Rightarrow> string option \<Rightarrow> process \<Rightarrow> int \<times> process" where
  "daemon_create_pid_file fopen_r fscanf_ok alive fopen_w pidfile p =
     (case pidfile of None \<Rightarrow> (-1, p)
      | Some f \<Rightarrow>
          let running = (case pr_files p f of None \<Rightarrow> False
                         | Some existing_pid \<Rightarrow> fopen_r \<and> fscanf_ok \<and> alive existing_pid) in
          if running then (-1, p)
          else if \<not> fopen_w then (-1, p)
          else (0, p\<lparr>pr_files := (pr_files p)(f \<mapsto> pr_pid p)\<rparr>))"

text \<open>\<open>unlink_ok\<close>: whether the file, if it is there, can be unlinked.\<close>

definition daemon_remove_pid_file :: "bool \<Rightarrow> string option \<Rightarrow> process \<Rightarrow> int \<times> process" where
  "daemon_remove_pid_file unlink_ok pidfile p =
     (case pidfile of None \<Rightarrow> (-1, p) | Some f \<Rightarrow> remove_pid_file unlink_ok f p)"

section \<open>Properties\<close>

lemma close_down_eq: "close_down n t fd = (if fd \<le> n then None else t fd)"
  by (induction n arbitrary: t) auto

lemma daemon_redirect_fds:
  assumes "3 \<le> pr_open_max p"
  shows "pr_fds (daemon_redirect True p) fd =
    (if fd < 3 then Some ''/dev/null'' else if fd \<le> pr_open_max p then None else pr_fds p fd)"
proof -
  have l: "lowest_free (pr_open_max p) (close_down (pr_open_max p) (pr_fds p)) = Some 0"
    using assms by (auto simp: lowest_free_iff close_down_eq)
  have "fd < 3 \<longleftrightarrow> fd = 0 \<or> fd = 1 \<or> fd = 2" by auto
  then show ?thesis
    using assms by (auto simp: daemon_redirect_def Let_def sys_open_def sys_dup2_def l close_down_eq)
qed

lemma daemon_redirect_leader [simp]: "pr_session_leader (daemon_redirect ok p) = pr_session_leader p"
  by (simp add: daemon_redirect_def Let_def split: prod.split)

lemma log_info_ready:
  "log_ready lg \<Longrightarrow> \<exists>lg'. log_info m lg = Inr lg' \<and> log_ready lg' \<and> lg_debug_enabled lg' = lg_debug_enabled lg"
  by (simp add: log_info_def log_message_ready log_ready_def)

lemma ds_say_ready:
  assumes "log_ready (ds_log d)"
  obtains l where "ds_say m d = Inr (d\<lparr>ds_log := l\<rparr>)" "log_ready l" "lg_debug_enabled l = lg_debug_enabled (ds_log d)"
  using log_info_ready [OF assms, of m] by (auto simp: ds_say_def)

lemma signal_step:
  assumes "log_ready (ds_log d)"
  shows "\<exists>d'. daemon_signal_handler sig d = Inr d' \<and> log_ready (ds_log d') \<and>
    daemon_is_running d' = (if sig \<in> {SIGINT, SIGTERM} then 0 else daemon_is_running d) \<and>
    lg_debug_enabled (ds_log d') = (lg_debug_enabled (ds_log d) \<noteq> (sig = SIGUSR1))"
proof -
  have ne: "SIGUSR1 \<noteq> SIGINT" "SIGUSR1 \<noteq> SIGTERM" "SIGUSR1 \<noteq> SIGHUP" "SIGHUP \<noteq> SIGINT" "SIGHUP \<noteq> SIGTERM" "SIGTERM \<noteq> SIGINT"
    by (simp_all add: SIGUSR1_def SIGINT_def SIGTERM_def SIGHUP_def)
  define m where "m = (if sig = SIGINT then ''Received SIGINT, shutting down gracefully''
    else if sig = SIGTERM then ''Received SIGTERM, shutting down gracefully''
    else if sig = SIGHUP then ''Received SIGHUP, reloading configuration''
    else if sig = SIGUSR1 then ''Received SIGUSR1, toggling debug mode'' else ''Received signal'')"
  obtain l where l: "ds_say m d = Inr (d\<lparr>ds_log := l\<rparr>)" "log_ready l" "lg_debug_enabled l = lg_debug_enabled (ds_log d)"
    using assms by (rule ds_say_ready)
  let ?d = "d\<lparr>ds_log := if sig = SIGUSR1 then logging_set_debug (\<not> lg_debug_enabled l) l else l,
    ds_proc := if sig \<in> {SIGINT, SIGTERM} then (ds_proc d)\<lparr>pr_running := False\<rparr> else ds_proc d\<rparr>"
  have "daemon_signal_handler sig d = Inr ?d"
    using l(1) ne by (auto simp: daemon_signal_handler_def m_def split: if_splits)
  moreover have "log_ready (ds_log ?d)" using l(2) by (simp add: log_ready_def logging_set_debug_def)
  moreover have "daemon_is_running ?d = (if sig \<in> {SIGINT, SIGTERM} then 0 else daemon_is_running d)"
    by (simp add: daemon_is_running_def)
  moreover have "lg_debug_enabled (ds_log ?d) = (lg_debug_enabled (ds_log d) \<noteq> (sig = SIGUSR1))"
    using l(3) by (simp add: logging_set_debug_def)
  ultimately show ?thesis by blast
qed

text \<open>The signals that arrive, in order.\<close>

fun daemon_signals :: "int list \<Rightarrow> daemon_state \<Rightarrow> daemon_state cres" where
  "daemon_signals [] d = Inr d"
| "daemon_signals (sig # sigs) d = bindC (daemon_signal_handler sig d) (daemon_signals sigs)"

text \<open>
  The signal handler of \<open>daemon.c\<close>, for any sequence of signals while the log stream is there: the program keeps
  running unless a \<open>SIGINT\<close> or \<open>SIGTERM\<close> was among them, in whatever order, and the debug flag is toggled by every
  \<open>SIGUSR1\<close> and by nothing else.
\<close>

theorem daemon_signals_effect:
  assumes "log_ready (ds_log d)"
  shows "\<exists>d'. daemon_signals sigs d = Inr d' \<and> log_ready (ds_log d') \<and>
    daemon_is_running d' = (if SIGINT \<in> set sigs \<or> SIGTERM \<in> set sigs then 0 else daemon_is_running d) \<and>
    lg_debug_enabled (ds_log d') = (lg_debug_enabled (ds_log d) \<noteq> odd (count_list sigs SIGUSR1))"
  using assms
proof (induction sigs arbitrary: d)
  case (Cons sig sigs)
  obtain d1 where d1: "daemon_signal_handler sig d = Inr d1" "log_ready (ds_log d1)"
    "daemon_is_running d1 = (if sig \<in> {SIGINT, SIGTERM} then 0 else daemon_is_running d)"
    "lg_debug_enabled (ds_log d1) = (lg_debug_enabled (ds_log d) \<noteq> (sig = SIGUSR1))"
    using signal_step [OF Cons.prems] by blast
  from Cons.IH [OF d1(2)] obtain d2 where d2: "daemon_signals sigs d1 = Inr d2" "log_ready (ds_log d2)"
    "daemon_is_running d2 = (if SIGINT \<in> set sigs \<or> SIGTERM \<in> set sigs then 0 else daemon_is_running d1)"
    "lg_debug_enabled (ds_log d2) = (lg_debug_enabled (ds_log d1) \<noteq> odd (count_list sigs SIGUSR1))"
    by blast
  show ?case using d1 d2 by auto
qed simp

definition daemon0 :: daemon_state where
  "daemon0 = \<lparr>ds_proc = process0, ds_ignored = {}, ds_cwd = ''/root'', ds_umask = 18, ds_log = logging_config0\<rparr>"

theorem daemon_signals_effect_witness:
  "\<exists>d'. daemon_signals [SIGUSR1, SIGHUP, SIGTERM] daemon0 = Inr d' \<and> daemon_is_running d' = 0 \<and> lg_debug_enabled (ds_log d')"
  using daemon_signals_effect [of daemon0 "[SIGUSR1, SIGHUP, SIGTERM]"] log_ready0
  by (auto simp: daemon0_def logging_config0_def SIGUSR1_def SIGHUP_def SIGTERM_def SIGINT_def)

text \<open>
  The daemon of \<open>daemon.c\<close> is alone and detached.  Once \<open>create_pid_file\<close> succeeds the file holds the number of the
  process; while that process lives, every later process that can read the file is refused and changes nothing.  After
  \<open>daemonize\<close> succeeds in the second child, it does not lead its session, works in the root
  directory, and its only descriptors up to the limit are the three standard ones, on \<open>/dev/null\<close>; the
  descriptor of an open log file is among the closed ones.
\<close>

theorem daemon_alone_detached:
  assumes "daemon_create_pid_file fr fs alive fw (Some path) p = (0, p1)"
    and "pr_files q = pr_files p1" "alive' (pr_pid p)"
    and "daemon_daemonize (ForkChild c1) True (ForkChild c2) True True d = Some (0, d')" "3 \<le> pr_open_max (ds_proc d)"
  shows "pr_files p1 path = Some (pr_pid p) \<and> daemon_create_pid_file True True alive' fw' (Some path) q = (-1, q) \<and>
    \<not> pr_session_leader (ds_proc d') \<and> ds_cwd d' = ''/'' \<and>
    (\<forall>fd \<le> pr_open_max (ds_proc d). pr_fds (ds_proc d') fd = (if fd < 3 then Some ''/dev/null'' else None))"
proof -
  have "p1 = p\<lparr>pr_files := (pr_files p)(path \<mapsto> pr_pid p)\<rparr>"
    using assms(1) by (auto simp: daemon_create_pid_file_def Let_def split: if_splits option.splits)
  then have f: "pr_files p1 path = Some (pr_pid p)" by simp
  then have "daemon_create_pid_file True True alive' fw' (Some path) q = (-1, q)"
    using assms(2,3) by (simp add: daemon_create_pid_file_def)
  moreover have "\<not> pr_session_leader (ds_proc d') \<and> ds_cwd d' = ''/''"
    using assms(4) by (auto simp: daemon_daemonize_def Let_def)
  moreover have "pr_fds (ds_proc d') fd = (if fd < 3 then Some ''/dev/null'' else None)"
    if "fd \<le> pr_open_max (ds_proc d)" for fd
    using assms(4) that daemon_redirect_fds
      [of "(ds_proc d)\<lparr>pr_pid := c2, pr_session_leader := False\<rparr>" fd, simplified, OF assms(5)]
    by (auto simp: daemon_daemonize_def Let_def)
  ultimately show ?thesis using f by blast
qed

theorem daemon_alone_detached_witness:
  "\<exists>p1 d'. daemon_create_pid_file False True (\<lambda>_. True) True (Some ''/run/g.pid'') process0 = (0, p1) \<and>
     daemon_create_pid_file True True (\<lambda>pid. pid = 100) True (Some ''/run/g.pid'') (p1\<lparr>pr_pid := 200\<rparr>) = (-1, p1\<lparr>pr_pid := 200\<rparr>) \<and>
     daemon_daemonize (ForkChild 101) True (ForkChild 102) True True daemon0 = Some (0, d') \<and> pr_fds (ds_proc d') 5 = None"
proof -
  define p1 where "p1 = snd (daemon_create_pid_file False True (\<lambda>_. True) True (Some ''/run/g.pid'') process0)"
  have c: "daemon_create_pid_file False True (\<lambda>_. True) True (Some ''/run/g.pid'') process0 = (0, p1)"
    by (simp add: p1_def daemon_create_pid_file_def process0_def)
  obtain d' where d: "daemon_daemonize (ForkChild 101) True (ForkChild 102) True True daemon0 = Some (0, d')"
    by (simp add: daemon_daemonize_def Let_def)
  have "pr_pid process0 = 100" "3 \<le> pr_open_max (ds_proc daemon0)" "5 \<le> pr_open_max (ds_proc daemon0)"
    by (simp_all add: process0_def daemon0_def)
  then show ?thesis
    using daemon_alone_detached [OF c _ _ d, of "p1\<lparr>pr_pid := 200\<rparr>" "\<lambda>pid. pid = 100" True] c d by auto
qed

end
