(* ===== verification/UthashHashes.thy ===== *)
theory UthashHashes
  imports Uthash
begin

unbundle bit_operations_syntax

text \<open>
  The hash functions of \<open>src/utils/uthash.h\<close> as they read memory: \<open>HASH_BER\<close>, \<open>HASH_SAX\<close>, \<open>HASH_FNV\<close>, \<open>HASH_OAT\<close>,
  \<open>HASH_JEN\<close> (the default) and \<open>HASH_SFH\<close>.  The first argument is the memory from the key pointer to the end of the
  object it points into, the second the length the macro is given; a read behind the object is a fault.

  The table is modelled with \<^const>\<open>HASH_JEN\<close> on the list of the key's bytes.  Here the loop of the macro, with its
  pointer and its countdown, is shown to compute that function and to touch the key's bytes only, as the other
  functions that \<open>HASH_FUNCTION\<close> may be set to do.
\<close>

section \<open>The functions of one loop over the bytes\<close>

fun key_loop :: "(u32 \<Rightarrow> u8 \<Rightarrow> u32) \<Rightarrow> bytes \<Rightarrow> nat \<Rightarrow> nat \<Rightarrow> u32 \<Rightarrow> u32 cres" where
  "key_loop step key i 0 hashv = Inr hashv"
| "key_loop step key i (Suc n) hashv = bindC (rd key i) (\<lambda>b. key_loop step key (i + 1) n (step hashv b))"

definition ber_step :: "u32 \<Rightarrow> u8 \<Rightarrow> u32" where
  "ber_step hashv b = (push_bit 5 hashv + hashv) + ucast b"

definition HASH_BER :: "bytes \<Rightarrow> u32 \<Rightarrow> u32 cres" where
  "HASH_BER key keylen = key_loop ber_step key 0 (unat keylen) 0"

definition sax_step :: "u32 \<Rightarrow> u8 \<Rightarrow> u32" where
  "sax_step hashv b = hashv XOR (push_bit 5 hashv + drop_bit 2 hashv + ucast b)"

definition HASH_SAX :: "bytes \<Rightarrow> u32 \<Rightarrow> u32 cres" where
  "HASH_SAX key keylen = key_loop sax_step key 0 (unat keylen) 0"

definition fnv_step :: "u32 \<Rightarrow> u8 \<Rightarrow> u32" where
  "fnv_step hashv b = (hashv XOR ucast b) * 16777619"

definition HASH_FNV :: "bytes \<Rightarrow> u32 \<Rightarrow> u32 cres" where
  "HASH_FNV key keylen = key_loop fnv_step key 0 (unat keylen) 2166136261"

definition oat_step :: "u32 \<Rightarrow> u8 \<Rightarrow> u32" where
  "oat_step hashv b =
     (let hashv = hashv + ucast b;
          hashv = hashv + push_bit 10 hashv
      in hashv XOR drop_bit 6 hashv)"

definition oat_final :: "u32 \<Rightarrow> u32" where
  "oat_final hashv =
     (let hashv = hashv + push_bit 3 hashv;
          hashv = hashv XOR drop_bit 11 hashv
      in hashv + push_bit 15 hashv)"

definition HASH_OAT :: "bytes \<Rightarrow> u32 \<Rightarrow> u32 cres" where
  "HASH_OAT key keylen = bindC (key_loop oat_step key 0 (unat keylen) 0) (\<lambda>hashv. Inr (oat_final hashv))"

section \<open>The default function\<close>

text \<open>\<open>_hj_key[0] + ((unsigned)_hj_key[1] << 8) + ...\<close> at the current position of the key pointer.\<close>

definition jen_word :: "bytes \<Rightarrow> nat \<Rightarrow> u32 cres" where
  "jen_word key p =
     bindC (rd key p) (\<lambda>b0. bindC (rd key (p + 1)) (\<lambda>b1. bindC (rd key (p + 2)) (\<lambda>b2. bindC (rd key (p + 3)) (\<lambda>b3.
       Inr (ucast b0 + push_bit 8 (ucast b1) + push_bit 16 (ucast b2) + push_bit 24 (ucast b3))))))"

function jen_loop_at :: "bytes \<Rightarrow> nat \<Rightarrow> nat \<Rightarrow> u32 \<times> u32 \<times> u32 \<Rightarrow> (nat \<times> nat \<times> u32 \<times> u32 \<times> u32) cres" where
  "jen_loop_at key p k (i, j, hashv) =
     (if 12 \<le> k
      then bindC (jen_word key p) (\<lambda>w0. bindC (jen_word key (p + 4)) (\<lambda>w1. bindC (jen_word key (p + 8)) (\<lambda>w2.
             jen_loop_at key (p + 12) (k - 12) (HASH_JEN_MIX (i + w0, j + w1, hashv + w2)))))
      else Inr (p, k, i, j, hashv))"
  by pat_completeness auto
termination
  by (relation "measure (\<lambda>(key, p, k, s). k)") auto

declare jen_loop_at.simps [simp del]

text \<open>\<open>case c: x += (unsigned)_hj_key[c - 1] << sh;\<close> of the switch: all cases up to \<open>_hj_k\<close> are run, the largest first.\<close>

definition jen_case :: "bytes \<Rightarrow> nat \<Rightarrow> nat \<Rightarrow> nat \<Rightarrow> nat \<Rightarrow> u32 \<Rightarrow> u32 cres" where
  "jen_case key p k c sh x = (if c \<le> k then bindC (rd key (p + (c - 1))) (\<lambda>b. Inr (x + push_bit sh (ucast b))) else Inr x)"

definition HASH_JEN_at :: "bytes \<Rightarrow> u32 \<Rightarrow> u32 cres" where
  "HASH_JEN_at key keylen =
     bindC (jen_loop_at key 0 (unat keylen) (0x9e3779b9, 0x9e3779b9, 0xfeedbeef)) (\<lambda>(p, k, i, j, hashv).
     bindC (jen_case key p k 11 24 (hashv + keylen)) (\<lambda>hashv.
     bindC (jen_case key p k 10 16 hashv) (\<lambda>hashv.
     bindC (jen_case key p k 9 8 hashv) (\<lambda>hashv.
     bindC (jen_case key p k 8 24 j) (\<lambda>j.
     bindC (jen_case key p k 7 16 j) (\<lambda>j.
     bindC (jen_case key p k 6 8 j) (\<lambda>j.
     bindC (jen_case key p k 5 0 j) (\<lambda>j.
     bindC (jen_case key p k 4 24 i) (\<lambda>i.
     bindC (jen_case key p k 3 16 i) (\<lambda>i.
     bindC (jen_case key p k 2 8 i) (\<lambda>i.
     bindC (jen_case key p k 1 0 i) (\<lambda>i.
       Inr (snd (snd (HASH_JEN_MIX (i, j, hashv))))))))))))))))"

section \<open>The function of Paul Hsieh\<close>

definition get16bits :: "bytes \<Rightarrow> nat \<Rightarrow> u32 cres" where
  "get16bits key p =
     bindC (rd key (p + 1)) (\<lambda>b1. bindC (rd key p) (\<lambda>b0. Inr (push_bit 8 (ucast b1) + ucast b0)))"

definition sfh_mix :: "u32 \<Rightarrow> u32 \<Rightarrow> u32 \<Rightarrow> u32" where
  "sfh_mix lo hi hashv =
     (let hashv = hashv + lo;
          tmp = push_bit 11 hi XOR hashv;
          hashv = push_bit 16 hashv XOR tmp
      in hashv + drop_bit 11 hashv)"

fun sfh_loop :: "bytes \<Rightarrow> nat \<Rightarrow> nat \<Rightarrow> u32 \<Rightarrow> (nat \<times> u32) cres" where
  "sfh_loop key p 0 hashv = Inr (p, hashv)"
| "sfh_loop key p (Suc n) hashv =
     bindC (get16bits key p) (\<lambda>lo. bindC (get16bits key (p + 2)) (\<lambda>hi. sfh_loop key (p + 4) n (sfh_mix lo hi hashv)))"

definition sfh_tail3 :: "u32 \<Rightarrow> u8 \<Rightarrow> u32 \<Rightarrow> u32" where
  "sfh_tail3 lo b hashv =
     (let hashv = hashv + lo; hashv = hashv XOR push_bit 16 hashv; hashv = hashv XOR push_bit 18 (ucast b)
      in hashv + drop_bit 11 hashv)"

definition sfh_tail2 :: "u32 \<Rightarrow> u32 \<Rightarrow> u32" where
  "sfh_tail2 lo hashv =
     (let hashv = hashv + lo; hashv = hashv XOR push_bit 11 hashv in hashv + drop_bit 17 hashv)"

definition sfh_tail1 :: "u8 \<Rightarrow> u32 \<Rightarrow> u32" where
  "sfh_tail1 b hashv =
     (let hashv = hashv + ucast b; hashv = hashv XOR push_bit 10 hashv in hashv + drop_bit 1 hashv)"

definition sfh_rem :: "bytes \<Rightarrow> nat \<Rightarrow> u32 \<Rightarrow> u32 \<Rightarrow> u32 cres" where
  "sfh_rem key p r hashv =
     (if r = 3 then bindC (get16bits key p) (\<lambda>lo. bindC (rd key (p + 2)) (\<lambda>b. Inr (sfh_tail3 lo b hashv)))
      else if r = 2 then bindC (get16bits key p) (\<lambda>lo. Inr (sfh_tail2 lo hashv))
      else if r = 1 then bindC (rd key p) (\<lambda>b. Inr (sfh_tail1 b hashv))
      else Inr hashv)"

definition sfh_avalanche :: "u32 \<Rightarrow> u32" where
  "sfh_avalanche hashv =
     (let hashv = hashv XOR push_bit 3 hashv; hashv = hashv + drop_bit 5 hashv;
          hashv = hashv XOR push_bit 4 hashv; hashv = hashv + drop_bit 17 hashv;
          hashv = hashv XOR push_bit 25 hashv
      in hashv + drop_bit 6 hashv)"

definition HASH_SFH :: "bytes \<Rightarrow> u32 \<Rightarrow> u32 cres" where
  "HASH_SFH key keylen =
     bindC (sfh_loop key 0 (unat (drop_bit 2 keylen)) 0xcafebabe) (\<lambda>(p, hashv).
     bindC (sfh_rem key p (keylen AND 3) hashv) (\<lambda>hashv. Inr (sfh_avalanche hashv)))"

section \<open>The contract of a hash function\<close>

text \<open>It reads the bytes of the key, all of them and no others, and is a function of their list.\<close>

locale key_hash =
  fixes H :: "bytes \<Rightarrow> u32 \<Rightarrow> u32 cres" and hval :: "bytes \<Rightarrow> u32"
  assumes reads: "H key n = (if unat n \<le> length key then Inr (hval (take (unat n) key)) else Inl OutOfBounds)"
begin

lemma returns_iff: "(\<exists>v. H key n = Inr v) \<longleftrightarrow> unat n \<le> length key"
  by (simp add: reads)

lemma local_key: "unat n \<le> length key \<Longrightarrow> H (key @ rest) n = H key n"
  by (simp add: reads)

lemma whole_key: "length key < 2 ^ 32 \<Longrightarrow> H (key @ rest) (of_nat (length key)) = Inr (hval key)"
  by (simp add: reads unat_of_nat take_bit_nat_eq_self)

end

section \<open>The functions keep the contract\<close>

lemma key_loop_eq:
  "key_loop step key i n h =
     (if i + n \<le> length key \<or> n = 0 then Inr (foldl step h (take n (drop i key))) else Inl OutOfBounds)"
proof (induction n arbitrary: i h)
  case (Suc n)
  show ?case
  proof (cases "i < length key")
    case True
    then have "take (Suc n) (drop i key) = key ! i # take n (drop (i + 1) key)" by (simp add: Cons_nth_drop_Suc [symmetric])
    then show ?thesis using True by (auto simp: rd_def Suc.IH)
  qed (simp add: rd_def)
qed simp

interpretation ber: key_hash HASH_BER "foldl ber_step 0"
  by unfold_locales (auto simp: HASH_BER_def key_loop_eq)

interpretation sax: key_hash HASH_SAX "foldl sax_step 0"
  by unfold_locales (auto simp: HASH_SAX_def key_loop_eq)

interpretation fnv: key_hash HASH_FNV "foldl fnv_step 2166136261"
  by unfold_locales (auto simp: HASH_FNV_def key_loop_eq)

interpretation oat: key_hash HASH_OAT "\<lambda>key. oat_final (foldl oat_step 0 key)"
  by unfold_locales (auto simp: HASH_OAT_def key_loop_eq)

lemma jen_word_eq:
  "jen_word key p = (if p + 4 \<le> length key then Inr (key_word (drop p key) 0) else Inl OutOfBounds)"
  by (auto simp: jen_word_def key_word_def key_byte_def rd_def)

lemma key_word_take:
  assumes "q + 4 \<le> n" "p + n \<le> length key"
  shows "key_word (take n (drop p key)) q = key_word (drop (p + q) key) 0"
  using assms by (simp add: key_word_def key_byte_def add.assoc)

lemma jen_loop_at_eq:
  "p + k \<le> length key \<Longrightarrow> jen_loop s (take k (drop p key)) = ((i, j, h), rest) \<Longrightarrow>
   \<exists>p' k'. jen_loop_at key p k s = Inr (p', k', i, j, h) \<and> p' + k' = p + k \<and> k' < 12 \<and> rest = take k' (drop p' key)"
proof (induction key p k s arbitrary: rest rule: jen_loop_at.induct)
  case (1 key p k i0 j0 h0)
  show ?case
  proof (cases "12 \<le> k")
    case True
    let ?s = "HASH_JEN_MIX (i0 + key_word (drop p key) 0, j0 + key_word (drop (p + 4) key) 0, h0 + key_word (drop (p + 8) key) 0)"
    have w: "jen_word key p = Inr (key_word (drop p key) 0)" "jen_word key (p + 4) = Inr (key_word (drop (p + 4) key) 0)"
      "jen_word key (p + 8) = Inr (key_word (drop (p + 8) key) 0)"
      using True 1(2) by (simp_all add: jen_word_eq)
    have "key_word (take k (drop p key)) 0 = key_word (drop p key) 0"
      "key_word (take k (drop p key)) 4 = key_word (drop (p + 4) key) 0"
      "key_word (take k (drop p key)) 8 = key_word (drop (p + 8) key) 0"
      using True 1(2) key_word_take [of 0 k p key] key_word_take [of 4 k p key] key_word_take [of 8 k p key] by simp_all
    then have e: "jen_loop ?s (take (k - 12) (drop (p + 12) key)) = ((i, j, h), rest)"
      using 1(3) True 1(2) by (simp add: jen_loop.simps drop_take add.commute)
    have l: "jen_loop_at key p k (i0, j0, h0) = jen_loop_at key (p + 12) (k - 12) ?s"
      using True w by (simp add: jen_loop_at.simps)
    have "p + 12 + (k - 12) \<le> length key" using True 1(2) by simp
    from 1(1) [OF True w this e] show ?thesis using True unfolding l by simp
  next
    case False
    then show ?thesis using 1(2,3) by (simp add: jen_loop_at.simps jen_loop.simps)
  qed
qed

lemma jen_loop_at_oob:
  "length key < p + k \<Longrightarrow> p \<le> length key \<Longrightarrow>
   jen_loop_at key p k s = Inl OutOfBounds \<or>
   (\<exists>p' k' s'. jen_loop_at key p k s = Inr (p', k', s') \<and> p' + k' = p + k \<and> p' \<le> length key \<and> k' < 12)"
proof (induction key p k s rule: jen_loop_at.induct)
  case (1 key p k i j h)
  then show ?case
  proof (cases "12 \<le> k \<and> p + 12 \<le> length key")
    case True
    let ?s = "HASH_JEN_MIX (i + key_word (drop p key) 0, j + key_word (drop (p + 4) key) 0, h + key_word (drop (p + 8) key) 0)"
    have l: "jen_loop_at key p k (i, j, h) = jen_loop_at key (p + 12) (k - 12) ?s"
      using True by (simp add: jen_loop_at.simps jen_word_eq)
    have w: "12 \<le> k" "jen_word key p = Inr (key_word (drop p key) 0)" "jen_word key (p + 4) = Inr (key_word (drop (p + 4) key) 0)"
      "jen_word key (p + 8) = Inr (key_word (drop (p + 8) key) 0)" "length key < p + 12 + (k - 12)" "p + 12 \<le> length key"
      using True 1(2) by (simp_all add: jen_word_eq)
    show ?thesis using 1(1) [OF w] True unfolding l by simp
  qed (auto simp: jen_loop_at.simps jen_word_eq)
qed

lemma jen_case_eq:
  assumes "p + k \<le> length key" "0 < c"
  shows "jen_case key p k c sh x = Inr (x + key_byte (take k (drop p key)) (c - 1) sh)"
  using assms by (auto simp: jen_case_def key_byte_def rd_def)

lemma HASH_JEN_at_in:
  assumes "unat n \<le> length key"
  shows "HASH_JEN_at key n = Inr (HASH_JEN (take (unat n) key))"
proof -
  let ?key = "take (unat n) key"
  obtain i j h rest where j: "jen_loop (0x9e3779b9, 0x9e3779b9, 0xfeedbeef) ?key = ((i, j, h), rest)"
    by (metis prod.exhaust)
  obtain p k where l: "jen_loop_at key 0 (unat n) (0x9e3779b9, 0x9e3779b9, 0xfeedbeef) = Inr (p, k, i, j, h)"
    "p + k = unat n" "rest = take k (drop p key)"
    using jen_loop_at_eq [of 0 "unat n" key "(0x9e3779b9, 0x9e3779b9, 0xfeedbeef)" i j h rest] j assms by auto
  have b: "p + k \<le> length key" using l(2) assms by simp
  show ?thesis
    using assms by (simp add: HASH_JEN_at_def HASH_JEN_def l(1) j jen_case_eq [OF b] l(3) Let_def)
qed

lemma HASH_JEN_at_out:
  assumes "length key < unat n"
  shows "HASH_JEN_at key n = Inl OutOfBounds"
proof -
  let ?s = "(0x9e3779b9, 0x9e3779b9, 0xfeedbeef) :: u32 \<times> u32 \<times> u32"
  consider "jen_loop_at key 0 (unat n) ?s = Inl OutOfBounds"
    | p k i j h where "jen_loop_at key 0 (unat n) ?s = Inr (p, k, i, j, h)" "length key < p + k" "p \<le> length key" "k < 12"
    using jen_loop_at_oob [of key 0 "unat n" ?s] assms by auto
  then show ?thesis
  proof cases
    case 2
    have r: "rd key (p + (k - 1)) = Inl OutOfBounds" using 2(2) by (auto simp: rd_def)
    have "0 < k" using 2(2,3) by simp
    then have "k \<in> {1, 2, 3, 4, 5, 6, 7, 8, 9, 10, 11}" using 2(4) unfolding insert_iff empty_iff by presburger
    then show ?thesis using r by (elim insertE) (simp_all add: HASH_JEN_at_def 2(1) jen_case_def)
  qed (simp add: HASH_JEN_at_def)
qed

interpretation jen: key_hash HASH_JEN_at HASH_JEN
  by unfold_locales (simp add: HASH_JEN_at_in HASH_JEN_at_out)

text \<open>The last function on the list of the bytes.\<close>

definition pair16 :: "u8 \<Rightarrow> u8 \<Rightarrow> u32" where
  "pair16 b0 b1 = push_bit 8 (ucast b1) + ucast b0"

fun sfh_list :: "u32 \<Rightarrow> bytes \<Rightarrow> u32" where
  "sfh_list h (a # b # c # d # xs) = sfh_list (sfh_mix (pair16 a b) (pair16 c d) h) xs"
| "sfh_list h [a, b, c] = sfh_tail3 (pair16 a b) c h"
| "sfh_list h [a, b] = sfh_tail2 (pair16 a b) h"
| "sfh_list h [a] = sfh_tail1 a h"
| "sfh_list h [] = h"

lemma get16bits_eq:
  "get16bits key p = (if p + 2 \<le> length key then Inr (pair16 (key ! p) (key ! (p + 1))) else Inl OutOfBounds)"
  by (auto simp: get16bits_def pair16_def rd_def)

lemma take_drop_nths:
  "p < length key \<Longrightarrow> take 1 (drop p key) = [key ! p]"
  "p + 2 \<le> length key \<Longrightarrow> take 2 (drop p key) = [key ! p, key ! (p + 1)]"
  "p + 3 \<le> length key \<Longrightarrow> take 3 (drop p key) = [key ! p, key ! (p + 1), key ! (p + 2)]"
  by (simp_all add: Cons_nth_drop_Suc [symmetric] numeral_eq_Suc)

lemma sfh_rem_eq:
  assumes "unat r < 4"
  shows "sfh_rem key p r h =
    (if p + unat r \<le> length key \<or> r = 0 then Inr (sfh_list h (take (unat r) (drop p key))) else Inl OutOfBounds)"
proof -
  have "unat r = 0 \<or> unat r = 1 \<or> unat r = 2 \<or> unat r = 3" using assms by presburger
  then have "r \<in> {0, 1, 2, 3}" by (simp add: word_unat_eq_iff)
  then show ?thesis
    by (elim insertE) (auto simp: sfh_rem_def get16bits_eq rd_def take_drop_nths simp del: One_nat_def)
qed

lemma sfh_loop_eq:
  assumes "unat r < 4"
  shows "bindC (sfh_loop key p n h) (\<lambda>(p, h). sfh_rem key p r h) =
    (if p + (4 * n + unat r) \<le> length key \<or> 4 * n + unat r = 0 then Inr (sfh_list h (take (4 * n + unat r) (drop p key)))
     else Inl OutOfBounds)"
proof (induction n arbitrary: p h)
  case 0
  then show ?case using sfh_rem_eq [OF assms, of key p h] by (simp add: unat_eq_zero)
next
  case (Suc n)
  show ?case
  proof (cases "p + 4 \<le> length key")
    case True
    then have "take (4 * Suc n + unat r) (drop p key) =
        key ! p # key ! (p + 1) # key ! (p + 2) # key ! (p + 3) # take (4 * n + unat r) (drop (p + 4) key)"
      by (simp add: Cons_nth_drop_Suc [symmetric] numeral_eq_Suc)
    then show ?thesis using True Suc.IH [of "p + 4"] by (simp add: get16bits_eq eval_nat_numeral)
  qed (auto simp: get16bits_eq)
qed

lemma unat_and_3: "unat (n AND 3 :: u32) = unat n mod 4"
proof -
  have "n AND 3 = take_bit 2 n" by (simp add: take_bit_eq_mask mask_eq_exp_minus_1)
  then have "unat (n AND 3) = take_bit 2 (unat n)" by (simp only: unsigned_take_bit_eq)
  then show ?thesis by (simp add: take_bit_eq_mod)
qed

interpretation sfh: key_hash HASH_SFH "\<lambda>key. sfh_avalanche (sfh_list 0xcafebabe key)"
proof
  fix key and n :: u32
  have r: "unat (n AND 3) = unat n mod 4" and q: "unat (drop_bit 2 n) = unat n div 4"
    by (simp_all add: unat_and_3 drop_bit_eq_div unat_div_distrib)
  have "4 * (unat n div 4) + unat n mod 4 = unat n" by simp
  then show "HASH_SFH key n =
      (if unat n \<le> length key then Inr (sfh_avalanche (sfh_list 0xcafebabe (take (unat n) key))) else Inl OutOfBounds)"
    using sfh_loop_eq [of "n AND 3" key 0 "unat n div 4" "0xcafebabe"] unfolding HASH_SFH_def r q
    by (auto simp: bindC_def split: sum.splits if_splits)
qed

section \<open>Mixing loses nothing\<close>

text \<open>The nine lines of the mixing step, three for each word.\<close>

definition mix_a :: "(u32 \<Rightarrow> u32) \<Rightarrow> u32 \<times> u32 \<times> u32 \<Rightarrow> u32 \<times> u32 \<times> u32" where
  "mix_a f = (\<lambda>(a, b, c). ((a - b - c) XOR f c, b, c))"

definition mix_b :: "(u32 \<Rightarrow> u32) \<Rightarrow> u32 \<times> u32 \<times> u32 \<Rightarrow> u32 \<times> u32 \<times> u32" where
  "mix_b f = (\<lambda>(a, b, c). (a, (b - c - a) XOR f a, c))"

definition mix_c :: "(u32 \<Rightarrow> u32) \<Rightarrow> u32 \<times> u32 \<times> u32 \<Rightarrow> u32 \<times> u32 \<times> u32" where
  "mix_c f = (\<lambda>(a, b, c). (a, b, (c - a - b) XOR f b))"

lemma xor_cancel: "(x XOR y) XOR y = (x :: u32)"
  by (simp add: xor.assoc)

lemma bij_mix [intro]: "bij (mix_a f)" "bij (mix_b f)" "bij (mix_c f)"
proof -
  show "bij (mix_a f)"
    by (rule o_bij [of "\<lambda>(a, b, c). ((a XOR f c) + c + b, b, c)"]) (auto simp: mix_a_def xor_cancel)
  show "bij (mix_b f)"
    by (rule o_bij [of "\<lambda>(a, b, c). (a, (b XOR f a) + a + c, c)"]) (auto simp: mix_b_def xor_cancel)
  show "bij (mix_c f)"
    by (rule o_bij [of "\<lambda>(a, b, c). (a, b, (c XOR f b) + b + a)"]) (auto simp: mix_c_def xor_cancel)
qed

lemma HASH_JEN_MIX_lines:
  "HASH_JEN_MIX = mix_c (drop_bit 15) \<circ> mix_b (push_bit 10) \<circ> mix_a (drop_bit 3) \<circ>
     mix_c (drop_bit 5) \<circ> mix_b (push_bit 16) \<circ> mix_a (drop_bit 12) \<circ>
     mix_c (drop_bit 13) \<circ> mix_b (push_bit 8) \<circ> mix_a (drop_bit 13)"
proof
  fix abc :: "u32 \<times> u32 \<times> u32"
  obtain a b c where abc: "abc = (a, b, c)" by (metis prod.exhaust)
  define a1 where "a1 = (a - b - c) XOR drop_bit 13 c"
  define b1 where "b1 = (b - c - a1) XOR push_bit 8 a1"
  define c1 where "c1 = (c - a1 - b1) XOR drop_bit 13 b1"
  define a2 where "a2 = (a1 - b1 - c1) XOR drop_bit 12 c1"
  define b2 where "b2 = (b1 - c1 - a2) XOR push_bit 16 a2"
  define c2 where "c2 = (c1 - a2 - b2) XOR drop_bit 5 b2"
  define a3 where "a3 = (a2 - b2 - c2) XOR drop_bit 3 c2"
  define b3 where "b3 = (b2 - c2 - a3) XOR push_bit 10 a3"
  define c3 where "c3 = (c2 - a3 - b3) XOR drop_bit 15 b3"
  note folds = a1_def [symmetric] b1_def [symmetric] c1_def [symmetric] a2_def [symmetric] b2_def [symmetric]
    c2_def [symmetric] a3_def [symmetric] b3_def [symmetric] c3_def [symmetric]
  have "HASH_JEN_MIX abc = (a3, b3, c3)"
    unfolding HASH_JEN_MIX_def abc Let_def [of "(a, b, c)"] prod.case by (simp only: Let_def folds cong: let_weak_cong)
  then show "HASH_JEN_MIX abc = (mix_c (drop_bit 15) \<circ> mix_b (push_bit 10) \<circ> mix_a (drop_bit 3) \<circ>
     mix_c (drop_bit 5) \<circ> mix_b (push_bit 16) \<circ> mix_a (drop_bit 12) \<circ>
     mix_c (drop_bit 13) \<circ> mix_b (push_bit 8) \<circ> mix_a (drop_bit 13)) abc"
    by (simp only: abc o_apply mix_a_def mix_b_def mix_c_def prod.case folds)
qed

lemma bij_HASH_JEN_MIX: "bij HASH_JEN_MIX"
  unfolding HASH_JEN_MIX_lines by (intro bij_comp bij_mix)

section \<open>Properties\<close>

text \<open>
  C30. Every hash function of \<open>uthash.h\<close> reads the bytes of the key, all of them and nothing else: it returns exactly when
  the memory at the key pointer holds as many bytes as it is told, whatever lies behind them makes no difference, and so
  equal keys have equal hash values.  The default one computes \<^const>\<open>HASH_JEN\<close> of the list of these bytes, and its
  mixing step is a bijection on its three words.
\<close>

theorem uthash_hash_reads:
  assumes "H \<in> {HASH_BER, HASH_SAX, HASH_FNV, HASH_OAT, HASH_JEN_at, HASH_SFH}"
  shows "((\<exists>v. H key n = Inr v) \<longleftrightarrow> unat n \<le> length key) \<and>
    (unat n \<le> length key \<longrightarrow> H (key @ rest) n = H key n \<and> HASH_JEN_at (key @ rest) n = Inr (HASH_JEN (take (unat n) key))) \<and>
    bij HASH_JEN_MIX"
proof (intro conjI impI)
  show "bij HASH_JEN_MIX" by (rule bij_HASH_JEN_MIX)
  show "(\<exists>v. H key n = Inr v) \<longleftrightarrow> unat n \<le> length key"
    using assms
    by (elim insertE)
      (simp_all add: ber.returns_iff sax.returns_iff fnv.returns_iff oat.returns_iff jen.returns_iff sfh.returns_iff)
  assume n: "unat n \<le> length key"
  then show "H (key @ rest) n = H key n"
    using assms
    by (elim insertE) (simp_all add: ber.local_key sax.local_key fnv.local_key oat.local_key jen.local_key sfh.local_key)
  show "HASH_JEN_at (key @ rest) n = Inr (HASH_JEN (take (unat n) key))" using n by (simp add: jen.reads)
qed

text \<open>The published value of the FNV-1a function for a one-byte key; the key pointer may lead into a longer object.\<close>

theorem uthash_hash_reads_witness:
  "HASH_FNV (lit ''a'') 1 = Inr 0xe40c292c \<and> HASH_FNV (lit ''a'' @ lit ''bc'') 1 = Inr 0xe40c292c \<and>
   \<not> (\<exists>v. HASH_SFH (lit ''a'') 2 = Inr v)"
proof -
  have v: "HASH_FNV (lit ''a'') 1 = Inr 0xe40c292c" by code_simp
  moreover have "HASH_FNV (lit ''a'' @ lit ''bc'') 1 = HASH_FNV (lit ''a'') 1"
    using uthash_hash_reads [of HASH_FNV "lit ''a''" 1 "lit ''bc''"] by (simp add: lit_def)
  moreover have "\<not> (\<exists>v. HASH_SFH (lit ''a'') 2 = Inr v)"
    using uthash_hash_reads [of HASH_SFH "lit ''a''" 2 "[]"] by (simp add: lit_def)
  ultimately show ?thesis by simp
qed

end
