(* ===== verification/UthashBloom.thy ===== *)
theory UthashBloom
  imports UthashTable
begin

text \<open>
  \<open>src/utils/uthash.h\<close> compiled with \<open>HASH_BLOOM\<close>: the table carries a bit vector with one bit per hash value modulo
  \<open>2 ^ HASH_BLOOM\<close>; an insertion sets the bit, a search looks at the bit before it walks the chain, a deletion leaves the bits
  alone.  The filter has no false negatives, so that searching answers as without it.
\<close>

section \<open>The macros\<close>

text \<open>\<^term>\<open>n\<close> is the setting \<open>HASH_BLOOM\<close>, kept in \<open>bloom_nbits\<close>.\<close>

definition HASH_BLOOM_BITLEN :: "nat \<Rightarrow> u64" where
  "HASH_BLOOM_BITLEN n = push_bit n 1"

definition HASH_BLOOM_BYTELEN :: "nat \<Rightarrow> u64" where
  "HASH_BLOOM_BYTELEN n = HASH_BLOOM_BITLEN n div 8 + (if HASH_BLOOM_BITLEN n mod 8 \<noteq> 0 then 1 else 0)"

definition HASH_BLOOM_MAKE :: "(size_t \<Rightarrow> bool) \<Rightarrow> nat \<Rightarrow> bytes ut" where
  "HASH_BLOOM_MAKE malloc n =
     (if \<not> malloc (HASH_BLOOM_BYTELEN n) then Some (Inl Exit_oom)
      else Some (Inr (replicate (unat (HASH_BLOOM_BYTELEN n)) 0)))"

definition HASH_BLOOM_BITSET :: "bytes \<Rightarrow> u32 \<Rightarrow> bytes cres" where
  "HASH_BLOOM_BITSET bv idx =
     bindC (rd bv (unat (idx div 8))) (\<lambda>b. wr bv (unat (idx div 8)) (b OR ucast (push_bit (unat (idx mod 8)) 1 :: u32)))"

definition HASH_BLOOM_BITTEST :: "bytes \<Rightarrow> u32 \<Rightarrow> u32 cres" where
  "HASH_BLOOM_BITTEST bv idx =
     bindC (rd bv (unat (idx div 8))) (\<lambda>b. Inr (ucast b AND push_bit (unat (idx mod 8)) 1))"

definition bloom_idx :: "nat \<Rightarrow> u32 \<Rightarrow> u32" where
  "bloom_idx n hashv = hashv AND ucast ((push_bit n 1 :: u64) - 1)"

definition HASH_BLOOM_ADD :: "nat \<Rightarrow> bytes \<Rightarrow> u32 \<Rightarrow> bytes cres" where
  "HASH_BLOOM_ADD n bv hashv = HASH_BLOOM_BITSET bv (bloom_idx n hashv)"

definition HASH_BLOOM_TEST :: "nat \<Rightarrow> bytes \<Rightarrow> u32 \<Rightarrow> u32 cres" where
  "HASH_BLOOM_TEST n bv hashv = HASH_BLOOM_BITTEST bv (bloom_idx n hashv)"

text \<open>The operations on a table with its vector.  \<open>HASH_MAKE_TABLE\<close> allocates the vector after the buckets; the table itself is
  the one of the configuration without the filter.  The three fields of the filter make the block of the table 16 bytes larger; as the
  allocator is any function of the size, the size that is passed to it for the table plays no part.\<close>

definition HASH_FIND_BYHASHVALUE_bloom :: "nat \<Rightarrow> bytes \<Rightarrow> u32 \<Rightarrow> u32 \<Rightarrow> ut_state \<times> bytes \<Rightarrow> addr option ut" where
  "HASH_FIND_BYHASHVALUE_bloom n key keylen hashval sb =
     (case sb of (s, bv) \<Rightarrow>
        case ut_head s of None \<Rightarrow> Some (Inr None)
        | Some _ \<Rightarrow> bindU (liftU (HASH_BLOOM_TEST n bv hashval)) (\<lambda>r.
            if r \<noteq> 0 then HASH_FIND_BYHASHVALUE key keylen hashval s else Some (Inr None)))"

definition HASH_FIND_bloom :: "nat \<Rightarrow> bytes \<Rightarrow> ut_state \<times> bytes \<Rightarrow> addr option ut" where
  "HASH_FIND_bloom n key sb =
     (case ut_head (fst sb) of None \<Rightarrow> Some (Inr None)
      | Some _ \<Rightarrow> HASH_FIND_BYHASHVALUE_bloom n key (of_nat (length key)) (HASH_JEN key) sb)"

definition HASH_ADD_bloom :: "(size_t \<Rightarrow> bool) \<Rightarrow> nat \<Rightarrow> bytes \<Rightarrow> addr \<Rightarrow> ut_state \<times> bytes \<Rightarrow> (ut_state \<times> bytes) ut" where
  "HASH_ADD_bloom malloc n key add sb =
     (case sb of (s, bv) \<Rightarrow>
        bindU (case ut_head s of
                 None \<Rightarrow> bindU (HASH_MAKE_TABLE malloc add) (\<lambda>_. HASH_BLOOM_MAKE malloc n)
               | Some _ \<Rightarrow> Some (Inr bv)) (\<lambda>bv1.
        bindU (HASH_ADD malloc key add s) (\<lambda>s'.
        bindU (liftU (HASH_BLOOM_ADD n bv1 (HASH_JEN key))) (\<lambda>bv2.
          Some (Inr (s', bv2))))))"

text \<open>\<open>HASH_BLOOM_FREE\<close> releases the vector with the table when the last element goes.\<close>

definition HASH_DELETE_bloom :: "addr \<Rightarrow> ut_state \<times> bytes \<Rightarrow> (ut_state \<times> bytes) ut" where
  "HASH_DELETE_bloom x sb =
     (case sb of (s, bv) \<Rightarrow> bindU (HASH_DELETE_HH x s) (\<lambda>s'. Some (Inr (s', if ut_head s' = None then [] else bv))))"

section \<open>The bit vector\<close>

definition marked :: "nat \<Rightarrow> bytes \<Rightarrow> u32 \<Rightarrow> bool" where
  "marked n bv hashv \<longleftrightarrow> bit (bv ! unat (bloom_idx n hashv div 8)) (unat (bloom_idx n hashv mod 8))"

lemma bloom_idx_take_bit:
  assumes "n \<le> 32"
  shows "bloom_idx n hashv = take_bit n hashv"
proof -
  have "(ucast ((push_bit n 1 :: u64) - 1) :: u32) = mask n"
    using assms by (intro bit_word_eqI) (auto simp: bit_simps simp flip: mask_eq_exp_minus_1)
  then show ?thesis by (simp add: bloom_idx_def take_bit_eq_mask)
qed

lemma bytelen_unat:
  assumes "n \<le> 32"
  shows "unat (HASH_BLOOM_BYTELEN n) = 2 ^ n div 8 + (if (2 ^ n :: nat) mod 8 \<noteq> 0 then 1 else 0)"
proof -
  have "(2::nat) ^ n < 2 ^ 64" using assms by (intro power_strict_increasing) auto
  then have "unat (of_nat (2 ^ n) :: u64) = 2 ^ n" by (simp only: unat_of_nat) simp
  then have b: "unat (HASH_BLOOM_BITLEN n) = 2 ^ n" by (simp add: HASH_BLOOM_BITLEN_def push_bit_eq_mult)
  have "(2::nat) ^ n \<le> 2 ^ 32" using assms by (intro power_increasing) auto
  then have "(2::nat) ^ n div 8 + 1 < 2 ^ 64" by (simp add: less_Suc_eq_le)
  moreover have "unat (HASH_BLOOM_BITLEN n div 8) = 2 ^ n div 8" using b by (simp add: unat_div)
  moreover have "HASH_BLOOM_BITLEN n mod 8 \<noteq> 0 \<longleftrightarrow> (2 ^ n :: nat) mod 8 \<noteq> 0"
    using b by (simp add: unat_mod flip: unat_eq_0)
  ultimately show ?thesis
    by (simp add: HASH_BLOOM_BYTELEN_def unat_word_ariths)
qed

lemma bloom_idx_bound:
  assumes "n \<le> 32"
  shows "unat (bloom_idx n hashv div 8) < unat (HASH_BLOOM_BYTELEN n)" "unat (bloom_idx n hashv mod 8) < 8"
proof -
  have "unat (bloom_idx n hashv) < 2 ^ n"
    using assms by (simp add: bloom_idx_take_bit unsigned_take_bit_eq)
  then have "unat (bloom_idx n hashv) div 8 < 2 ^ n div 8 + (if (2 ^ n :: nat) mod 8 \<noteq> 0 then 1 else 0)"
    by (auto simp: div_less_iff_less_mult mod_eq_0_iff_dvd)
  then show "unat (bloom_idx n hashv div 8) < unat (HASH_BLOOM_BYTELEN n)"
    using bytelen_unat [OF assms] by (simp add: unat_div)
qed (simp add: unat_mod)

lemma and_push_bit_1: "j < 8 \<Longrightarrow> (ucast (b :: u8) AND push_bit j 1 :: u32) \<noteq> 0 \<longleftrightarrow> bit b j"
proof -
  assume "j < 8"
  then have "(ucast b AND push_bit j 1 :: u32) = (if bit b j then push_bit j 1 else 0)"
    by (intro bit_word_eqI) (auto simp: bit_simps)
  moreover have "(push_bit j 1 :: u32) \<noteq> 0" using \<open>j < 8\<close> by (auto simp: push_bit_eq_mult)
  ultimately show ?thesis by simp
qed

lemma HASH_BLOOM_TEST_iff:
  assumes "n \<le> 32" "length bv = unat (HASH_BLOOM_BYTELEN n)"
  shows "\<exists>r. HASH_BLOOM_TEST n bv hashv = Inr r \<and> (r \<noteq> 0 \<longleftrightarrow> marked n bv hashv)"
  using bloom_idx_bound [OF assms(1), of hashv] assms(2) and_push_bit_1
  by (simp add: HASH_BLOOM_TEST_def HASH_BLOOM_BITTEST_def rd_def marked_def)

lemma HASH_BLOOM_ADD_marks:
  assumes "n \<le> 32" "length bv = unat (HASH_BLOOM_BYTELEN n)"
  shows "\<exists>bv'. HASH_BLOOM_ADD n bv hashv = Inr bv' \<and> length bv' = length bv \<and> marked n bv' hashv \<and>
    (\<forall>h. marked n bv h \<longrightarrow> marked n bv' h)"
proof -
  let ?i = "unat (bloom_idx n hashv div 8)" and ?j = "unat (bloom_idx n hashv mod 8)"
  let ?bv = "bv[?i := bv ! ?i OR ucast (push_bit ?j 1 :: u32)]"
  note i = bloom_idx_bound [OF assms(1), of hashv]
  have "HASH_BLOOM_ADD n bv hashv = Inr ?bv"
    using i assms(2) by (simp add: HASH_BLOOM_ADD_def HASH_BLOOM_BITSET_def rd_def wr_def)
  moreover have "marked n ?bv hashv" using i assms(2) by (simp add: marked_def bit_simps)
  moreover have "marked n ?bv h" if "marked n bv h" for h
    using that i assms(2) by (cases "unat (bloom_idx n h div 8) = ?i") (simp_all add: marked_def bit_simps)
  ultimately show ?thesis by auto
qed

section \<open>No false negatives\<close>

definition bloom_ok :: "nat \<Rightarrow> ut_state \<times> bytes \<Rightarrow> addr list \<Rightarrow> bool" where
  "bloom_ok n sb xs \<longleftrightarrow> ut_rep (fst sb) xs \<and>
     (xs \<noteq> [] \<longrightarrow> length (snd sb) = unat (HASH_BLOOM_BYTELEN n) \<and>
        (\<forall>x \<in> set xs. marked n (snd sb) (HASH_JEN (hh_key (ut_mem (fst sb)) x))))"

lemma HASH_FIND_bloom_eq:
  assumes "bloom_ok n (s, bv) xs" "n \<le> 32" "length key < 2 ^ 32"
  shows "HASH_FIND_bloom n key (s, bv) = HASH_FIND key s"
proof (cases "xs = []")
  case True
  then show ?thesis using assms(1) by (simp add: bloom_ok_def HASH_FIND_bloom_def HASH_FIND_def)
next
  case False
  have rep: "ut_rep s xs" using assms(1) by (simp add: bloom_ok_def)
  obtain h where h: "ut_head s = Some h" using ut_rep_head [OF rep] False by (cases xs) auto
  obtain r where r: "HASH_BLOOM_TEST n bv (HASH_JEN key) = Inr r" "r \<noteq> 0 \<longleftrightarrow> marked n bv (HASH_JEN key)"
    using HASH_BLOOM_TEST_iff [OF assms(2), of bv "HASH_JEN key"] assms(1) False by (auto simp: bloom_ok_def)
  have "HASH_FIND key s = Some (Inr None)" if "r = 0"
  proof (rule ut.find_absent [OF rep assms(3)])
    show "key \<notin> hh_key (ut_mem s) ` set xs" using that r(2) assms(1) False by (auto simp: bloom_ok_def)
  qed
  then show ?thesis
    using h r(1) by (cases "r = 0") (simp_all add: HASH_FIND_bloom_def HASH_FIND_BYHASHVALUE_bloom_def HASH_FIND_def)
qed

lemma HASH_ADD_bloom_ok:
  assumes ok: "bloom_ok n sb xs" and n: "n \<le> 32" and a: "a \<notin> set xs" and len: "length key < 2 ^ 32" "length xs + 1 < 2 ^ 32"
    and mb: "malloc_bounded malloc"
  shows "HASH_ADD_bloom malloc n key a sb = Some (Inl Exit_oom) \<or>
    (\<exists>sb'. HASH_ADD_bloom malloc n key a sb = Some (Inr sb') \<and> bloom_ok n sb' (xs @ [a]) \<and>
       HASH_ADD malloc key a (fst sb) = Some (Inr (fst sb')) \<and>
       hh_key (ut_mem (fst sb')) = (hh_key (ut_mem (fst sb)))(a := key))"
proof -
  obtain s bv where sb: "sb = (s, bv)" by fastforce
  have rep: "ut_rep s xs" using ok by (simp add: bloom_ok_def sb)
  let ?mk = "case ut_head s of None \<Rightarrow> bindU (HASH_MAKE_TABLE malloc a) (\<lambda>_. HASH_BLOOM_MAKE malloc n) | Some _ \<Rightarrow> Some (Inr bv)"
  have "?mk = Some (Inl Exit_oom) \<or> (\<exists>bv1. ?mk = Some (Inr bv1) \<and> length bv1 = unat (HASH_BLOOM_BYTELEN n) \<and>
      (\<forall>x \<in> set xs. marked n bv1 (HASH_JEN (hh_key (ut_mem s) x))))"
    using ok ut_rep_head [OF rep]
    by (cases xs) (auto simp: bloom_ok_def sb HASH_BLOOM_MAKE_def HASH_MAKE_TABLE_def)
  then show ?thesis
  proof (elim disjE exE conjE)
    assume "?mk = Some (Inl Exit_oom)"
    then show ?thesis by (simp add: HASH_ADD_bloom_def sb)
  next
    fix bv1 assume bv1: "?mk = Some (Inr bv1)" "length bv1 = unat (HASH_BLOOM_BYTELEN n)"
      "\<forall>x \<in> set xs. marked n bv1 (HASH_JEN (hh_key (ut_mem s) x))"
    obtain bv2 where bv2: "HASH_BLOOM_ADD n bv1 (HASH_JEN key) = Inr bv2" "length bv2 = length bv1"
      "marked n bv2 (HASH_JEN key)" "\<forall>h. marked n bv1 h \<longrightarrow> marked n bv2 h"
      using HASH_BLOOM_ADD_marks [OF n bv1(2)] by blast
    have eq: "HASH_ADD_bloom malloc n key a sb = bindU (HASH_ADD malloc key a s) (\<lambda>s'. Some (Inr (s', bv2)))"
      using bv1(1) bv2(1) by (simp add: HASH_ADD_bloom_def sb)
    from HASH_ADD_rep [OF rep a len mb] show ?thesis
    proof (elim disjE exE conjE)
      fix s' assume s': "HASH_ADD malloc key a s = Some (Inr s')" "ut_rep s' (xs @ [a])"
        "hh_key (ut_mem s') = (hh_key (ut_mem s))(a := key)"
      have "\<forall>x \<in> set (xs @ [a]). marked n bv2 (HASH_JEN (hh_key (ut_mem s') x))"
        using bv1(3) bv2(3,4) s'(3) a by auto
      then have "bloom_ok n (s', bv2) (xs @ [a])" using s'(2) bv2(2) bv1(2) by (simp add: bloom_ok_def)
      then show ?thesis using s'(1,3) eq by (simp add: sb)
    qed (simp add: eq)
  qed
qed

lemma HASH_DELETE_bloom_ok:
  assumes "bloom_ok n sb xs" "x \<in> set xs"
  shows "\<exists>sb'. HASH_DELETE_bloom x sb = Some (Inr sb') \<and> bloom_ok n sb' (remove1 x xs) \<and>
    hh_key (ut_mem (fst sb')) = hh_key (ut_mem (fst sb))"
proof -
  obtain s bv where sb: "sb = (s, bv)" by fastforce
  have rep: "ut_rep s xs" using assms(1) by (simp add: bloom_ok_def sb)
  obtain s' where s': "HASH_DELETE_HH x s = Some (Inr s')" "ut_rep s' (remove1 x xs)" "hh_key (ut_mem s') = hh_key (ut_mem s)"
    using HASH_DELETE_rep [OF rep assms(2)] by blast
  have "HASH_DELETE_bloom x sb = Some (Inr (s', if ut_head s' = None then [] else bv))"
    using s'(1) by (simp add: HASH_DELETE_bloom_def sb)
  moreover have "ut_head s' = None \<longleftrightarrow> remove1 x xs = []" using ut_rep_head [OF s'(2)] by (cases "remove1 x xs") auto
  moreover have "set (remove1 x xs) \<subseteq> set xs" by (rule set_remove1_subset)
  ultimately show ?thesis using s'(2,3) assms(1,2) by (auto simp: bloom_ok_def sb)
qed

text \<open>The table with the filter keeps the contract of a table of keyed elements, for every size of the filter.\<close>

definition bloom_rep :: "nat \<Rightarrow> ut_state \<times> bytes \<Rightarrow> addr list \<Rightarrow> bool" where
  "bloom_rep n sb xs \<longleftrightarrow> bloom_ok n sb xs \<and> n \<le> 32"

interpretation bl: keyed_table "bloom_rep n" "\<lambda>sb. hh_key (ut_mem (fst sb))" malloc_bounded "\<lambda>k. length k < 2 ^ 32" "2 ^ 32"
  "\<lambda>malloc. HASH_ADD_bloom malloc n" "HASH_FIND_bloom n" HASH_DELETE_bloom for n
proof unfold_locales
  fix sb xs assume "bloom_rep n sb xs"
  then show "distinct xs" by (simp add: bloom_rep_def bloom_ok_def ut_rep_def)
next
  fix sb xs a and k :: bytes and e
  assume "bloom_rep n sb xs" "a \<notin> set xs" "length k < 2 ^ 32" "length xs + 1 < 2 ^ 32" "malloc_bounded e"
  then show "HASH_ADD_bloom e n k a sb = Some (Inl Exit_oom) \<or>
      (\<exists>s'. HASH_ADD_bloom e n k a sb = Some (Inr s') \<and> bloom_rep n s' (xs @ [a]) \<and>
        hh_key (ut_mem (fst s')) = (hh_key (ut_mem (fst sb)))(a := k))"
    using HASH_ADD_bloom_ok [of n sb xs a k e] by (auto simp: bloom_rep_def)
next
  fix sb xs and k :: bytes assume r: "bloom_rep n sb xs" "length k < 2 ^ 32"
  then have "HASH_FIND_bloom n k sb = HASH_FIND k (fst sb)" "ut_rep (fst sb) xs"
    using HASH_FIND_bloom_eq [of n "fst sb" "snd sb" xs k] by (auto simp: bloom_rep_def bloom_ok_def)
  then show "\<exists>r. HASH_FIND_bloom n k sb = Some (Inr r) \<and>
      (case r of None \<Rightarrow> \<forall>x\<in>set xs. hh_key (ut_mem (fst sb)) x \<noteq> k | Some a \<Rightarrow> a \<in> set xs \<and> hh_key (ut_mem (fst sb)) a = k)"
    using HASH_FIND_rep [of "fst sb" xs k] r(2) by simp
next
  fix sb xs x assume "bloom_rep n sb xs" "x \<in> set xs"
  then show "\<exists>s'. HASH_DELETE_bloom x sb = Some (Inr s') \<and> bloom_rep n s' (remove1 x xs) \<and>
      hh_key (ut_mem (fst s')) = hh_key (ut_mem (fst sb))"
    using HASH_DELETE_bloom_ok [of n sb xs x] by (auto simp: bloom_rep_def)
qed

section \<open>Reachable tables\<close>

inductive bloom_reach :: "(size_t \<Rightarrow> bool) \<Rightarrow> nat \<Rightarrow> ut_state \<times> bytes \<Rightarrow> addr list \<Rightarrow> bool" for malloc n where
  bloom_empty: "ut_head s = None \<Longrightarrow> bloom_reach malloc n (s, bv) []"
| bloom_add: "bloom_reach malloc n sb xs \<Longrightarrow> a \<notin> set xs \<Longrightarrow> length key < 2 ^ 32 \<Longrightarrow> length xs + 1 < 2 ^ 32 \<Longrightarrow>
    HASH_ADD_bloom malloc n key a sb = Some (Inr sb') \<Longrightarrow> bloom_reach malloc n sb' (xs @ [a])"
| bloom_delete: "bloom_reach malloc n sb xs \<Longrightarrow> x \<in> set xs \<Longrightarrow> HASH_DELETE_bloom x sb = Some (Inr sb') \<Longrightarrow>
    bloom_reach malloc n sb' (remove1 x xs)"

lemma bloom_reach_rep:
  assumes "bloom_reach malloc n sb xs" "malloc_bounded malloc" "n \<le> 32"
  shows "bloom_rep n sb xs"
  using assms(1)
proof induction
  case (bloom_empty s bv)
  then show ?case using assms(3) by (simp add: bloom_rep_def bloom_ok_def)
next
  case (bloom_add sb xs a key sb')
  then show ?case using bl.add_rep [OF bloom_add.IH bloom_add.hyps(2-4) assms(2)] by auto
next
  case (bloom_delete sb xs x sb')
  then show ?case using bl.del_rep [OF bloom_delete.IH bloom_delete.hyps(2)] by auto
qed

section \<open>Property\<close>

text \<open>
  C14. The Bloom filter of \<open>uthash.h\<close> is transparent: in every table that insertions and deletions reach from the empty
  one, for every setting of \<open>HASH_BLOOM\<close> up to 32, \<open>HASH_FIND\<close> with the filter returns what \<open>HASH_FIND\<close> without it
  returns, null exactly when no element has the key; and neither the search nor the next insertion touches the bit
  vector outside its bounds: an insertion ends regularly or with the exit for lack of memory.
\<close>

theorem uthash_bloom_transparent:
  assumes "bloom_reach malloc n sb xs" "malloc_bounded malloc" "n \<le> 32" "length key < 2 ^ 32"
  shows "HASH_FIND_bloom n key sb = HASH_FIND key (fst sb) \<and>
    (\<exists>r. HASH_FIND_bloom n key sb = Some (Inr r) \<and> (r = None \<longleftrightarrow> key \<notin> hh_key (ut_mem (fst sb)) ` set xs)) \<and>
    (\<forall>a. a \<notin> set xs \<and> length xs + 1 < 2 ^ 32 \<longrightarrow>
       HASH_ADD_bloom malloc n key a sb = Some (Inl Exit_oom) \<or> (\<exists>sb'. HASH_ADD_bloom malloc n key a sb = Some (Inr sb')))"
proof (intro conjI allI impI)
  have r: "bloom_rep n sb xs" using bloom_reach_rep [OF assms(1-3)] .
  then show "HASH_FIND_bloom n key sb = HASH_FIND key (fst sb)"
    using HASH_FIND_bloom_eq [of n "fst sb" "snd sb" xs key] assms(4) by (simp add: bloom_rep_def)
  show "\<exists>r. HASH_FIND_bloom n key sb = Some (Inr r) \<and> (r = None \<longleftrightarrow> key \<notin> hh_key (ut_mem (fst sb)) ` set xs)"
    using bl.find_result [OF r assms(4)] by blast
  show "HASH_ADD_bloom malloc n key a sb = Some (Inl Exit_oom) \<or> (\<exists>sb'. HASH_ADD_bloom malloc n key a sb = Some (Inr sb'))"
    if "a \<notin> set xs \<and> length xs + 1 < 2 ^ 32" for a
    using bl.add_rep [OF r, of a key malloc] that assms(2,4) by blast
qed

theorem uthash_bloom_transparent_witness:
  "\<exists>sb. HASH_ADD_bloom small_malloc 3 (lit ''k'') 1 (ut_empty, []) = Some (Inr sb) \<and>
     HASH_FIND_bloom 3 (lit ''k'') sb = HASH_FIND (lit ''k'') (fst sb) \<and> HASH_FIND_bloom 3 (lit ''x'') sb = Some (Inr None)"
proof -
  obtain s where s: "HASH_ADD small_malloc (lit ''k'') 1 ut_empty = Some (Inr s)" "hh_key (ut_mem s) 1 = lit ''k''"
    using ut_one [of "lit ''k''" 1] by auto
  obtain bv where bv: "HASH_BLOOM_ADD 3 [0] (HASH_JEN (lit ''k'')) = Inr bv"
    using HASH_BLOOM_ADD_marks [of 3 "[0]"] bytelen_unat [of 3] by auto
  have "HASH_BLOOM_BYTELEN 3 = 1" by (simp add: HASH_BLOOM_BYTELEN_def HASH_BLOOM_BITLEN_def)
  then have add: "HASH_ADD_bloom small_malloc 3 (lit ''k'') 1 (ut_empty, []) = Some (Inr (s, bv))"
    using s(1) bv
    by (simp add: HASH_ADD_bloom_def HASH_BLOOM_MAKE_def HASH_MAKE_TABLE_def ut_empty_def small_malloc_def sizeof_table_def
        sizeof_bucket_def HASH_INITIAL_NUM_BUCKETS_def)
  have "bloom_reach small_malloc 3 (s, bv) ([] @ [1])"
    by (rule bloom_reach.bloom_add [OF bloom_reach.bloom_empty _ _ _ add]) (simp_all add: ut_empty_def)
  then have r: "bloom_reach small_malloc 3 (s, bv) [1]" by simp
  have "lit ''x'' \<noteq> lit ''k''" by (simp add: lit_def)
  then show ?thesis
    using add s(2) uthash_bloom_transparent [OF r small_malloc_bounded, of "lit ''k''"]
      uthash_bloom_transparent [OF r small_malloc_bounded, of "lit ''x''"] by auto
qed

end
