(* ===== verification/UthashSelect.thy ===== *)
theory UthashSelect
  imports UthashTable
begin

text \<open>
  \<open>HASH_SELECT\<close> of \<open>src/utils/uthash.h\<close>: the elements of a table that satisfy a condition are put into a second table as well,
  through a second handle in each element.  The handles of the two tables are the memories of two states; the keys are shared.

  The macro sets the \<open>tail\<close> of the new table only when it makes the table, to the first selected element.  Searching,
  counting and the integrity check do not look at it; the next insertion does.
\<close>

section \<open>The macro\<close>

text \<open>The second handle of a selected element is filled in and linked behind the last one.\<close>

definition select_link :: "ut_heap \<Rightarrow> addr \<Rightarrow> addr option \<Rightarrow> ut_heap \<Rightarrow> ut_heap" where
  "select_link src_m x last_elt m =
     (let m1 = m\<lparr>hh_key := (hh_key m)(x := hh_key src_m x), hh_keylen := (hh_keylen m)(x := hh_keylen src_m x),
                 hh_hashv := (hh_hashv m)(x := hh_hashv src_m x),
                 app_prev := (app_prev m)(x := last_elt), app_next := (app_next m)(x := None)\<rparr>
      in case last_elt of None \<Rightarrow> m1 | Some l \<Rightarrow> m1\<lparr>app_next := (app_next m1)(l := Some x)\<rparr>)"

text \<open>The body of the loops for a selected element; the first component of the result is \<open>_last_elt\<close>.\<close>

definition select_elt ::
  "(size_t \<Rightarrow> bool) \<Rightarrow> ut_heap \<Rightarrow> addr \<Rightarrow> addr option \<times> ut_state \<Rightarrow> (addr option \<times> ut_state) ut" where
  "select_elt malloc src_m x ld =
     (case ld of (last_elt, dst) \<Rightarrow>
        let m = select_link src_m x last_elt (ut_mem dst)
        in bindU
             (case ut_head dst of
                None \<Rightarrow> bindU (HASH_MAKE_TABLE malloc x) (\<lambda>t. Some (Inr (dst\<lparr>ut_mem := m, ut_tbl := t, ut_head := Some x\<rparr>)))
              | Some _ \<Rightarrow> Some (Inr (dst\<lparr>ut_mem := m\<rparr>)))
             (\<lambda>d. bindU (HASH_ADD_TO_BKT malloc (unat (HASH_TO_BKT (hh_hashv (ut_mem d) x) (num_buckets (ut_tbl d)))) x
                           (ut_mem d) (ut_tbl d))
                (\<lambda>(m', t'). Some (Inr (Some x, d\<lparr>ut_mem := m', ut_tbl := t'\<lparr>num_items := num_items t' + 1\<rparr>\<rparr>)))))"

partial_function (option) select_chain ::
  "(size_t \<Rightarrow> bool) \<Rightarrow> (addr \<Rightarrow> bool) \<Rightarrow> ut_heap \<Rightarrow> addr option \<Rightarrow> addr option \<times> ut_state \<Rightarrow> (addr option \<times> ut_state) ut" where [code]:
  "select_chain malloc cond src_m src_hh ld =
     (case src_hh of None \<Rightarrow> Some (Inr ld)
      | Some x \<Rightarrow>
          if cond x
          then (case select_elt malloc src_m x ld of
                  None \<Rightarrow> None
                | Some (Inl e) \<Rightarrow> Some (Inl e)
                | Some (Inr ld') \<Rightarrow> select_chain malloc cond src_m (hh_next src_m x) ld')
          else select_chain malloc cond src_m (hh_next src_m x) ld)"

fun select_buckets ::
  "(size_t \<Rightarrow> bool) \<Rightarrow> (addr \<Rightarrow> bool) \<Rightarrow> ut_heap \<Rightarrow> ut_bucket list \<Rightarrow> addr option \<times> ut_state \<Rightarrow> (addr option \<times> ut_state) ut" where
  "select_buckets malloc cond src_m [] ld = Some (Inr ld)"
| "select_buckets malloc cond src_m (k # ks) ld =
     bindU (select_chain malloc cond src_m (bkt_head k) ld) (select_buckets malloc cond src_m ks)"

definition HASH_SELECT :: "(size_t \<Rightarrow> bool) \<Rightarrow> (addr \<Rightarrow> bool) \<Rightarrow> ut_state \<Rightarrow> ut_state \<Rightarrow> ut_state ut" where
  "HASH_SELECT malloc cond src dst =
     (case ut_head src of None \<Rightarrow> Some (Inr dst)
      | Some _ \<Rightarrow>
          bindU (select_buckets malloc cond (ut_mem src)
                   (take (unat (num_buckets (ut_tbl src))) (ut_buckets (ut_tbl src))) (None, dst))
            (\<lambda>(last_elt, dst'). Some (Inr dst')))"

section \<open>The selected table\<close>

text \<open>The table that \<open>HASH_SELECT\<close> makes, with the selected elements \<open>ys\<close> in its order: the list, the chains, the keys and the
  count are those of a well-formed table, but the tail is the first element, where it was when the table was made.  The insertion that
  follows relies on the tail (\<open>uthash_select_add_breaks\<close>).\<close>

definition selected_rep :: "ut_state \<Rightarrow> addr list \<Rightarrow> bool" where
  "selected_rep d ys \<longleftrightarrow> distinct ys \<and> length ys < 2 ^ 32 \<and>
     dll (app_next (ut_mem d)) (app_prev (ut_mem d)) None (ut_head d) ys \<and> keys_ok (ut_mem d) ys \<and>
     (ys \<noteq> [] \<longrightarrow> num_items (ut_tbl d) = of_nat (length ys) \<and> tbl_rep (ut_mem d) (ut_tbl d) (set ys) \<and>
        ut_tail (ut_tbl d) = Some (hd ys))"

text \<open>Such a table is well formed exactly when it has at most one element.\<close>

lemma selected_rep_wf: "selected_rep d ys \<Longrightarrow> ut_rep d ys \<longleftrightarrow> length ys \<le> 1"
  by (cases ys) (auto simp: selected_rep_def ut_rep_def dest: last_in_set)

text \<open>Searches, the count and the integrity check do not read the tail: they see the table as if the tail were the last
  element.\<close>

definition with_tail :: "addr list \<Rightarrow> ut_state \<Rightarrow> ut_state" where
  "with_tail ys d = d\<lparr>ut_tbl := (ut_tbl d)\<lparr>ut_tail := Some (last ys)\<rparr>\<rparr>"

lemma with_tail_simps [simp]:
  "ut_head (with_tail ys d) = ut_head d" "ut_mem (with_tail ys d) = ut_mem d"
  "num_items (ut_tbl (with_tail ys d)) = num_items (ut_tbl d)" "num_buckets (ut_tbl (with_tail ys d)) = num_buckets (ut_tbl d)"
  "ut_buckets (ut_tbl (with_tail ys d)) = ut_buckets (ut_tbl d)"
  by (simp_all add: with_tail_def)

lemma with_tail_ops [simp]:
  "HASH_FIND key (with_tail ys d) = HASH_FIND key d" "HASH_COUNT (with_tail ys d) = HASH_COUNT d"
  "HASH_FSCK (with_tail ys d) = HASH_FSCK d"
  unfolding HASH_FIND_def HASH_FIND_BYHASHVALUE_def HASH_COUNT_def HASH_FSCK_def Let_def with_tail_simps by (rule refl)+

lemma selected_rep_with_tail: "selected_rep d ys \<Longrightarrow> ut_rep (with_tail ys d) ys"
  using tbl_rep_cong [of "ut_mem d" "ut_mem d" "set ys" "(ut_tbl d)\<lparr>ut_tail := Some (last ys)\<rparr>" "ut_tbl d"]
  by (auto simp: selected_rep_def ut_rep_def with_tail_def)

lemma selected_rep_reads:
  assumes "selected_rep d ys"
  shows "HASH_COUNT d = of_nat (length ys)" "HASH_FSCK d = Some True"
    "length key < 2 ^ 32 \<Longrightarrow> \<exists>r. HASH_FIND key d = Some (Inr r) \<and> (r = None \<longleftrightarrow> (\<forall>y \<in> set ys. hh_key (ut_mem d) y \<noteq> key))"
proof -
  note r = selected_rep_with_tail [OF assms]
  show "HASH_COUNT d = of_nat (length ys)" "HASH_FSCK d = Some True" using HASH_COUNT_rep [OF r] HASH_FSCK_rep [OF r] by simp_all
  show "\<exists>r. HASH_FIND key d = Some (Inr r) \<and> (r = None \<longleftrightarrow> (\<forall>y \<in> set ys. hh_key (ut_mem d) y \<noteq> key))" if "length key < 2 ^ 32"
    using ut.find_result [OF r that] by (auto simp: image_iff)
qed

text \<open>The new table while elements are selected from a table with memory \<open>m\<close>.\<close>

definition selecting :: "ut_heap \<Rightarrow> addr option \<times> ut_state \<Rightarrow> addr list \<Rightarrow> bool" where
  "selecting m ld ys \<longleftrightarrow> selected_rep (snd ld) ys \<and> fst ld = (if ys = [] then None else Some (last ys)) \<and>
     (\<forall>y \<in> set ys. hh_key (ut_mem (snd ld)) y = hh_key m y)"

lemma selecting_rep:
  "selecting m (l, d) ys \<longleftrightarrow> distinct ys \<and> length ys < 2 ^ 32 \<and> dll (app_next (ut_mem d)) (app_prev (ut_mem d)) None (ut_head d) ys \<and>
     keys_ok (ut_mem d) ys \<and> (ys \<noteq> [] \<longrightarrow> num_items (ut_tbl d) = of_nat (length ys) \<and> tbl_rep (ut_mem d) (ut_tbl d) (set ys)) \<and>
     l = (if ys = [] then None else Some (last ys)) \<and> (\<forall>y \<in> set ys. hh_key (ut_mem d) y = hh_key m y) \<and>
     (ys \<noteq> [] \<longrightarrow> ut_tail (ut_tbl d) = Some (hd ys))"
  by (auto simp: selecting_def selected_rep_def)

section \<open>Selecting\<close>

text \<open>The new table between the two steps for one element: the element \<^term>\<open>x\<close> is linked behind \<^term>\<open>ys\<close> and in no chain.\<close>

definition select_linked :: "ut_heap \<Rightarrow> ut_state \<Rightarrow> addr list \<Rightarrow> addr \<Rightarrow> bool" where
  "select_linked m d ys x \<longleftrightarrow> distinct (ys @ [x]) \<and>
     dll (app_next (ut_mem d)) (app_prev (ut_mem d)) None (ut_head d) (ys @ [x]) \<and> keys_ok (ut_mem d) (ys @ [x]) \<and>
     num_items (ut_tbl d) = of_nat (length ys) \<and> tbl_rep (ut_mem d) (ut_tbl d) (set ys) \<and>
     (\<forall>y \<in> set (ys @ [x]). hh_key (ut_mem d) y = hh_key m y) \<and> ut_tail (ut_tbl d) = Some (hd (ys @ [x]))"

lemma select_link_first:
  assumes "selecting m (l, d) []" "keys_ok m [x]" "HASH_MAKE_TABLE malloc x = Some (Inr t)"
  shows "select_linked m (d\<lparr>ut_mem := select_link m x l (ut_mem d), ut_tbl := t, ut_head := Some x\<rparr>) [] x"
proof -
  let ?m = "select_link m x l (ut_mem d)"
  have l: "l = None" using assms(1) by (simp add: selecting_rep)
  have "ut_tail t = Some x \<and> num_items t = 0 \<and> tbl_rep ?m t {}"
    by (rule HASH_MAKE_TABLE_cases [where malloc = malloc and a = x and m = ?m]) (use assms(3) in simp_all)
  then show ?thesis using assms(2) l by (simp add: select_linked_def select_link_def keys_ok_def)
qed

lemma select_link_next:
  assumes sel: "selecting m (l, d) ys" and ne: "ys \<noteq> []" and x: "x \<notin> set ys" and k: "keys_ok m [x]"
  shows "select_linked m (d\<lparr>ut_mem := select_link m x l (ut_mem d)\<rparr>) ys x"
proof -
  let ?m = "select_link m x l (ut_mem d)"
  have s: "distinct ys" "dll (app_next (ut_mem d)) (app_prev (ut_mem d)) None (ut_head d) ys" "keys_ok (ut_mem d) ys"
    "num_items (ut_tbl d) = of_nat (length ys)" "tbl_rep (ut_mem d) (ut_tbl d) (set ys)" "l = Some (last ys)"
    "\<forall>y \<in> set ys. hh_key (ut_mem d) y = hh_key m y" "ut_tail (ut_tbl d) = Some (hd ys)"
    using sel ne by (auto simp: selecting_rep)
  note link = select_link_def s(6) Let_def
  have "tbl_rep ?m (ut_tbl d) (set ys)"
    using s(5) x tbl_rep_cong [of ?m "ut_mem d" "set ys" "ut_tbl d" "ut_tbl d"] by (fastforce simp: link)
  moreover have "keys_ok ?m (ys @ [x])" using s(3) k x by (auto simp: keys_ok_def link)
  moreover have "\<forall>y \<in> set (ys @ [x]). hh_key ?m y = hh_key m y" using s(7) by (simp add: link)
  moreover have "dll (app_next ?m) (app_prev ?m) None (ut_head d) (ys @ [x])"
    using dll_append [OF s(2,1) ne x] by (simp add: link)
  ultimately show ?thesis using s(1,4,8) x ne by (simp add: select_linked_def)
qed

lemma select_elt_bkt:
  assumes lk: "select_linked m d ys x" and len: "length ys + 1 < 2 ^ 32" and mb: "malloc_bounded malloc"
  defines "r \<equiv> bindU (HASH_ADD_TO_BKT malloc (unat (HASH_TO_BKT (hh_hashv (ut_mem d) x) (num_buckets (ut_tbl d)))) x
      (ut_mem d) (ut_tbl d)) (\<lambda>(m', t'). Some (Inr (Some x, d\<lparr>ut_mem := m', ut_tbl := t'\<lparr>num_items := num_items t' + 1\<rparr>\<rparr>)))"
  shows "r = Some (Inl Exit_oom) \<or> (\<exists>ld'. r = Some (Inr ld') \<and> selecting m ld' (ys @ [x]))"
proof -
  have "tbl_rep (ut_mem d) (ut_tbl d) (set ys)" "finite (set ys)" "x \<notin> set ys" using lk by (simp_all add: select_linked_def)
  from HASH_ADD_TO_BKT_rep [OF this mb refl] show ?thesis
  proof (elim disjE exE conjE)
    fix m' t' assume b: "HASH_ADD_TO_BKT malloc (unat (HASH_TO_BKT (hh_hashv (ut_mem d) x) (num_buckets (ut_tbl d)))) x
        (ut_mem d) (ut_tbl d) = Some (Inr (m', t'))" "tbl_rep m' t' (insert x (set ys))" "same_handles (ut_mem d) m'"
      "num_items t' = num_items (ut_tbl d)" "ut_tail t' = ut_tail (ut_tbl d)"
    let ?d = "d\<lparr>ut_mem := m', ut_tbl := t'\<lparr>num_items := num_items t' + 1\<rparr>\<rparr>"
    have "tbl_rep m' (ut_tbl ?d) (set (ys @ [x]))"
      using b(2) tbl_rep_cong [of m' m' "insert x (set ys)" "ut_tbl ?d" t'] by simp
    then have "selecting m (Some x, ?d) (ys @ [x])"
      using lk len b(3-5) same_keys_ok [OF b(3)] by (simp add: selecting_rep select_linked_def same_handles_def)
    then show ?thesis using b(1) by (simp add: r_def)
  qed (simp add: r_def)
qed

lemma selecting_head: "selecting m (l, d) ys \<Longrightarrow> ut_head d = (if ys = [] then None else Some (hd ys))"
  by (cases ys) (auto simp: selecting_rep)

lemma select_elt_rep:
  assumes sel: "selecting m (l, d) ys" and x: "x \<notin> set ys" and len: "length ys + 1 < 2 ^ 32" and mb: "malloc_bounded malloc"
    and k: "keys_ok m [x]"
  shows "select_elt malloc m x (l, d) = Some (Inl Exit_oom) \<or>
    (\<exists>ld'. select_elt malloc m x (l, d) = Some (Inr ld') \<and> selecting m ld' (ys @ [x]))"
proof (cases "ys = []")
  case True
  have h: "ut_head d = None" using selecting_head [OF sel] True by simp
  show ?thesis
  proof (rule HASH_MAKE_TABLE_cases [where malloc = malloc and a = x])
    assume "HASH_MAKE_TABLE malloc x = Some (Inl Exit_oom)"
    then show ?thesis using h by (simp add: select_elt_def Let_def)
  next
    fix t assume t: "HASH_MAKE_TABLE malloc x = Some (Inr t)"
    show ?thesis
      using select_elt_bkt [OF select_link_first [OF sel [unfolded True] k t] _ mb] t h True by (simp add: select_elt_def Let_def)
  qed
next
  case False
  then show ?thesis
    using select_elt_bkt [OF select_link_next [OF sel False x k] len mb] selecting_head [OF sel] by (simp add: select_elt_def Let_def)
qed

lemma select_chain_rep:
  "nchain (hh_next m) p zs \<Longrightarrow> selecting m ld ys \<Longrightarrow> distinct (ys @ zs) \<Longrightarrow> length ys + length zs < 2 ^ 32 \<Longrightarrow>
   malloc_bounded malloc \<Longrightarrow> keys_ok m zs \<Longrightarrow>
   select_chain malloc cond m p ld = Some (Inl Exit_oom) \<or>
   (\<exists>ld'. select_chain malloc cond m p ld = Some (Inr ld') \<and> selecting m ld' (ys @ filter cond zs))"
proof (induction zs arbitrary: p ld ys)
  case Nil
  then show ?case by (subst (1 2) select_chain.simps) simp
next
  case (Cons x zs)
  have p: "p = Some x" "nchain (hh_next m) (hh_next m x) zs" and k: "keys_ok m [x]" "keys_ok m zs"
    using Cons.prems(1,6) by (auto simp: keys_ok_def)
  obtain l d where ld: "ld = (l, d)" by fastforce
  show ?case
  proof (cases "cond x")
    case False
    then have "select_chain malloc cond m p ld = select_chain malloc cond m (hh_next m x) ld"
      using p(1) by (subst select_chain.simps) simp
    then show ?thesis using Cons.IH [OF p(2) Cons.prems(2)] Cons.prems(3-5) k(2) False by simp
  next
    case True
    have "select_elt malloc m x ld = Some (Inl Exit_oom) \<or>
        (\<exists>ld'. select_elt malloc m x ld = Some (Inr ld') \<and> selecting m ld' (ys @ [x]))"
      unfolding ld by (rule select_elt_rep) (use Cons.prems k ld in auto)
    then show ?thesis
    proof (elim disjE exE conjE)
      assume "select_elt malloc m x ld = Some (Inl Exit_oom)"
      then show ?thesis using p(1) True by (subst (1 2) select_chain.simps) simp
    next
      fix ld' assume e: "select_elt malloc m x ld = Some (Inr ld')" "selecting m ld' (ys @ [x])"
      have "select_chain malloc cond m p ld = select_chain malloc cond m (hh_next m x) ld'"
        using p(1) True e(1) by (subst select_chain.simps) simp
      then show ?thesis using Cons.IH [OF p(2) e(2)] Cons.prems(3-5) k(2) True by simp
    qed
  qed
qed

lemma select_buckets_rep:
  fixes m n defines "B \<equiv> \<lambda>x. unat (HASH_TO_BKT (hh_hashv m x) (of_nat n))"
  assumes rep: "buckets_rep m n bs S" and S: "finite S" "card S < 2 ^ 32" and mb: "malloc_bounded malloc"
    and ko: "\<And>xs. set xs \<subseteq> S \<Longrightarrow> keys_ok m xs"
  shows "i \<le> n \<Longrightarrow> distinct zs \<Longrightarrow> set zs = {x \<in> S. B x < i} \<Longrightarrow> selecting m ld (filter cond zs) \<Longrightarrow>
    select_buckets malloc cond m (drop i bs) ld = Some (Inl Exit_oom) \<or>
    (\<exists>ld' zs'. select_buckets malloc cond m (drop i bs) ld = Some (Inr ld') \<and> distinct zs' \<and> set zs' = {x \<in> S. B x < n} \<and>
       selecting m ld' (filter cond zs'))"
proof (induction "n - i" arbitrary: i zs ld)
  case 0
  have "length bs = n" using rep by (simp add: buckets_rep_def)
  then show ?case using 0 by auto
next
  case (Suc j)
  have i: "i < n" "length bs = n" using Suc.hyps(2) rep by (auto simp: buckets_rep_def)
  then have d: "drop i bs = bs ! i # drop (i + 1) bs" by (simp add: Cons_nth_drop_Suc)
  obtain ys where ys: "dll (hh_next m) (hh_prev m) None (bkt_head (bs ! i)) ys" "distinct ys" "set ys = {x \<in> S. B x = i}"
    using rep i unfolding buckets_rep_def B_def by blast
  have zy: "distinct (zs @ ys)" "set (zs @ ys) = {x \<in> S. B x < i + 1}"
    using Suc.prems(2,3) ys(2,3) by auto
  have "length (zs @ ys) \<le> card S"
    using distinct_card [OF zy(1)] card_mono [OF S(1), of "set (zs @ ys)"] zy(2) by auto
  then have len: "length (filter cond zs) + length ys < 2 ^ 32"
    using S(2) length_filter_le [of cond zs] unfolding length_append by linarith
  have dd: "distinct (filter cond zs @ ys)" using zy(1) by auto
  have "set ys \<subseteq> S" using ys(3) by auto
  from select_chain_rep [OF dll_nchain [OF ys(1)] Suc.prems(4) dd len mb ko [OF this], of cond] show ?case
  proof (elim disjE exE conjE)
    assume "select_chain malloc cond m (bkt_head (bs ! i)) ld = Some (Inl Exit_oom)"
    then show ?thesis unfolding d by simp
  next
    fix ld' assume e: "select_chain malloc cond m (bkt_head (bs ! i)) ld = Some (Inr ld')"
      "selecting m ld' (filter cond zs @ filter cond ys)"
    have "select_buckets malloc cond m (drop i bs) ld = select_buckets malloc cond m (drop (i + 1) bs) ld'"
      unfolding d using e(1) by simp
    then show ?thesis
      using Suc.hyps(1) [of "i + 1" "zs @ ys" ld'] Suc.hyps(2) i(1) zy e(2) by simp
  qed
qed

lemma HASH_SELECT_rep:
  assumes rep: "ut_rep src xs" and dst: "ut_head dst = None" and mb: "malloc_bounded malloc"
  shows "HASH_SELECT malloc cond src dst = Some (Inl Exit_oom) \<or>
    (\<exists>ld zs. HASH_SELECT malloc cond src dst = Some (Inr (snd ld)) \<and> distinct zs \<and> set zs = set xs \<and>
       selecting (ut_mem src) ld (filter cond zs))"
proof (cases "xs = []")
  case True
  then show ?thesis
    using rep dst by (auto simp: HASH_SELECT_def selecting_rep keys_ok_def intro!: exI [of _ "None :: addr option"])
next
  case False
  let ?m = "ut_mem src" and ?t = "ut_tbl src"
  have r: "tbl_rep ?m ?t (set xs)" "keys_ok ?m xs" "distinct xs" "length xs < 2 ^ 32" using rep False by (auto simp: ut_rep_def)
  obtain h where h: "ut_head src = Some h" using ut_rep_head [OF rep] False by (cases xs) auto
  obtain l where l: "l < 32" "num_buckets ?t = of_nat (2 ^ l)" "buckets_rep ?m (2 ^ l) (ut_buckets ?t) (set xs)"
    using r(1) by (auto simp: tbl_rep_def)
  have len: "take (unat (num_buckets ?t)) (ut_buckets ?t) = drop 0 (ut_buckets ?t)"
    using l(3) unat_pow2 [OF l(1)] unfolding l(2) by (simp add: buckets_rep_def)
  have card: "card (set xs) < 2 ^ 32" using r(3,4) by (simp add: distinct_card)
  have ko: "keys_ok ?m ys" if "set ys \<subseteq> set xs" for ys using that r(2) by (auto simp: keys_ok_def)
  have start: "selecting ?m (None, dst) (filter cond [])" using dst by (simp add: selecting_rep keys_ok_def)
  have all: "{x \<in> set xs. unat (HASH_TO_BKT (hh_hashv ?m x) (of_nat (2 ^ l))) < 2 ^ l} = set xs"
    using to_bkt_bound [OF l(1)] by auto
  have "select_buckets malloc cond ?m (drop 0 (ut_buckets ?t)) (None, dst) = Some (Inl Exit_oom) \<or>
      (\<exists>ld zs. select_buckets malloc cond ?m (drop 0 (ut_buckets ?t)) (None, dst) = Some (Inr ld) \<and> distinct zs \<and>
         set zs = set xs \<and> selecting ?m ld (filter cond zs))"
    using select_buckets_rep [OF l(3) finite_set card mb ko, of 0 "[]" "(None, dst)" cond] start unfolding all by simp
  then show ?thesis unfolding HASH_SELECT_def h len by (auto simp: case_prod_beta)
qed

section \<open>Properties\<close>

text \<open>
  \<open>HASH_SELECT\<close> into an empty table selects exactly the elements that satisfy the condition, with their keys:
  unless memory runs out, the new table holds them, finds a key exactly when a selected element has it, counts them and
  passes the integrity check.  Its tail is the first selected element (\<open>selected_rep\<close>).
\<close>

theorem uthash_select_exact:
  assumes "ut_rep src xs" "ut_head dst = None" "malloc_bounded malloc"
  shows "HASH_SELECT malloc cond src dst = Some (Inl Exit_oom) \<or>
    (\<exists>d ys. HASH_SELECT malloc cond src dst = Some (Inr d) \<and> distinct ys \<and> set ys = {x \<in> set xs. cond x} \<and>
       selected_rep d ys \<and> (\<forall>y \<in> set ys. hh_key (ut_mem d) y = hh_key (ut_mem src) y) \<and>
       HASH_COUNT d = of_nat (card {x \<in> set xs. cond x}) \<and> HASH_FSCK d = Some True \<and>
       (\<forall>key. length key < 2 ^ 32 \<longrightarrow>
          (\<exists>r. HASH_FIND key d = Some (Inr r) \<and> (r = None \<longleftrightarrow> (\<forall>x \<in> set xs. cond x \<longrightarrow> hh_key (ut_mem src) x \<noteq> key)))))"
  using HASH_SELECT_rep [OF assms, of cond]
proof (elim disjE exE conjE)
  fix ld zs assume z: "HASH_SELECT malloc cond src dst = Some (Inr (snd ld))" "distinct zs" "set zs = set xs"
    "selecting (ut_mem src) ld (filter cond zs)"
  let ?ys = "filter cond zs" and ?d = "snd ld"
  have r: "selected_rep ?d ?ys" and k: "\<forall>y \<in> set ?ys. hh_key (ut_mem ?d) y = hh_key (ut_mem src) y"
    using z(4) by (simp_all add: selecting_def)
  have ys: "distinct ?ys" "set ?ys = {x \<in> set xs. cond x}" using z(2,3) by auto
  have "HASH_COUNT ?d = of_nat (card {x \<in> set xs. cond x})"
    using selected_rep_reads(1) [OF r] distinct_card [OF ys(1)] ys(2) by simp
  moreover have "HASH_FSCK ?d = Some True" using selected_rep_reads(2) [OF r] .
  moreover have "\<exists>r. HASH_FIND key ?d = Some (Inr r) \<and> (r = None \<longleftrightarrow> (\<forall>x \<in> set xs. cond x \<longrightarrow> hh_key (ut_mem src) x \<noteq> key))"
    if "length key < 2 ^ 32" for key
    using selected_rep_reads(3) [OF r that] k z(3) by auto
  ultimately show ?thesis using z(1) ys r k by blast
qed simp

theorem uthash_select_exact_witness:
  "\<exists>s s'. HASH_ADD small_malloc (lit ''b'') 7 ut_empty = Some (Inr s) \<and> HASH_ADD small_malloc (lit ''a'') 3 s = Some (Inr s') \<and>
     (HASH_SELECT small_malloc even s' ut_empty = Some (Inl Exit_oom) \<or>
      (\<exists>d. HASH_SELECT small_malloc even s' ut_empty = Some (Inr d) \<and> HASH_COUNT d = 0)) \<and>
     (HASH_SELECT small_malloc (\<lambda>x. x = 3) s' ut_empty = Some (Inl Exit_oom) \<or>
      (\<exists>d. HASH_SELECT small_malloc (\<lambda>x. x = 3) s' ut_empty = Some (Inr d) \<and> HASH_COUNT d = 1 \<and>
         (\<exists>r. HASH_FIND (lit ''b'') d = Some (Inr r) \<and> r = None)))"
proof -
  obtain s s' where s: "HASH_ADD small_malloc (lit ''b'') 7 ut_empty = Some (Inr s)"
    "HASH_ADD small_malloc (lit ''a'') 3 s = Some (Inr s')" "ut_rep s' [7, 3]" "hh_key (ut_mem s') 3 = lit ''a''"
    by (rule ut_two [of "lit ''b''" "lit ''a''" 7 3]) (simp_all add: lit_def)
  have e: "ut_head ut_empty = None" by (simp add: ut_empty_def)
  have c: "{x \<in> set [7, 3]. even x} = {}" "{x \<in> set [7, 3]. x = 3} = {3 :: nat}" by auto
  have n: "lit ''a'' \<noteq> lit ''b''" "length (lit ''b'') < 2 ^ 32" by (simp_all add: lit_def)
  show ?thesis
    using s n uthash_select_exact [OF s(3) e small_malloc_bounded, of even]
      uthash_select_exact [OF s(3) e small_malloc_bounded, of "\<lambda>x. x = 3"] unfolding c
    by (intro exI [of _ s] exI [of _ s'] conjI) fastforce+
qed

text \<open>The insertion that follows a selection of two or more elements links the new element behind the first one: the others
  drop out of the application order.\<close>

lemma add_after_select:
  assumes sel: "selecting m (l, d) ys" and a: "a \<notin> set ys" and ne: "ys \<noteq> []" and len: "length ys + 1 < 2 ^ 32"
    and mb: "malloc_bounded malloc" and add: "HASH_ADD malloc key a d = Some (Inr d')"
  shows "dll (app_next (ut_mem d')) (app_prev (ut_mem d')) None (ut_head d') [hd ys, a] \<and>
    num_items (ut_tbl d') = of_nat (length ys + 1) \<and> tbl_rep (ut_mem d') (ut_tbl d') (insert a (set ys))"
proof -
  let ?h = "hd ys"
  have s: "dll (app_next (ut_mem d)) (app_prev (ut_mem d)) None (ut_head d) ys" "num_items (ut_tbl d) = of_nat (length ys)"
    "tbl_rep (ut_mem d) (ut_tbl d) (set ys)" "ut_tail (ut_tbl d) = Some ?h"
    using sel ne by (auto simp: selecting_rep)
  have h: "ut_head d = Some ?h" "app_prev (ut_mem d) ?h = None" "?h \<noteq> a" using s(1) ne a by (cases ys; auto)+
  define m2 where "m2 = (set_handle a key (ut_mem d))\<lparr>app_prev := (app_prev (ut_mem d))(a := Some ?h),
      app_next := ((app_next (ut_mem d))(a := None))(?h := Some a)\<rparr>"
  define t2 where "t2 = (ut_tbl d)\<lparr>ut_tail := Some a, num_items := num_items (ut_tbl d) + 1\<rparr>"
  have "hh_hashv m2 x = hh_hashv (ut_mem d) x" if "x \<in> set ys" for x using that a by (auto simp: m2_def set_handle_def)
  then have t: "tbl_rep m2 t2 (set ys)"
    using s(3) tbl_rep_cong [of m2 "ut_mem d" "set ys" t2 "ut_tbl d"] by (simp add: m2_def t2_def set_handle_def)
  have hv: "hh_hashv m2 a = HASH_JEN key" by (simp add: m2_def set_handle_def)
  have eq: "HASH_ADD malloc key a d =
      bindU (HASH_ADD_TO_BKT malloc (unat (HASH_TO_BKT (hh_hashv m2 a) (num_buckets t2))) a m2 t2)
        (\<lambda>(m', t'). Some (Inr (d\<lparr>ut_mem := m', ut_tbl := t'\<rparr>)))"
    unfolding hv using h(1) s(4)
    by (simp add: HASH_ADD_def HASH_ADD_KEYPTR_BYHASHVALUE_def HASH_APPEND_LIST_def HASH_ADD_TO_TABLE_def Let_def
        m2_def t2_def set_handle_def)
  obtain m' t' where b: "HASH_ADD_TO_BKT malloc (unat (HASH_TO_BKT (hh_hashv m2 a) (num_buckets t2))) a m2 t2 = Some (Inr (m', t'))"
    "tbl_rep m' t' (insert a (set ys))" "same_handles m2 m'" "num_items t' = num_items t2"
    using HASH_ADD_TO_BKT_rep [OF t finite_set a mb refl] add eq by auto
  then have "d' = d\<lparr>ut_mem := m', ut_tbl := t'\<rparr>" using add eq by simp
  then show ?thesis using b(2-4) h s(2) by (auto simp: same_handles_def m2_def t2_def)
qed

text \<open>
  The table made by \<open>HASH_SELECT\<close> does not survive the next insertion: when two or more elements were selected, a
  \<open>HASH_ADD\<close> to the new table leaves an application order of two elements, the first selected one and the new one,
  although the count includes them all, and the integrity check of the debug build fails.
\<close>

theorem uthash_select_add_breaks:
  assumes "ut_rep src xs" "ut_head dst = None" "malloc_bounded malloc" "HASH_SELECT malloc cond src dst = Some (Inr d)"
    and "2 \<le> card {x \<in> set xs. cond x}" "card {x \<in> set xs. cond x} + 1 < 2 ^ 32" "a \<notin> set xs"
    and "HASH_ADD malloc key a d = Some (Inr d')"
  shows "HASH_FSCK d' = Some False \<and> HASH_COUNT d' = of_nat (card {x \<in> set xs. cond x} + 1) \<and>
    (\<exists>x \<in> set xs. nchain (app_next (ut_mem d')) (ut_head d') [x, a])"
proof -
  obtain ld zs where z: "d = snd ld" "distinct zs" "set zs = set xs" "selecting (ut_mem src) ld (filter cond zs)"
    using HASH_SELECT_rep [OF assms(1-3), of cond] assms(4) by auto
  let ?ys = "filter cond zs" and ?n = "card {x \<in> set xs. cond x}"
  have "set ?ys = {x \<in> set xs. cond x}" "distinct ?ys" using z(2,3) by auto
  then have n: "length ?ys = ?n" using distinct_card [of ?ys] by simp
  have ne: "?ys \<noteq> []" using n assms(5) by (metis list.size(3) not_numeral_le_zero)
  have a: "a \<notin> set ?ys" using assms(7) z(3) by auto
  have sel: "selecting (ut_mem src) (fst ld, d) ?ys" using z(1,4) by simp
  have r: "dll (app_next (ut_mem d')) (app_prev (ut_mem d')) None (ut_head d') [hd ?ys, a]"
    "num_items (ut_tbl d') = of_nat (?n + 1)" "tbl_rep (ut_mem d') (ut_tbl d') (insert a (set ?ys))"
    using add_after_select [OF sel a ne _ assms(3,8)] n assms(6) by auto
  have h: "ut_head d' = Some (hd ?ys)" using r(1) by simp
  have c: "card (insert a (set ?ys)) = ?n + 1" using a n distinct_card [of ?ys] z(2) by simp
  have "HASH_FSCK d' = Some ((of_nat (length [hd ?ys, a]) :: u32) = num_items (ut_tbl d'))"
    by (rule HASH_FSCK_eq [OF r(3) _ _ h r(1)]) (use r(2) c in simp_all)
  moreover have "(of_nat 2 :: u32) \<noteq> of_nat (?n + 1)"
  proof
    assume "(of_nat 2 :: u32) = of_nat (?n + 1)"
    then have "unat (of_nat 2 :: u32) = unat (of_nat (?n + 1) :: u32)" by (simp only:)
    then show False using assms(5,6) by (simp only: unat_of_nat) (simp add: take_bit_nat_eq_self)
  qed
  ultimately have "HASH_FSCK d' = Some False" using r(2) by simp
  moreover have "HASH_COUNT d' = of_nat (?n + 1)" using h r(2) by (simp add: HASH_COUNT_def)
  moreover have "hd ?ys \<in> set xs" using ne hd_in_set [OF ne] z(3) by simp
  ultimately show ?thesis using dll_nchain [OF r(1)] by blast
qed

end
