(* ===== verification/UthashOom.thy ===== *)
theory UthashOom
  imports UthashTable
begin

text \<open>
  \<open>src/utils/uthash.h\<close> compiled with \<open>HASH_NONFATAL_OOM\<close>: an allocation that fails is recorded in \<open>oomed\<close> and the
  insertion is rolled back, where the default configuration ends the process.  The roll-back takes the element out of
  its chain, repairs the count of the bucket and then runs the ordinary deletion; it restores the table.
\<close>

section \<open>The macros\<close>

text \<open>The table, or nothing when one of the two allocations fails.\<close>

definition HASH_MAKE_TABLE_nonfatal :: "(size_t \<Rightarrow> bool) \<Rightarrow> addr \<Rightarrow> ut_table option" where
  "HASH_MAKE_TABLE_nonfatal malloc add =
     (if \<not> malloc sizeof_table then None
      else if \<not> malloc (ucast HASH_INITIAL_NUM_BUCKETS * sizeof_bucket) then None
      else Some \<lparr>ut_buckets = replicate (unat HASH_INITIAL_NUM_BUCKETS) bucket_zero,
                 num_buckets = HASH_INITIAL_NUM_BUCKETS, log2_num_buckets = HASH_INITIAL_NUM_BUCKETS_LOG2,
                 num_items = 0, ut_tail = Some add, ideal_chain_maxlen = 0, nonideal_items = 0,
                 ineff_expands = 0, noexpand = 0\<rparr>)"

text \<open>The first component of the results below is \<open>oomed\<close>.\<close>

definition HASH_EXPAND_BUCKETS_nonfatal ::
  "(size_t \<Rightarrow> bool) \<Rightarrow> ut_heap \<Rightarrow> ut_table \<Rightarrow> (bool \<times> ut_heap \<times> ut_table) ut" where
  "HASH_EXPAND_BUCKETS_nonfatal malloc m t =
     (if \<not> malloc (sizeof_bucket * ucast (num_buckets t) * 2) then Some (Inr (True, m, t))
      else bindU (HASH_EXPAND_BUCKETS malloc m t) (\<lambda>(m', t'). Some (Inr (False, m', t'))))"

definition HASH_ADD_TO_BKT_nonfatal ::
  "(size_t \<Rightarrow> bool) \<Rightarrow> nat \<Rightarrow> addr \<Rightarrow> ut_heap \<Rightarrow> ut_table \<Rightarrow> (bool \<times> ut_heap \<times> ut_table) ut" where
  "HASH_ADD_TO_BKT_nonfatal malloc b x m t =
     (if b < length (ut_buckets t)
      then (let k = ut_buckets t ! b;
                k1 = k\<lparr>bkt_count := bkt_count k + 1, bkt_head := Some x\<rparr>;
                m1 = push_chain x (bkt_head k) m;
                t1 = t\<lparr>ut_buckets := (ut_buckets t)[b := k1]\<rparr>
            in if bkt_count k1 \<ge> (bkt_expand_mult k1 + 1) * HASH_BKT_CAPACITY_THRESH \<and> noexpand t1 = 0
               then bindU (HASH_EXPAND_BUCKETS_nonfatal malloc m1 t1) (\<lambda>(oomed, m2, t2).
                      if oomed then bindU (HASH_DEL_IN_BKT b x m2 t2) (\<lambda>(m3, t3). Some (Inr (True, m3, t3)))
                      else Some (Inr (False, m2, t2)))
               else Some (Inr (False, m1, t1)))
      else Some (Inl (Fault OutOfBounds)))"

definition HASH_ROLLBACK_BKT :: "addr \<Rightarrow> ut_state \<Rightarrow> ut_state ut" where
  "HASH_ROLLBACK_BKT x s =
     (let m = ut_mem s; t = ut_tbl s; b = unat (HASH_TO_BKT (hh_hashv m x) (num_buckets t)) in
      if b < length (ut_buckets t)
      then (let k = ut_buckets t ! b in
            Some (Inr (s\<lparr>ut_tbl := t\<lparr>ut_buckets := (ut_buckets t)[b := k\<lparr>bkt_count := bkt_count k + 1\<rparr>]\<rparr>,
                         ut_mem := m\<lparr>hh_next := (hh_next m)(x := None), hh_prev := (hh_prev m)(x := None)\<rparr>\<rparr>)))
      else Some (Inl (Fault OutOfBounds)))"

definition HASH_ADD_TO_TABLE_nonfatal :: "(size_t \<Rightarrow> bool) \<Rightarrow> u32 \<Rightarrow> addr \<Rightarrow> bool \<times> ut_state \<Rightarrow> (bool \<times> ut_state) ut" where
  "HASH_ADD_TO_TABLE_nonfatal malloc hashval add os =
     (case os of (oomed, s) \<Rightarrow>
        if \<not> oomed
        then (let t = (ut_tbl s)\<lparr>num_items := num_items (ut_tbl s) + 1\<rparr>;
                  b = unat (HASH_TO_BKT hashval (num_buckets t))
              in bindU (HASH_ADD_TO_BKT_nonfatal malloc b add (ut_mem s) t) (\<lambda>(oomed', m', t').
                   let s' = s\<lparr>ut_mem := m', ut_tbl := t'\<rparr> in
                   if oomed'
                   then bindU (HASH_ROLLBACK_BKT add s') (\<lambda>s2.
                        bindU (HASH_DELETE_HH add s2) (\<lambda>s3. Some (Inr (True, s3))))
                   else Some (Inr (False, s'))))
        else Some (Inr (True, s)))"

definition HASH_ADD_KEYPTR_BYHASHVALUE_nonfatal ::
  "(size_t \<Rightarrow> bool) \<Rightarrow> bytes \<Rightarrow> u32 \<Rightarrow> u32 \<Rightarrow> addr \<Rightarrow> ut_state \<Rightarrow> (bool \<times> ut_state) ut" where
  "HASH_ADD_KEYPTR_BYHASHVALUE_nonfatal malloc key keylen hashval add s =
     (let m = ut_mem s;
          m1 = m\<lparr>hh_hashv := (hh_hashv m)(add := hashval), hh_key := (hh_key m)(add := key),
                 hh_keylen := (hh_keylen m)(add := keylen)\<rparr>;
          s1 = s\<lparr>ut_mem := m1\<rparr>
      in bindU
           (case ut_head s1 of
              None \<Rightarrow>
                (let m2 = m1\<lparr>app_next := (app_next m1)(add := None), app_prev := (app_prev m1)(add := None)\<rparr> in
                 case HASH_MAKE_TABLE_nonfatal malloc add of
                   None \<Rightarrow> Some (Inr (True, s1\<lparr>ut_mem := m2\<rparr>))
                 | Some t \<Rightarrow> Some (Inr (False, s1\<lparr>ut_mem := m2, ut_tbl := t, ut_head := Some add\<rparr>)))
            | Some _ \<Rightarrow> bindU (HASH_APPEND_LIST add s1) (\<lambda>s2. Some (Inr (False, s2))))
           (HASH_ADD_TO_TABLE_nonfatal malloc hashval add))"

definition HASH_ADD_nonfatal :: "(size_t \<Rightarrow> bool) \<Rightarrow> bytes \<Rightarrow> addr \<Rightarrow> ut_state \<Rightarrow> (bool \<times> ut_state) ut" where
  "HASH_ADD_nonfatal malloc key add s =
     HASH_ADD_KEYPTR_BYHASHVALUE_nonfatal malloc key (of_nat (length key)) (HASH_JEN key) add s"

section \<open>The bucket\<close>

lemma HASH_ADD_TO_BKT_nonfatal_eq:
  assumes "b < length (ut_buckets t)" "push_bkt b x m t = (m1, t1)"
  shows "HASH_ADD_TO_BKT_nonfatal malloc b x m t =
    (if bkt_full b t1
     then bindU (HASH_EXPAND_BUCKETS_nonfatal malloc m1 t1) (\<lambda>(oomed, m2, t2).
            if oomed then bindU (HASH_DEL_IN_BKT b x m2 t2) (\<lambda>(m3, t3). Some (Inr (True, m3, t3)))
            else Some (Inr (False, m2, t2)))
     else Some (Inr (False, m1, t1)))"
  using assms by (auto simp: HASH_ADD_TO_BKT_nonfatal_def push_bkt_def bkt_full_def Let_def)

lemma HASH_ADD_TO_BKT_nonfatal_rep:
  assumes "tbl_rep m t S" "finite S" "x \<notin> S" "malloc_bounded malloc"
    and b: "b = unat (HASH_TO_BKT (hh_hashv m x) (num_buckets t))"
  obtains (added) m' t' where "HASH_ADD_TO_BKT_nonfatal malloc b x m t = Some (Inr (False, m', t'))"
      "HASH_ADD_TO_BKT malloc b x m t = Some (Inr (m', t'))"
  | (oom) m' t' where "HASH_ADD_TO_BKT_nonfatal malloc b x m t = Some (Inr (True, m', t'))"
      "HASH_ADD_TO_BKT malloc b x m t = Some (Inl Exit_oom)" "tbl_rep m' t' S" "same_handles m m'"
      "num_items t' = num_items t" "ut_tail t' = ut_tail t"
proof -
  obtain m1 t1 where p: "push_bkt b x m t = (m1, t1)" by fastforce
  note r = push_bkt_rep [OF assms(1-3) b p]
  have bl: "b < length (ut_buckets t)" using tbl_rep_bkt [OF assms(1)] by (simp add: b)
  note eqs = HASH_ADD_TO_BKT_nonfatal_eq [OF bl p] HASH_ADD_TO_BKT_eq [OF bl p]
  have fin: "finite (insert x S)" using assms(2) by simp
  show ?thesis
  proof (cases "bkt_full b t1")
    case False
    then show ?thesis using that(1) eqs by simp
  next
    case full: True
    show ?thesis
    proof (cases "malloc (sizeof_bucket * ucast (num_buckets t1) * 2)")
      case True
      then obtain m' t' where "HASH_EXPAND_BUCKETS malloc m1 t1 = Some (Inr (m', t'))"
        using HASH_EXPAND_succeeds [OF r(1) fin assms(4)] by blast
      then have "HASH_ADD_TO_BKT_nonfatal malloc b x m t = Some (Inr (False, m', t'))"
        "HASH_ADD_TO_BKT malloc b x m t = Some (Inr (m', t'))"
        using eqs full True by (simp_all add: HASH_EXPAND_BUCKETS_nonfatal_def)
      then show ?thesis by (rule that(1))
    next
      case False
      have "b = unat (HASH_TO_BKT (hh_hashv m1 x) (num_buckets t1))" using b r(2,5) by (simp add: same_handles_def)
      then obtain m' t' where d: "HASH_DEL_IN_BKT b x m1 t1 = Some (Inr (m', t'))" "tbl_rep m' t' (insert x S - {x})"
        "same_handles m1 m'" "num_items t' = num_items t1" "ut_tail t' = ut_tail t1"
        using HASH_DEL_IN_BKT_rep [OF r(1), of x b] by auto
      have "HASH_ADD_TO_BKT_nonfatal malloc b x m t = Some (Inr (True, m', t'))"
        "HASH_ADD_TO_BKT malloc b x m t = Some (Inl Exit_oom)"
        using eqs full False d(1) by (simp_all add: HASH_EXPAND_BUCKETS_nonfatal_def HASH_EXPAND_BUCKETS_def)
      moreover have "tbl_rep m' t' S" using d(2) assms(3) by simp
      moreover have "same_handles m m'" "num_items t' = num_items t" "ut_tail t' = ut_tail t"
        using same_handles_trans [OF r(2) d(3)] d(4,5) r(3,4) by simp_all
      ultimately show ?thesis by (rule that(2))
    qed
  qed
qed

section \<open>The roll-back\<close>

lemma buckets_rep_other:
  assumes "buckets_rep m n bs S" "a \<notin> S"
  shows "buckets_rep (m\<lparr>hh_next := (hh_next m)(a := u), hh_prev := (hh_prev m)(a := v)\<rparr>) n bs S"
  unfolding buckets_rep_chains
proof (intro conjI allI impI)
  show "length bs = n" using assms(1) by (simp add: buckets_rep_def)
  fix b assume "b < n"
  then obtain ys where ys: "chain_at m n S b (bs ! b) ys" using assms(1) by (auto simp: buckets_rep_chains)
  moreover have "a \<notin> set ys" using ys assms(2) by (simp add: chain_at_def)
  ultimately show "\<exists>ys. chain_at (m\<lparr>hh_next := (hh_next m)(a := u), hh_prev := (hh_prev m)(a := v)\<rparr>) n S b (bs ! b) ys"
    by (intro exI [of _ ys]) (simp add: chain_at_def)
qed

lemma tbl_rep_other:
  assumes "tbl_rep m t S" "a \<notin> S"
  shows "tbl_rep (m\<lparr>hh_next := (hh_next m)(a := u), hh_prev := (hh_prev m)(a := v)\<rparr>) t S"
  using assms buckets_rep_other by (fastforce simp: tbl_rep_def)

lemma bucket_head_in:
  assumes "tbl_rep m t S" "b < length (ut_buckets t)" "bkt_head (ut_buckets t ! b) = Some x"
  shows "x \<in> S"
proof (rule bucket_chain [OF assms(1,2)])
  fix ys assume "dll (hh_next m) (hh_prev m) None (bkt_head (ut_buckets t ! b)) ys" "set ys \<subseteq> S"
  then show ?thesis using assms(3) by (cases ys) auto
qed

text \<open>Rolling back and deleting: the element \<^term>\<open>a\<close> is at the end of the application order but in no chain.  The tail is taken
  back to the element before \<^term>\<open>a\<close> when it is \<^term>\<open>a\<close>, and stays as it is otherwise.\<close>

definition same_keys :: "ut_heap \<Rightarrow> ut_heap \<Rightarrow> bool" where
  "same_keys m m' \<longleftrightarrow> hh_key m' = hh_key m \<and> hh_keylen m' = hh_keylen m \<and> hh_hashv m' = hh_hashv m"

lemma rollback_delete_tail:
  assumes d: "dll (app_next (ut_mem s)) (app_prev (ut_mem s)) None (ut_head s) (xs @ [a])" "distinct (xs @ [a])"
    and t: "tbl_rep (ut_mem s) (ut_tbl s) (set xs)" "num_items (ut_tbl s) = of_nat (length xs + 1)"
  shows "\<exists>s2 s3. HASH_ROLLBACK_BKT a s = Some (Inr s2) \<and> HASH_DELETE_HH a s2 = Some (Inr s3) \<and>
    same_keys (ut_mem s) (ut_mem s3) \<and> dll (app_next (ut_mem s3)) (app_prev (ut_mem s3)) None (ut_head s3) xs \<and>
    (xs \<noteq> [] \<longrightarrow> tbl_rep (ut_mem s3) (ut_tbl s3) (set xs) \<and> num_items (ut_tbl s3) = of_nat (length xs) \<and>
       ut_tail (ut_tbl s3) = (if ut_tail (ut_tbl s) = Some a then Some (last xs) else ut_tail (ut_tbl s)))"
proof -
  let ?m = "(ut_mem s)\<lparr>hh_next := (hh_next (ut_mem s))(a := None), hh_prev := (hh_prev (ut_mem s))(a := None)\<rparr>"
  let ?b = "unat (HASH_TO_BKT (hh_hashv (ut_mem s) a) (num_buckets (ut_tbl s)))"
  let ?k = "ut_buckets (ut_tbl s) ! ?b"
  let ?t = "(ut_tbl s)\<lparr>ut_buckets := (ut_buckets (ut_tbl s))[?b := ?k\<lparr>bkt_count := bkt_count ?k + 1\<rparr>]\<rparr>"
  let ?s2 = "s\<lparr>ut_tbl := ?t, ut_mem := ?m\<rparr>"
  have b: "?b < length (ut_buckets (ut_tbl s))" using tbl_rep_bkt [OF t(1)] .
  have a: "a \<notin> set xs" "distinct xs" using d(2) by auto
  have rb: "HASH_ROLLBACK_BKT a s = Some (Inr ?s2)" using b by (simp add: HASH_ROLLBACK_BKT_def Let_def)
  have nx: "app_next (ut_mem s) a = None" using dll_mid_next [of _ _ None _ xs a "[]"] d(1) by simp
  have pv: "app_prev (ut_mem s) a = (if xs = [] then None else Some (last xs))" using dll_snoc_prev [OF d(1)] .
  have tr: "tbl_rep ?m (ut_tbl s) (set xs)" using tbl_rep_other [OF t(1) a(1)] .
  show ?thesis
  proof (cases "xs = []")
    case True
    then have "HASH_DELETE_HH a ?s2 = Some (Inr (?s2\<lparr>ut_head := None\<rparr>))" using nx pv by (simp add: HASH_DELETE_HH_def)
    then show ?thesis using rb True by (auto simp: same_keys_def)
  next
    case False
    let ?c = "ut_tail (ut_tbl s) = Some a"
    let ?u = "if ?c then (ut_tbl s)\<lparr>ut_tail := Some (last xs)\<rparr> else ut_tbl s"
    have "bkt_head ?k \<noteq> Some a" using bucket_head_in [OF t(1) b] a(1) by blast
    then have del: "HASH_DEL_IN_BKT ?b a (unlink_app a ?m) (if ?c then ?t\<lparr>ut_tail := Some (last xs)\<rparr> else ?t) =
        Some (Inr (unlink_app a ?m, ?u))"
      using b by (simp add: HASH_DEL_IN_BKT_def Let_def)
    let ?s3 = "s\<lparr>ut_mem := unlink_app a ?m, ut_tbl := ?u\<lparr>num_items := num_items (ut_tbl s) - 1\<rparr>\<rparr>"
    have "app_prev (ut_mem ?s2) a \<noteq> Some a" using pv False a(1) last_in_set [OF False] by auto
    then have dh: "HASH_DELETE_HH a ?s2 = Some (Inr ?s3)"
      using HASH_DELETE_HH_eq [of ?s2 a] pv nx False del by (cases ?c) (simp_all add: Let_def)
    have hd: "ut_head s \<noteq> Some a" using dll_head [OF d(1)] False a(1) by (cases xs) auto
    have "dll (app_next (unlink_app a ?m)) (app_prev (unlink_app a ?m)) None (ut_head s) xs"
      using dll_delete [OF d, of a] hd a(1) pv nx False by (simp add: unlink_app_def remove1_append)
    moreover have "tbl_rep (unlink_app a ?m) (ut_tbl ?s3) (set xs)"
      using tr tbl_rep_cong [of "unlink_app a ?m" ?m "set xs" "ut_tbl ?s3" "ut_tbl s"] by simp
    moreover have "same_keys (ut_mem s) (ut_mem ?s3)" by (simp add: same_keys_def)
    ultimately show ?thesis using rb dh t(2) by (intro exI [of _ ?s2] exI [of _ ?s3]) simp
  qed
qed

lemma rollback_delete:
  assumes d: "dll (app_next (ut_mem s)) (app_prev (ut_mem s)) None (ut_head s) (xs @ [a])" "distinct (xs @ [a])"
    and len: "length xs + 1 < 2 ^ 32"
    and t: "tbl_rep (ut_mem s) (ut_tbl s) (set xs)" "ut_tail (ut_tbl s) = Some a" "num_items (ut_tbl s) = of_nat (length xs + 1)"
    and ko: "keys_ok (ut_mem s) xs"
  shows "\<exists>s2 s3. HASH_ROLLBACK_BKT a s = Some (Inr s2) \<and> HASH_DELETE_HH a s2 = Some (Inr s3) \<and> ut_rep s3 xs \<and>
    hh_key (ut_mem s3) = hh_key (ut_mem s)"
  using rollback_delete_tail [OF d t(1,3)] d(2) len t(2) ko
  by (auto simp: ut_rep_def keys_ok_def same_keys_def)

section \<open>All or nothing\<close>

text \<open>Both versions of the last step of an insertion, from a state in which the element is linked.\<close>

lemma HASH_ADD_TO_TABLE_nonfatal_rep:
  assumes d: "dll (app_next (ut_mem s)) (app_prev (ut_mem s)) None (ut_head s) (xs @ [a])" "distinct (xs @ [a])"
    and len: "length xs + 1 < 2 ^ 32" and mb: "malloc_bounded malloc"
    and t: "tbl_rep (ut_mem s) (ut_tbl s) (set xs)" "ut_tail (ut_tbl s) = Some a" "num_items (ut_tbl s) = of_nat (length xs)"
    and ko: "keys_ok (ut_mem s) xs" and h: "h = hh_hashv (ut_mem s) a"
  shows "\<exists>oomed s'. HASH_ADD_TO_TABLE_nonfatal malloc h a (False, s) = Some (Inr (oomed, s')) \<and>
    (if oomed then HASH_ADD_TO_TABLE malloc h a s = Some (Inl Exit_oom) \<and> ut_rep s' xs \<and> hh_key (ut_mem s') = hh_key (ut_mem s)
     else HASH_ADD_TO_TABLE malloc h a s = Some (Inr s'))"
proof -
  define t1 where "t1 = (ut_tbl s)\<lparr>num_items := num_items (ut_tbl s) + 1\<rparr>"
  define b where "b = unat (HASH_TO_BKT (hh_hashv (ut_mem s) a) (num_buckets t1))"
  have rep: "tbl_rep (ut_mem s) t1 (set xs)"
    using t(1) tbl_rep_cong [of "ut_mem s" "ut_mem s" "set xs" t1 "ut_tbl s"] by (simp add: t1_def)
  have a: "a \<notin> set xs" using d(2) by simp
  have eq: "HASH_ADD_TO_TABLE_nonfatal malloc h a (False, s) =
      bindU (HASH_ADD_TO_BKT_nonfatal malloc b a (ut_mem s) t1) (\<lambda>(oomed', m', t').
        if oomed' then bindU (HASH_ROLLBACK_BKT a (s\<lparr>ut_mem := m', ut_tbl := t'\<rparr>)) (\<lambda>s2.
                       bindU (HASH_DELETE_HH a s2) (\<lambda>s3. Some (Inr (True, s3))))
        else Some (Inr (False, s\<lparr>ut_mem := m', ut_tbl := t'\<rparr>)))"
    "HASH_ADD_TO_TABLE malloc h a s =
      bindU (HASH_ADD_TO_BKT malloc b a (ut_mem s) t1) (\<lambda>(m', t'). Some (Inr (s\<lparr>ut_mem := m', ut_tbl := t'\<rparr>)))"
    by (simp_all add: HASH_ADD_TO_TABLE_nonfatal_def HASH_ADD_TO_TABLE_def Let_def h b_def t1_def)
  show ?thesis
  proof (rule HASH_ADD_TO_BKT_nonfatal_rep [OF rep finite_set a mb b_def])
    fix m' t' assume "HASH_ADD_TO_BKT_nonfatal malloc b a (ut_mem s) t1 = Some (Inr (False, m', t'))"
      "HASH_ADD_TO_BKT malloc b a (ut_mem s) t1 = Some (Inr (m', t'))"
    then show ?thesis unfolding eq by (intro exI [of _ False] exI [of _ "s\<lparr>ut_mem := m', ut_tbl := t'\<rparr>"]) simp
  next
    fix m' t' assume oom: "HASH_ADD_TO_BKT_nonfatal malloc b a (ut_mem s) t1 = Some (Inr (True, m', t'))"
      "HASH_ADD_TO_BKT malloc b a (ut_mem s) t1 = Some (Inl Exit_oom)" "tbl_rep m' t' (set xs)" "same_handles (ut_mem s) m'"
      "num_items t' = num_items t1" "ut_tail t' = ut_tail t1"
    let ?s = "s\<lparr>ut_mem := m', ut_tbl := t'\<rparr>"
    have "\<exists>s2 s3. HASH_ROLLBACK_BKT a ?s = Some (Inr s2) \<and> HASH_DELETE_HH a s2 = Some (Inr s3) \<and> ut_rep s3 xs \<and>
        hh_key (ut_mem s3) = hh_key (ut_mem ?s)"
      by (rule rollback_delete) (use d len oom(3-6) t ko in \<open>simp_all add: same_handles_def t1_def keys_ok_def\<close>)
    then obtain s2 s3 where "HASH_ROLLBACK_BKT a ?s = Some (Inr s2)" "HASH_DELETE_HH a s2 = Some (Inr s3)" "ut_rep s3 xs"
        "hh_key (ut_mem s3) = hh_key (ut_mem ?s)" by blast
    then show ?thesis
      using oom(1,2,4) unfolding eq by (intro exI [of _ True] exI [of _ s3]) (simp add: same_handles_def)
  qed
qed

lemma HASH_MAKE_TABLE_nonfatal_eq:
  "HASH_MAKE_TABLE malloc a = (case HASH_MAKE_TABLE_nonfatal malloc a of None \<Rightarrow> Some (Inl Exit_oom) | Some t \<Rightarrow> Some (Inr t))"
  by (simp add: HASH_MAKE_TABLE_def HASH_MAKE_TABLE_nonfatal_def)

lemma HASH_ADD_nonfatal_empty:
  assumes rep: "ut_rep s []" and key: "length key < 2 ^ 32" and mb: "malloc_bounded malloc"
  shows "\<exists>oomed s'. HASH_ADD_nonfatal malloc key a s = Some (Inr (oomed, s')) \<and>
    (if oomed then HASH_ADD malloc key a s = Some (Inl Exit_oom) \<and> ut_rep s' [] else HASH_ADD malloc key a s = Some (Inr s'))"
proof -
  let ?m2 = "(set_handle a key (ut_mem s))\<lparr>app_next := (app_next (ut_mem s))(a := None), app_prev := (app_prev (ut_mem s))(a := None)\<rparr>"
  have h: "ut_head s = None" using rep by simp
  show ?thesis
  proof (cases "HASH_MAKE_TABLE_nonfatal malloc a")
    case None
    then show ?thesis
      using h by (intro exI [of _ True]) (simp add: HASH_ADD_nonfatal_def HASH_ADD_KEYPTR_BYHASHVALUE_nonfatal_def HASH_ADD_TO_TABLE_nonfatal_def
          HASH_ADD_def HASH_ADD_KEYPTR_BYHASHVALUE_def HASH_MAKE_TABLE_nonfatal_eq Let_def)
  next
    case (Some t)
    let ?s1 = "s\<lparr>ut_mem := ?m2, ut_tbl := t, ut_head := Some a\<rparr>"
    have eq: "HASH_ADD_nonfatal malloc key a s = HASH_ADD_TO_TABLE_nonfatal malloc (HASH_JEN key) a (False, ?s1)"
      "HASH_ADD malloc key a s = HASH_ADD_TO_TABLE malloc (HASH_JEN key) a ?s1"
      using h Some by (simp_all add: HASH_ADD_nonfatal_def HASH_ADD_KEYPTR_BYHASHVALUE_nonfatal_def HASH_ADD_def
          HASH_ADD_KEYPTR_BYHASHVALUE_def HASH_MAKE_TABLE_nonfatal_eq Let_def set_handle_def)
    have t: "ut_tail t = Some a \<and> num_items t = 0 \<and> tbl_rep ?m2 t {}"
      by (rule HASH_MAKE_TABLE_cases [where malloc = malloc and a = a and m = ?m2]) (use Some in \<open>simp_all add: HASH_MAKE_TABLE_nonfatal_eq\<close>)
    have "\<exists>oomed s'. HASH_ADD_TO_TABLE_nonfatal malloc (HASH_JEN key) a (False, ?s1) = Some (Inr (oomed, s')) \<and>
        (if oomed then HASH_ADD_TO_TABLE malloc (HASH_JEN key) a ?s1 = Some (Inl Exit_oom) \<and> ut_rep s' [] \<and>
            hh_key (ut_mem s') = hh_key (ut_mem ?s1)
         else HASH_ADD_TO_TABLE malloc (HASH_JEN key) a ?s1 = Some (Inr s'))"
      by (rule HASH_ADD_TO_TABLE_nonfatal_rep) (use t mb in \<open>simp_all add: keys_ok_def set_handle_def\<close>)
    then obtain oomed s' where "HASH_ADD_TO_TABLE_nonfatal malloc (HASH_JEN key) a (False, ?s1) = Some (Inr (oomed, s'))"
      "if oomed then HASH_ADD_TO_TABLE malloc (HASH_JEN key) a ?s1 = Some (Inl Exit_oom) \<and> ut_rep s' []
       else HASH_ADD_TO_TABLE malloc (HASH_JEN key) a ?s1 = Some (Inr s')"
      by (auto split: if_splits)
    then show ?thesis unfolding eq by blast
  qed
qed

lemma HASH_ADD_nonfatal_nonempty:
  assumes rep: "ut_rep s xs" and ne: "xs \<noteq> []" and a: "a \<notin> set xs" and len: "length xs + 1 < 2 ^ 32" and mb: "malloc_bounded malloc"
  shows "\<exists>oomed s'. HASH_ADD_nonfatal malloc key a s = Some (Inr (oomed, s')) \<and>
    (if oomed then HASH_ADD malloc key a s = Some (Inl Exit_oom) \<and> ut_rep s' xs \<and> hh_key (ut_mem s') = (hh_key (ut_mem s))(a := key)
     else HASH_ADD malloc key a s = Some (Inr s'))"
proof -
  obtain h where h: "ut_head s = Some h" using ut_rep_head [OF rep] ne by (cases xs) auto
  show ?thesis
  proof (rule HASH_APPEND_LIST_rep [OF rep ne a, of key])
    fix s1 assume s1: "HASH_APPEND_LIST a (s\<lparr>ut_mem := set_handle a key (ut_mem s)\<rparr>) = Some (Inr s1)"
      "hh_hashv (ut_mem s1) = (hh_hashv (ut_mem s))(a := HASH_JEN key)" "hh_key (ut_mem s1) = (hh_key (ut_mem s))(a := key)"
      "hh_keylen (ut_mem s1) = (hh_keylen (ut_mem s))(a := of_nat (length key))"
      "dll (app_next (ut_mem s1)) (app_prev (ut_mem s1)) None (ut_head s1) (xs @ [a])"
      "ut_tail (ut_tbl s1) = Some a" "num_items (ut_tbl s1) = of_nat (length xs)" "tbl_rep (ut_mem s1) (ut_tbl s1) (set xs)"
    have eq: "HASH_ADD malloc key a s = HASH_ADD_TO_TABLE malloc (HASH_JEN key) a s1"
      "HASH_ADD_nonfatal malloc key a s = HASH_ADD_TO_TABLE_nonfatal malloc (HASH_JEN key) a (False, s1)"
      using h s1(1) by (simp_all add: HASH_ADD_def HASH_ADD_KEYPTR_BYHASHVALUE_def HASH_ADD_nonfatal_def
          HASH_ADD_KEYPTR_BYHASHVALUE_nonfatal_def Let_def set_handle_def)
    have k: "keys_ok (ut_mem s1) xs" "distinct (xs @ [a])" "HASH_JEN key = hh_hashv (ut_mem s1) a"
      using rep a s1(2-4) by (auto simp: keys_ok_def ut_rep_def)
    show ?thesis
      using HASH_ADD_TO_TABLE_nonfatal_rep [OF s1(5) k(2) len mb s1(8,6,7) k(1,3)] unfolding eq s1(3) .
  qed
qed

lemma HASH_ADD_nonfatal_rep:
  assumes "ut_rep s xs" "a \<notin> set xs" "length key < 2 ^ 32" "length xs + 1 < 2 ^ 32" "malloc_bounded malloc"
  shows "\<exists>oomed s'. HASH_ADD_nonfatal malloc key a s = Some (Inr (oomed, s')) \<and>
    (if oomed then HASH_ADD malloc key a s = Some (Inl Exit_oom) \<and> ut_rep s' xs \<and> (\<forall>x \<in> set xs. hh_key (ut_mem s') x = hh_key (ut_mem s) x)
     else HASH_ADD malloc key a s = Some (Inr s'))"
proof (cases "xs = []")
  case True
  then show ?thesis using HASH_ADD_nonfatal_empty [of s key malloc a] assms(1,3,5) by (metis empty_iff list.set(1))
next
  case False
  then show ?thesis
    using HASH_ADD_nonfatal_nonempty [OF assms(1) False assms(2,4,5), of key] assms(2) by (metis fun_upd_other)
qed

section \<open>Property\<close>

text \<open>
  C13. Insertion under \<open>HASH_NONFATAL_OOM\<close> is all or nothing: it always returns, and it reports failure exactly when
  the default configuration would end the process; on failure the roll-back has restored a well-formed table with the old
  elements in the old order and their keys, on success the result is the one of the default configuration.  Either way the table
  passes the integrity check.
\<close>

theorem uthash_oom_atomic:
  assumes "ut_rep s xs" "a \<notin> set xs" "length key < 2 ^ 32" "length xs + 1 < 2 ^ 32" "malloc_bounded malloc"
  shows "\<exists>oomed s'. HASH_ADD_nonfatal malloc key a s = Some (Inr (oomed, s')) \<and>
    (oomed \<longleftrightarrow> HASH_ADD malloc key a s = Some (Inl Exit_oom)) \<and> (\<not> oomed \<longrightarrow> HASH_ADD malloc key a s = Some (Inr s')) \<and>
    ut_rep s' (if oomed then xs else xs @ [a]) \<and> (\<forall>x \<in> set xs. hh_key (ut_mem s') x = hh_key (ut_mem s) x) \<and>
    HASH_FSCK s' = Some True"
proof -
  obtain oomed s' where s': "HASH_ADD_nonfatal malloc key a s = Some (Inr (oomed, s'))"
    "if oomed then HASH_ADD malloc key a s = Some (Inl Exit_oom) \<and> ut_rep s' xs \<and> (\<forall>x \<in> set xs. hh_key (ut_mem s') x = hh_key (ut_mem s) x)
     else HASH_ADD malloc key a s = Some (Inr s')"
    using HASH_ADD_nonfatal_rep [OF assms] by blast
  have "ut_rep s' (if oomed then xs else xs @ [a])" "\<forall>x \<in> set xs. hh_key (ut_mem s') x = hh_key (ut_mem s) x"
    using s'(2) HASH_ADD_rep [OF assms] assms(2) by (auto split: if_splits)
  then show ?thesis using s' HASH_FSCK_rep by (cases oomed) auto
qed

theorem uthash_oom_atomic_witness:
  "\<exists>s s'. HASH_ADD small_malloc (lit ''k'') 1 ut_empty = Some (Inr s) \<and>
     HASH_ADD_nonfatal (\<lambda>_. False) (lit ''k'') 1 ut_empty = Some (Inr (True, s')) \<and> ut_rep s' [] \<and>
     HASH_ADD_nonfatal small_malloc (lit ''k'') 1 ut_empty = Some (Inr (False, s)) \<and> HASH_FSCK s = Some True"
proof -
  obtain s where s: "HASH_ADD small_malloc (lit ''k'') 1 ut_empty = Some (Inr s)" using ut_one [of "lit ''k''" 1] by auto
  have e: "ut_rep ut_empty []" "malloc_bounded (\<lambda>_. False)" by (simp_all add: ut_empty_def malloc_bounded_def)
  have "HASH_ADD (\<lambda>_. False) (lit ''k'') 1 ut_empty = Some (Inl Exit_oom)"
    by (simp add: HASH_ADD_def HASH_ADD_KEYPTR_BYHASHVALUE_def HASH_MAKE_TABLE_def ut_empty_def Let_def)
  then show ?thesis
    using s uthash_oom_atomic [OF e(1) _ _ _ e(2), of 1 "lit ''k''"]
      uthash_oom_atomic [OF e(1) _ _ _ small_malloc_bounded, of 1 "lit ''k''"] by (auto split: if_splits)
qed

end
