(* ===== verification/UthashSelectOom.thy ===== *)
theory UthashSelectOom
  imports UthashSelect UthashOom
begin

text \<open>
  \<open>HASH_SELECT\<close> of \<open>src/utils/uthash.h\<close> compiled with \<open>HASH_NONFATAL_OOM\<close>: an element for which an allocation fails is left out of
  the new table and reported through \<open>uthash_nonfatal_oom\<close>, and the selection goes on with the next element.  The list in front of
  the results below holds the reported elements, in the order of the reports.

  The default configuration is an abstraction of this one: \<open>as_default\<close> forgets the table as soon as something was reported, and
  every loop commutes with it.
\<close>

section \<open>The macro\<close>

text \<open>The body of the loops for a selected element; the first component of the result is \<open>_hs_oomed\<close>, the second \<open>_last_elt\<close>.\<close>

definition select_elt_nonfatal ::
  "(size_t \<Rightarrow> bool) \<Rightarrow> ut_heap \<Rightarrow> addr \<Rightarrow> addr option \<times> ut_state \<Rightarrow> (bool \<times> addr option \<times> ut_state) ut" where
  "select_elt_nonfatal malloc src_m x ld =
     (case ld of (last_elt, dst) \<Rightarrow>
        let m = select_link src_m x last_elt (ut_mem dst)
        in case (case ut_head dst of
                   None \<Rightarrow> (case HASH_MAKE_TABLE_nonfatal malloc x of
                             None \<Rightarrow> None
                           | Some t \<Rightarrow> Some (dst\<lparr>ut_mem := m, ut_tbl := t, ut_head := Some x\<rparr>))
                 | Some _ \<Rightarrow> Some (dst\<lparr>ut_mem := m\<rparr>)) of
             None \<Rightarrow> Some (Inr (True, last_elt, dst\<lparr>ut_mem := m, ut_head := None\<rparr>))
           | Some d \<Rightarrow>
               bindU (HASH_ADD_TO_BKT_nonfatal malloc (unat (HASH_TO_BKT (hh_hashv (ut_mem d) x) (num_buckets (ut_tbl d)))) x
                        (ut_mem d) (ut_tbl d))
                 (\<lambda>(oomed, m', t').
                    let d1 = d\<lparr>ut_mem := m', ut_tbl := t'\<lparr>num_items := num_items t' + 1\<rparr>\<rparr> in
                    if oomed
                    then bindU (HASH_ROLLBACK_BKT x d1) (\<lambda>d2.
                         bindU (HASH_DELETE_HH x d2) (\<lambda>d3. Some (Inr (True, last_elt, d3))))
                    else Some (Inr (False, Some x, d1))))"

partial_function (option) select_chain_nonfatal ::
  "(size_t \<Rightarrow> bool) \<Rightarrow> (addr \<Rightarrow> bool) \<Rightarrow> ut_heap \<Rightarrow> addr option \<Rightarrow> addr list \<times> addr option \<times> ut_state \<Rightarrow>
     (addr list \<times> addr option \<times> ut_state) ut" where [code]:
  "select_chain_nonfatal malloc cond src_m src_hh st =
     (case src_hh of None \<Rightarrow> Some (Inr st)
      | Some x \<Rightarrow>
          if cond x
          then (case select_elt_nonfatal malloc src_m x (snd st) of
                  None \<Rightarrow> None
                | Some (Inl e) \<Rightarrow> Some (Inl e)
                | Some (Inr (oomed, ld)) \<Rightarrow>
                    select_chain_nonfatal malloc cond src_m (hh_next src_m x) (if oomed then fst st @ [x] else fst st, ld))
          else select_chain_nonfatal malloc cond src_m (hh_next src_m x) st)"

fun select_buckets_nonfatal ::
  "(size_t \<Rightarrow> bool) \<Rightarrow> (addr \<Rightarrow> bool) \<Rightarrow> ut_heap \<Rightarrow> ut_bucket list \<Rightarrow> addr list \<times> addr option \<times> ut_state \<Rightarrow>
     (addr list \<times> addr option \<times> ut_state) ut" where
  "select_buckets_nonfatal malloc cond src_m [] st = Some (Inr st)"
| "select_buckets_nonfatal malloc cond src_m (k # ks) st =
     bindU (select_chain_nonfatal malloc cond src_m (bkt_head k) st) (select_buckets_nonfatal malloc cond src_m ks)"

definition HASH_SELECT_nonfatal ::
  "(size_t \<Rightarrow> bool) \<Rightarrow> (addr \<Rightarrow> bool) \<Rightarrow> ut_state \<Rightarrow> ut_state \<Rightarrow> (addr list \<times> ut_state) ut" where
  "HASH_SELECT_nonfatal malloc cond src dst =
     (case ut_head src of None \<Rightarrow> Some (Inr ([], dst))
      | Some _ \<Rightarrow>
          bindU (select_buckets_nonfatal malloc cond (ut_mem src)
                   (take (unat (num_buckets (ut_tbl src))) (ut_buckets (ut_tbl src))) ([], None, dst))
            (\<lambda>(lost, last_elt, dst'). Some (Inr (lost, dst'))))"

section \<open>One element\<close>

text \<open>The last steps for one element, once it is linked behind the ones before it: it is added, as in the default configuration, or
  taken out again.\<close>

lemma select_elt_nonfatal_bkt:
  assumes lk: "select_linked m d ys x" and len: "length ys + 1 < 2 ^ 32" and mb: "malloc_bounded malloc"
    and l: "l = (if ys = [] then None else Some (last ys))"
    and b: "b = unat (HASH_TO_BKT (hh_hashv (ut_mem d) x) (num_buckets (ut_tbl d)))"
  shows "\<exists>oomed ld. bindU (HASH_ADD_TO_BKT_nonfatal malloc b x (ut_mem d) (ut_tbl d))
      (\<lambda>(oomed, m', t').
         let d1 = d\<lparr>ut_mem := m', ut_tbl := t'\<lparr>num_items := num_items t' + 1\<rparr>\<rparr> in
         if oomed then bindU (HASH_ROLLBACK_BKT x d1) (\<lambda>d2. bindU (HASH_DELETE_HH x d2) (\<lambda>d3. Some (Inr (True, l, d3))))
         else Some (Inr (False, Some x, d1))) = Some (Inr (oomed, ld)) \<and>
    (oomed \<longrightarrow> selecting m ld ys) \<and>
    bindU (HASH_ADD_TO_BKT malloc b x (ut_mem d) (ut_tbl d))
      (\<lambda>(m', t'). Some (Inr (Some x, d\<lparr>ut_mem := m', ut_tbl := t'\<lparr>num_items := num_items t' + 1\<rparr>\<rparr>))) =
      (if oomed then Some (Inl Exit_oom) else Some (Inr ld))"
proof -
  note lk = lk [unfolded select_linked_def]
  have x: "x \<notin> set ys" and rep: "tbl_rep (ut_mem d) (ut_tbl d) (set ys)" using lk by simp_all
  show ?thesis
  proof (rule HASH_ADD_TO_BKT_nonfatal_rep [OF rep finite_set x mb b])
    fix m' t' assume "HASH_ADD_TO_BKT_nonfatal malloc b x (ut_mem d) (ut_tbl d) = Some (Inr (False, m', t'))"
      "HASH_ADD_TO_BKT malloc b x (ut_mem d) (ut_tbl d) = Some (Inr (m', t'))"
    then show ?thesis by (intro exI [of _ False]) simp
  next
    fix m' t' assume o: "HASH_ADD_TO_BKT_nonfatal malloc b x (ut_mem d) (ut_tbl d) = Some (Inr (True, m', t'))"
      "HASH_ADD_TO_BKT malloc b x (ut_mem d) (ut_tbl d) = Some (Inl Exit_oom)" "tbl_rep m' t' (set ys)"
      "same_handles (ut_mem d) m'" "num_items t' = num_items (ut_tbl d)" "ut_tail t' = ut_tail (ut_tbl d)"
    let ?d = "d\<lparr>ut_mem := m', ut_tbl := t'\<lparr>num_items := num_items t' + 1\<rparr>\<rparr>"
    have "tbl_rep m' (ut_tbl ?d) (set ys)" using o(3) tbl_rep_cong [of m' m' "set ys" "ut_tbl ?d" t'] by simp
    then obtain d2 d3 where r: "HASH_ROLLBACK_BKT x ?d = Some (Inr d2)" "HASH_DELETE_HH x d2 = Some (Inr d3)"
      "same_keys m' (ut_mem d3)" "dll (app_next (ut_mem d3)) (app_prev (ut_mem d3)) None (ut_head d3) ys"
      "ys \<noteq> [] \<longrightarrow> tbl_rep (ut_mem d3) (ut_tbl d3) (set ys) \<and> num_items (ut_tbl d3) = of_nat (length ys) \<and>
         ut_tail (ut_tbl d3) = (if ut_tail t' = Some x then Some (last ys) else ut_tail t')"
      using rollback_delete_tail [of ?d ys x] lk o(4,5) by (auto simp: same_handles_def)
    have "ys \<noteq> [] \<longrightarrow> ut_tail t' = Some (hd ys) \<and> hd ys \<noteq> x" using o(6) lk x by (cases ys) auto
    then have "selecting m (l, d3) ys"
      using r(3-5) o(4) lk len l by (auto simp: selecting_rep same_keys_def same_handles_def keys_ok_def)
    then show ?thesis using o(1,2) r(1,2) by (intro exI [of _ True] exI [of _ "(l, d3)"]) simp
  qed
qed

text \<open>An element that is not reported goes into the table as in the default configuration; where the default configuration
  ends the process, the element is reported and the table is as before.\<close>

lemma select_elt_nonfatal_rep:
  assumes sel: "selecting m (l, d) ys" and x: "x \<notin> set ys" and len: "length ys + 1 < 2 ^ 32" and mb: "malloc_bounded malloc"
    and k: "keys_ok m [x]"
  shows "\<exists>oomed ld. select_elt_nonfatal malloc m x (l, d) = Some (Inr (oomed, ld)) \<and>
    selecting m ld (if oomed then ys else ys @ [x]) \<and>
    select_elt malloc m x (l, d) = (if oomed then Some (Inl Exit_oom) else Some (Inr ld))"
proof -
  note defs = select_elt_nonfatal_def select_elt_def HASH_MAKE_TABLE_nonfatal_eq Let_def
  have l: "l = (if ys = [] then None else Some (last ys))" using sel by (simp add: selecting_rep)
  note h = selecting_head [OF sel]
  have "\<exists>oomed ld. select_elt_nonfatal malloc m x (l, d) = Some (Inr (oomed, ld)) \<and> (oomed \<longrightarrow> selecting m ld ys) \<and>
      select_elt malloc m x (l, d) = (if oomed then Some (Inl Exit_oom) else Some (Inr ld))"
  proof (cases "ys = []")
    case True
    show ?thesis
    proof (cases "HASH_MAKE_TABLE_nonfatal malloc x")
      case None
      then show ?thesis using h l True by (intro exI [of _ True]) (simp add: defs selecting_rep keys_ok_def)
    next
      case (Some t)
      then have mt: "HASH_MAKE_TABLE malloc x = Some (Inr t)" by (simp add: HASH_MAKE_TABLE_nonfatal_eq)
      have "l = None" using l True by simp
      then show ?thesis
        using select_elt_nonfatal_bkt [OF select_link_first [OF sel [unfolded True] k mt] _ mb _ refl, of None] Some h True
        by (simp add: defs split del: if_split)
    qed
  next
    case False
    from select_elt_nonfatal_bkt [OF select_link_next [OF sel False x k] len mb l refl] show ?thesis
      using h False by (simp add: defs split del: if_split)
  qed
  then show ?thesis using select_elt_rep [OF assms] by (auto split: if_splits)
qed

section \<open>The loops\<close>

text \<open>What the default configuration makes of a state: it has ended the process at the first report.\<close>

definition as_default :: "addr list \<times> 'a \<Rightarrow> 'a ut" where
  "as_default st = (if fst st = [] then Some (Inr (snd st)) else Some (Inl Exit_oom))"

text \<open>The elements \<^term>\<open>F\<close> have been met: each is in the table or reported, and in one of the two only.\<close>

definition select_met :: "ut_heap \<Rightarrow> addr list \<times> addr option \<times> ut_state \<Rightarrow> addr set \<Rightarrow> bool" where
  "select_met m st F \<longleftrightarrow> (\<exists>ys. selecting m (snd st) ys \<and> distinct (ys @ fst st) \<and> set (ys @ fst st) = F)"

lemma select_met_elt:
  assumes met: "select_met m st F" and x: "x \<notin> F" and len: "card F + 1 < 2 ^ 32" and mb: "malloc_bounded malloc" and k: "keys_ok m [x]"
  shows "\<exists>oomed ld. select_elt_nonfatal malloc m x (snd st) = Some (Inr (oomed, ld)) \<and>
    select_met m (if oomed then fst st @ [x] else fst st, ld) (insert x F) \<and>
    bindU (as_default st) (select_elt malloc m x) = as_default (if oomed then fst st @ [x] else fst st, ld)"
proof -
  obtain lost l d where st: "st = (lost, l, d)" by (cases st) auto
  obtain ys where ys: "selecting m (l, d) ys" "distinct (ys @ lost)" "set (ys @ lost) = F" using met by (auto simp: select_met_def st)
  have "length (ys @ lost) = card F" using distinct_card [OF ys(2)] ys(3) by simp
  then have "x \<notin> set ys" "length ys + 1 < 2 ^ 32" using x ys(3) len by auto
  from select_elt_nonfatal_rep [OF ys(1) this mb k] obtain oomed ld where
    e: "select_elt_nonfatal malloc m x (l, d) = Some (Inr (oomed, ld))" "selecting m ld (if oomed then ys else ys @ [x])"
      "select_elt malloc m x (l, d) = (if oomed then Some (Inl Exit_oom) else Some (Inr ld))" by blast
  let ?ys = "if oomed then ys else ys @ [x]"
  have "distinct (?ys @ (if oomed then lost @ [x] else lost))" "set (?ys @ (if oomed then lost @ [x] else lost)) = insert x F"
    using ys(2,3) x by auto
  then have "select_met m (if oomed then lost @ [x] else lost, ld) (insert x F)"
    unfolding select_met_def fst_conv snd_conv using e(2) by blast
  then show ?thesis using e(1,3) by (intro exI [of _ oomed] exI [of _ ld]) (cases oomed; simp add: st as_default_def)
qed

lemma select_chain_some:
  "cond x \<Longrightarrow> select_chain malloc cond m (Some x) ld = bindU (select_elt malloc m x ld) (select_chain malloc cond m (hh_next m x))"
  by (subst select_chain.simps) (simp add: bindU_def)

lemma select_chain_met:
  "nchain (hh_next m) p zs \<Longrightarrow> select_met m st F \<Longrightarrow> finite F \<Longrightarrow> distinct zs \<Longrightarrow> F \<inter> set zs = {} \<Longrightarrow> card F + length zs < 2 ^ 32 \<Longrightarrow>
   malloc_bounded malloc \<Longrightarrow> keys_ok m zs \<Longrightarrow>
   \<exists>st'. select_chain_nonfatal malloc cond m p st = Some (Inr st') \<and> select_met m st' (F \<union> {x \<in> set zs. cond x}) \<and>
     bindU (as_default st) (select_chain malloc cond m p) = as_default st'"
proof (induction zs arbitrary: p st F)
  case Nil
  then have "select_chain_nonfatal malloc cond m p st = Some (Inr st)" "select_chain malloc cond m p (snd st) = Some (Inr (snd st))"
    by (subst select_chain_nonfatal.simps select_chain.simps, simp)+
  then show ?case using Nil.prems(2) by (simp add: as_default_def)
next
  case (Cons x zs)
  have p: "p = Some x" "nchain (hh_next m) (hh_next m x) zs" and k: "keys_ok m [x]" "keys_ok m zs"
    using Cons.prems(1,8) by (auto simp: keys_ok_def)
  show ?case
  proof (cases "cond x")
    case False
    then have "select_chain_nonfatal malloc cond m p st = select_chain_nonfatal malloc cond m (hh_next m x) st"
      "select_chain malloc cond m p (snd st) = select_chain malloc cond m (hh_next m x) (snd st)"
      using p(1) by (subst select_chain_nonfatal.simps select_chain.simps, simp)+
    then have "select_chain_nonfatal malloc cond m p st = select_chain_nonfatal malloc cond m (hh_next m x) st"
      "bindU (as_default st) (select_chain malloc cond m p) = bindU (as_default st) (select_chain malloc cond m (hh_next m x))"
      by (simp_all add: as_default_def)
    moreover have "{y \<in> set (x # zs). cond y} = {y \<in> set zs. cond y}" using False by auto
    ultimately show ?thesis using Cons.IH [OF p(2) Cons.prems(2,3)] Cons.prems(4-7) k(2) by simp
  next
    case True
    have "x \<notin> F" "card F + 1 < 2 ^ 32" using Cons.prems(5,6) by auto
    from select_met_elt [OF Cons.prems(2) this Cons.prems(7) k(1)] obtain oomed ld where
      e: "select_elt_nonfatal malloc m x (snd st) = Some (Inr (oomed, ld))"
        "select_met m (if oomed then fst st @ [x] else fst st, ld) (insert x F)"
        "bindU (as_default st) (select_elt malloc m x) = as_default (if oomed then fst st @ [x] else fst st, ld)" by blast
    let ?st = "(if oomed then fst st @ [x] else fst st, ld)"
    have "select_chain_nonfatal malloc cond m p st = select_chain_nonfatal malloc cond m (hh_next m x) ?st"
      using p(1) True e(1) by (subst select_chain_nonfatal.simps) simp
    moreover have "bindU (as_default st) (select_chain malloc cond m p) =
        bindU (as_default ?st) (select_chain malloc cond m (hh_next m x))"
      unfolding e(3) [symmetric] p(1) by (simp add: as_default_def select_chain_some [of cond, OF True])
    moreover have "card (insert x F) + length zs < 2 ^ 32" "insert x F \<inter> set zs = {}"
      using Cons.prems(3-6) by (auto simp: card_insert_if)
    moreover have "F \<union> {y \<in> set (x # zs). cond y} = insert x F \<union> {y \<in> set zs. cond y}" using True by auto
    ultimately show ?thesis using Cons.IH [OF p(2) e(2)] Cons.prems(3,4,7) k(2) by simp
  qed
qed

lemma select_buckets_met:
  fixes m n defines "B \<equiv> \<lambda>x. unat (HASH_TO_BKT (hh_hashv m x) (of_nat n))"
  assumes rep: "buckets_rep m n bs S" and S: "finite S" "card S < 2 ^ 32" and mb: "malloc_bounded malloc"
    and ko: "\<And>xs. set xs \<subseteq> S \<Longrightarrow> keys_ok m xs"
  shows "i \<le> n \<Longrightarrow> select_met m st {x \<in> S. B x < i \<and> cond x} \<Longrightarrow>
    \<exists>st'. select_buckets_nonfatal malloc cond m (drop i bs) st = Some (Inr st') \<and> select_met m st' {x \<in> S. B x < n \<and> cond x} \<and>
      bindU (as_default st) (select_buckets malloc cond m (drop i bs)) = as_default st'"
proof (induction "n - i" arbitrary: i st)
  case 0
  have i: "i = n" using 0 by simp
  then have d: "drop i bs = []" using rep by (simp add: buckets_rep_def)
  show ?case unfolding d using 0(3) unfolding i by (cases "fst st = []") (simp_all add: as_default_def)
next
  case (Suc j)
  have i: "i < n" "length bs = n" using Suc.hyps(2) rep by (auto simp: buckets_rep_def)
  then have d: "drop i bs = bs ! i # drop (i + 1) bs" by (simp add: Cons_nth_drop_Suc)
  let ?F = "{x \<in> S. B x < i \<and> cond x}"
  obtain ys where ys: "dll (hh_next m) (hh_prev m) None (bkt_head (bs ! i)) ys" "distinct ys" "set ys = {x \<in> S. B x = i}"
    using rep i unfolding buckets_rep_def B_def by blast
  have F: "finite ?F" "?F \<inter> set ys = {}" "set ys \<subseteq> S" using S(1) ys(3) by auto
  have "card ?F + length ys = card (?F \<union> set ys)" using card_Un_disjoint [OF F(1) finite_set F(2)] distinct_card [OF ys(2)] by simp
  also have "\<dots> \<le> card S" by (rule card_mono [OF S(1)]) (use F(3) in auto)
  finally have len: "card ?F + length ys < 2 ^ 32" using S(2) by linarith
  from select_chain_met [OF dll_nchain [OF ys(1)] Suc.prems(2) F(1) ys(2) F(2) len mb ko [OF F(3)], of cond] obtain st1 where
    e: "select_chain_nonfatal malloc cond m (bkt_head (bs ! i)) st = Some (Inr st1)"
      "select_met m st1 (?F \<union> {x \<in> set ys. cond x})"
      "bindU (as_default st) (select_chain malloc cond m (bkt_head (bs ! i))) = as_default st1" by blast
  have "?F \<union> {x \<in> set ys. cond x} = {x \<in> S. B x < i + 1 \<and> cond x}" unfolding ys(3) by (auto simp: less_Suc_eq)
  then have met: "select_met m st1 {x \<in> S. B x < i + 1 \<and> cond x}" using e(2) by simp
  have "bindU (as_default st) (select_buckets malloc cond m (drop i bs)) =
      bindU (as_default st1) (select_buckets malloc cond m (drop (i + 1) bs))"
    unfolding e(3) [symmetric] d by (simp add: as_default_def)
  moreover have "select_buckets_nonfatal malloc cond m (drop i bs) st = select_buckets_nonfatal malloc cond m (drop (i + 1) bs) st1"
    unfolding d using e(1) by simp
  moreover have "j = n - (i + 1)" "i + 1 \<le> n" using Suc.hyps(2) i(1) by simp_all
  ultimately show ?case using Suc.hyps(1) [OF _ _ met] by simp
qed

lemma HASH_SELECT_nonfatal_met:
  assumes rep: "ut_rep src xs" and dst: "ut_head dst = None" and mb: "malloc_bounded malloc"
  shows "\<exists>lost ld. HASH_SELECT_nonfatal malloc cond src dst = Some (Inr (lost, snd ld)) \<and>
    select_met (ut_mem src) (lost, ld) {x \<in> set xs. cond x} \<and> HASH_SELECT malloc cond src dst = as_default (lost, snd ld)"
proof (cases "xs = []")
  case True
  then show ?thesis
    using rep dst by (intro exI [of _ "[]"] exI [of _ "(None, dst)"])
      (simp add: HASH_SELECT_nonfatal_def HASH_SELECT_def select_met_def selecting_rep keys_ok_def as_default_def)
next
  case False
  let ?m = "ut_mem src" and ?t = "ut_tbl src"
  have r: "tbl_rep ?m ?t (set xs)" "keys_ok ?m xs" "distinct xs" "length xs < 2 ^ 32" using rep False by (auto simp: ut_rep_def)
  obtain h where h: "ut_head src = Some h" using ut_rep_head [OF rep] False by (cases xs) auto
  obtain l where l: "l < 32" "num_buckets ?t = of_nat (2 ^ l)" "buckets_rep ?m (2 ^ l) (ut_buckets ?t) (set xs)"
    using r(1) by (auto simp: tbl_rep_def)
  have len: "take (unat (num_buckets ?t)) (ut_buckets ?t) = drop 0 (ut_buckets ?t)"
    using l(3) unat_pow2 [OF l(1)] unfolding l(2) by (simp add: buckets_rep_def)
  have card: "card (set xs) < 2 ^ 32" using r(3,4) by (simp add: distinct_card)
  have ko: "keys_ok ?m ys" if "set ys \<subseteq> set xs" for ys using that r(2) by (auto simp: keys_ok_def)
  have start: "select_met ?m ([], None, dst) {}" using dst by (simp add: select_met_def selecting_rep keys_ok_def)
  have all: "{x \<in> set xs. unat (HASH_TO_BKT (hh_hashv ?m x) (of_nat (2 ^ l))) < 2 ^ l \<and> cond x} = {x \<in> set xs. cond x}"
    using to_bkt_bound [OF l(1)] by auto
  obtain lost ld where e: "select_buckets_nonfatal malloc cond ?m (drop 0 (ut_buckets ?t)) ([], None, dst) = Some (Inr (lost, ld))"
    "select_met ?m (lost, ld) {x \<in> set xs. cond x}"
    "select_buckets malloc cond ?m (drop 0 (ut_buckets ?t)) (None, dst) = as_default (lost, ld)"
    using select_buckets_met [OF l(3) finite_set card mb ko, of 0 "([], None, dst)" cond] start unfolding all
    by (auto simp: as_default_def)
  then show ?thesis
    by (intro exI [of _ lost] exI [of _ ld])
      (simp add: HASH_SELECT_nonfatal_def HASH_SELECT_def h len [simplified] as_default_def case_prod_beta)
qed

section \<open>Property\<close>

text \<open>
  C31. \<open>HASH_SELECT\<close> under \<open>HASH_NONFATAL_OOM\<close> always returns and loses nothing silently: every element that satisfies the
  condition is in the new table or has been reported, and never both; the new table has the selected elements in its list and its
  chains, finds exactly their keys, counts them and passes the integrity check.  Its tail stays at the first selected element, so that
  the table is well formed exactly when at most one element was selected.  Where nothing is reported the result is the one of the
  default configuration, and the default configuration ends the process where something is.
\<close>

theorem uthash_select_oom:
  assumes "ut_rep src xs" "ut_head dst = None" "malloc_bounded malloc"
  shows "\<exists>lost d ys. HASH_SELECT_nonfatal malloc cond src dst = Some (Inr (lost, d)) \<and> distinct (ys @ lost) \<and>
    set (ys @ lost) = {x \<in> set xs. cond x} \<and>
    HASH_SELECT malloc cond src dst = (if lost = [] then Some (Inr d) else Some (Inl Exit_oom)) \<and>
    selected_rep d ys \<and> (ut_rep d ys \<longleftrightarrow> length ys \<le> 1) \<and> (\<forall>y \<in> set ys. hh_key (ut_mem d) y = hh_key (ut_mem src) y) \<and>
    HASH_COUNT d = of_nat (length ys) \<and> HASH_FSCK d = Some True \<and>
    (\<forall>key. length key < 2 ^ 32 \<longrightarrow>
       (\<exists>r. HASH_FIND key d = Some (Inr r) \<and> (r = None \<longleftrightarrow> (\<forall>y \<in> set ys. hh_key (ut_mem src) y \<noteq> key))))"
proof -
  obtain lost ld ys where z: "HASH_SELECT_nonfatal malloc cond src dst = Some (Inr (lost, snd ld))"
    "HASH_SELECT malloc cond src dst = as_default (lost, snd ld)" "selecting (ut_mem src) ld ys" "distinct (ys @ lost)"
    "set (ys @ lost) = {x \<in> set xs. cond x}"
    using HASH_SELECT_nonfatal_met [OF assms, of cond] unfolding select_met_def by auto
  let ?d = "snd ld"
  have r: "selected_rep ?d ys" and k: "\<forall>y \<in> set ys. hh_key (ut_mem ?d) y = hh_key (ut_mem src) y"
    using z(3) by (simp_all add: selecting_def)
  have "\<exists>r. HASH_FIND key ?d = Some (Inr r) \<and> (r = None \<longleftrightarrow> (\<forall>y \<in> set ys. hh_key (ut_mem src) y \<noteq> key))"
    if "length key < 2 ^ 32" for key
    using selected_rep_reads(3) [OF r that] k by auto
  then show ?thesis
    using z(1,2,4,5) r k selected_rep_reads(1,2) [OF r] selected_rep_wf [OF r]
    by (intro exI [of _ lost] exI [of _ ?d] exI [of _ ys]) (simp add: as_default_def)
qed

theorem uthash_select_oom_witness:
  "\<exists>s s'. HASH_ADD small_malloc (lit ''b'') 7 ut_empty = Some (Inr s) \<and> HASH_ADD small_malloc (lit ''a'') 3 s = Some (Inr s') \<and>
     (\<exists>lost d ys. HASH_SELECT_nonfatal small_malloc (\<lambda>_. True) s' ut_empty = Some (Inr (lost, d)) \<and>
        set (ys @ lost) = {7, 3} \<and> distinct (ys @ lost) \<and> selected_rep d ys \<and> HASH_FSCK d = Some True) \<and>
     (\<exists>lost d ys. HASH_SELECT_nonfatal (\<lambda>_. False) (\<lambda>x. x = 3) s' ut_empty = Some (Inr (lost, d)) \<and>
        set (ys @ lost) = {3} \<and> HASH_COUNT d = of_nat (length ys))"
proof -
  obtain s s' where s: "HASH_ADD small_malloc (lit ''b'') 7 ut_empty = Some (Inr s)"
    "HASH_ADD small_malloc (lit ''a'') 3 s = Some (Inr s')" "ut_rep s' [7, 3]"
    by (rule ut_two [of "lit ''b''" "lit ''a''" 7 3]) (simp_all add: lit_def)
  have e: "ut_head ut_empty = None" "malloc_bounded (\<lambda>_. False)" by (simp_all add: ut_empty_def malloc_bounded_def)
  have c: "{x \<in> set [7, 3]. x = 3} = {3 :: nat}" "{x \<in> set [7, 3]. True} = {7, 3 :: nat}" by auto
  show ?thesis
    using s(1,2) uthash_select_oom [OF s(3) e(1,2), of "\<lambda>x. x = 3"]
      uthash_select_oom [OF s(3) e(1) small_malloc_bounded, of "\<lambda>_. True"] unfolding c by fast
qed

end
