(* ===== verification/UthashVariants.thy ===== *)
theory UthashVariants
  imports UthashForms UthashOom
begin

text \<open>
  Two more compile-time configurations of \<open>src/utils/uthash.h\<close>.  Without \<open>typeof\<close> (\<open>NO_DECLTYPE\<close>) the search of the ordered
  insertion calls the comparison through the table's head variable, which it saves and puts back; with \<open>HASH_EMIT_KEYS\<close> every
  insertion writes its key, behind the key's length, to a descriptor.
\<close>

section \<open>The ordered search without typeof\<close>

text \<open>The head variable is part of the state of the loop: the result is its value at the end and the position found.\<close>

partial_function (option) akbi_loop_no_decltype ::
  "(addr \<Rightarrow> addr \<Rightarrow> int) \<Rightarrow> ut_heap \<Rightarrow> addr \<Rightarrow> addr \<Rightarrow> addr \<Rightarrow> addr \<Rightarrow> (addr \<times> addr option) option" where [code]:
  "akbi_loop_no_decltype cmpfcn m add saved_head head iter =
     (let head1 = iter in
      if cmpfcn head1 add > 0 then (let head2 = saved_head in Some (head2, Some iter))
      else (let head2 = saved_head in
            case app_next m iter of None \<Rightarrow> Some (head2, None) | Some y \<Rightarrow> akbi_loop_no_decltype cmpfcn m add saved_head head2 y))"

definition AKBI_no_decltype ::
  "(addr \<Rightarrow> addr \<Rightarrow> int) \<Rightarrow> ut_heap \<Rightarrow> addr \<Rightarrow> addr \<Rightarrow> addr \<Rightarrow> (addr \<times> addr option) option" where
  "AKBI_no_decltype cmpfcn m add head iter = akbi_loop_no_decltype cmpfcn m add head head iter"

lemma akbi_loop_no_decltype_eq:
  "nchain (app_next m) (Some iter) xs \<Longrightarrow>
   \<exists>r. akbi_loop cmpfcn m add iter = Some r \<and> akbi_loop_no_decltype cmpfcn m add sh head iter = Some (sh, r)"
proof (induction xs arbitrary: iter head)
  case Nil
  then show ?case by simp
next
  case (Cons x xs)
  then have x: "x = iter" "nchain (app_next m) (app_next m iter) xs" by auto
  show ?case
  proof (cases "app_next m iter")
    case None
    then show ?thesis by (subst akbi_loop.simps, subst akbi_loop_no_decltype.simps) (auto simp: Let_def)
  next
    case (Some y)
    with Cons.IH [of y sh] x(2) show ?thesis
      by (subst akbi_loop.simps, subst akbi_loop_no_decltype.simps) (auto simp: Let_def)
  qed
qed

text \<open>In a well-formed table both spellings find the same place, and the head is what it was.\<close>

theorem akbi_no_decltype_equiv:
  assumes "ut_rep s xs" "ut_head s = Some h"
  shows "\<exists>r. akbi_loop cmpfcn (ut_mem s) add h = Some r \<and> AKBI_no_decltype cmpfcn (ut_mem s) add h h = Some (h, r)"
proof -
  have "nchain (app_next (ut_mem s)) (Some h) xs" using assms dll_nchain by (auto simp: ut_rep_def)
  then show ?thesis unfolding AKBI_no_decltype_def by (rule akbi_loop_no_decltype_eq)
qed

section \<open>Emission of the keys\<close>

text \<open>\<open>write\<close> takes what is behind the descriptor to what is behind it after the call; the code does not look at its result.\<close>

definition HASH_EMIT_KEY :: "('d \<Rightarrow> bytes \<Rightarrow> 'd) \<Rightarrow> bytes \<Rightarrow> u32 \<Rightarrow> 'd \<Rightarrow> 'd" where
  "HASH_EMIT_KEY write keyptr fieldlen fd = write (write fd (mem_bytes 4 fieldlen)) (take (unat fieldlen) keyptr)"

definition HASH_ADD_emit ::
  "(size_t \<Rightarrow> bool) \<Rightarrow> ('d \<Rightarrow> bytes \<Rightarrow> 'd) \<Rightarrow> bytes \<Rightarrow> addr \<Rightarrow> 'd \<times> ut_state \<Rightarrow> ('d \<times> ut_state) ut" where
  "HASH_ADD_emit malloc write key add ds =
     (case ds of (fd, s) \<Rightarrow>
        bindU (HASH_ADD malloc key add s) (\<lambda>s'. Some (Inr (HASH_EMIT_KEY write key (of_nat (length key)) fd, s'))))"

definition HASH_ADD_emit_nonfatal ::
  "(size_t \<Rightarrow> bool) \<Rightarrow> ('d \<Rightarrow> bytes \<Rightarrow> 'd) \<Rightarrow> bytes \<Rightarrow> addr \<Rightarrow> 'd \<times> ut_state \<Rightarrow> (bool \<times> 'd \<times> ut_state) ut" where
  "HASH_ADD_emit_nonfatal malloc write key add ds =
     (case ds of (fd, s) \<Rightarrow>
        bindU (HASH_ADD_nonfatal malloc key add s) (\<lambda>(oomed, s').
          Some (Inr (oomed, if oomed then fd else HASH_EMIT_KEY write key (of_nat (length key)) fd, s'))))"

text \<open>A reader of the stream: the length in the byte order of the host, then as many bytes.\<close>

function read_keys :: "bytes \<Rightarrow> bytes list option" where
  "read_keys [] = Some []"
| "read_keys (b0 # b1 # b2 # b3 # bs) =
     (let n = unat (le32 b0 b1 b2 b3) in
      if n \<le> length bs then map_option ((#) (take n bs)) (read_keys (drop n bs)) else None)"
| "read_keys [b0] = None"
| "read_keys [b0, b1] = None"
| "read_keys [b0, b1, b2] = None"
  by pat_completeness auto

termination by (relation "measure length") auto

lemma read_keys_prefix:
  assumes "length key < 2 ^ 32"
  shows "read_keys (mem_bytes 4 (of_nat (length key) :: u32) @ key @ bs) = map_option ((#) key) (read_keys bs)"
proof -
  have "mem_bytes 4 (w :: u32) = [byte_of 0 w, byte_of (Suc 0) w, byte_of 2 w, byte_of 3 w]" for w
    by (simp add: mem_bytes_def byte_of_def upt_conv_Cons numeral_2_eq_2 numeral_3_eq_3)
  moreover have "unat (of_nat (length key) :: u32) = length key" using assms by (simp add: unat_of_nat take_bit_nat_eq_self)
  ultimately show ?thesis by (simp add: Let_def le32_bytes)
qed

text \<open>Insertions one after the other, on a descriptor that takes every byte.\<close>

fun add_all_emit :: "(size_t \<Rightarrow> bool) \<Rightarrow> (bytes \<times> addr) list \<Rightarrow> bytes \<times> ut_state \<Rightarrow> (bytes \<times> ut_state) ut" where
  "add_all_emit malloc [] ds = Some (Inr ds)"
| "add_all_emit malloc ((key, a) # kas) ds = bindU (HASH_ADD_emit malloc (@) key a ds) (add_all_emit malloc kas)"

text \<open>Whatever is inserted, unless memory runs out, reading the stream back gives the keys in the order of their insertion.\<close>

theorem emitted_keys_read_back:
  "ut_rep s xs \<Longrightarrow> distinct (xs @ map snd kas) \<Longrightarrow> length xs + length kas < 2 ^ 32 \<Longrightarrow> (\<forall>(key, a) \<in> set kas. length key < 2 ^ 32) \<Longrightarrow>
   malloc_bounded malloc \<Longrightarrow>
   add_all_emit malloc kas (fd, s) = Some (Inl Exit_oom) \<or>
   (\<exists>out s'. add_all_emit malloc kas (fd, s) = Some (Inr (fd @ out, s')) \<and> read_keys out = Some (map fst kas) \<and>
      ut_rep s' (xs @ map snd kas))"
proof (induction kas arbitrary: s xs fd)
  case Nil
  then show ?case by simp
next
  case (Cons ka kas)
  obtain key a where ka: "ka = (key, a)" by fastforce
  have k: "length key < 2 ^ 32" "a \<notin> set xs" "length xs + 1 < 2 ^ 32" using Cons.prems(2-4) ka by auto
  let ?out = "mem_bytes 4 (of_nat (length key) :: u32) @ key"
  have len: "unat (of_nat (length key) :: u32) = length key" using k(1) by (simp add: unat_of_nat take_bit_nat_eq_self)
  from HASH_ADD_rep [OF Cons.prems(1) k(2,1,3) Cons.prems(5)] show ?case
  proof (elim disjE exE conjE)
    fix s' assume s': "HASH_ADD malloc key a s = Some (Inr s')" "ut_rep s' (xs @ [a])"
    have "add_all_emit malloc (ka # kas) (fd, s) = add_all_emit malloc kas (fd @ ?out, s')"
      using s'(1) len by (simp add: ka HASH_ADD_emit_def HASH_EMIT_KEY_def)
    moreover have "distinct ((xs @ [a]) @ map snd kas)" "length (xs @ [a]) + length kas < 2 ^ 32"
      "\<forall>(key, a) \<in> set kas. length key < 2 ^ 32" using Cons.prems(2-4) ka by auto
    note Cons.IH [OF s'(2) this Cons.prems(5), of "fd @ ?out"]
    ultimately show ?thesis using read_keys_prefix [OF k(1)] by (fastforce simp: ka)
  qed (simp add: ka HASH_ADD_emit_def)
qed

text \<open>With recovery from failed allocations, an insertion that is rolled back emits nothing, and one that succeeds emits what it
  emits in the default configuration.\<close>

theorem emit_nonfatal:
  assumes "ut_rep s xs" "a \<notin> set xs" "length key < 2 ^ 32" "length xs + 1 < 2 ^ 32" "malloc_bounded malloc"
  shows "\<exists>oomed fd' s'. HASH_ADD_emit_nonfatal malloc write key a (fd, s) = Some (Inr (oomed, fd', s')) \<and>
    (if oomed then fd' = fd \<and> HASH_ADD_emit malloc write key a (fd, s) = Some (Inl Exit_oom) \<and> ut_rep s' xs
     else HASH_ADD_emit malloc write key a (fd, s) = Some (Inr (fd', s')))"
  using HASH_ADD_nonfatal_rep [OF assms] by (auto simp: HASH_ADD_emit_nonfatal_def HASH_ADD_emit_def split: if_splits)

end
